(* ===== verification/Prelude.thy ===== *)
theory Prelude
  imports Main "HOL-Library.Word" "HOL-Library.Char_ord" "HOL-Library.List_Lexorder"
    "HOL-Library.Product_Lexorder"
begin

text \<open>
  Shared vocabulary of the development.

  \<^item> Rust's machine types: \<open>usize\<close> and the unsigned counters are \<open>nat\<close>, \<open>i64\<close> is \<open>int\<close> with
    the two's-complement wrap-around \<open>wrap_i64\<close> written where the code can overflow (the release
    profile of the workspace leaves overflow checks off), \<open>u8\<close> .. \<open>u64\<close> are words.
  \<^item> \<open>String\<close> is \<open>string\<close>: a list of bytes in UTF-8, as in Rust, so \<open>length\<close> is \<open>str::len\<close> and the
    lexicographic order of the library is \<open>str::cmp\<close>.
  \<^item> \<open>Result<T, PrismError>\<close> is \<open>prism_error + 'a\<close>, with \<open>Inl\<close> the error. The text of a message is
    abbreviated to a tag: the variant and the place that raises it are kept, the numbers a message
    interpolates are not.
  \<^item> \<open>BTreeMap<String, V>\<close> and \<open>BTreeSet<String>\<close> are association lists and lists with strictly
    ascending keys, so that iteration order is the code's.
\<close>

named_theorems btree_simps \<open>equations of the ordered map\<close>
named_theorems res_simps \<open>equations of the result type\<close>

subsection \<open>Machine integers\<close>

type_synonym byte = "8 word"
type_synonym u32 = "32 word"
type_synonym u64 = "64 word"
type_synonym i64 = int

lemma unat_u32_lt: "unat (x :: u32) < 2 ^ 32"
  using unsigned_less [of x] by simp

lemma unat_u64_lt: "unat (x :: u64) < 2 ^ 64"
  using unsigned_less [of x] by simp

definition wrap_i64 :: "int \<Rightarrow> i64" where
  "wrap_i64 x = (x + 2 ^ 63) mod 2 ^ 64 - 2 ^ 63"

definition i64_range :: "int \<Rightarrow> bool" where
  "i64_range x \<longleftrightarrow> - (2 ^ 63) \<le> x \<and> x < 2 ^ 63"

lemma wrap_i64_id [simp]: "i64_range x \<Longrightarrow> wrap_i64 x = x"
  by (simp add: wrap_i64_def i64_range_def)

lemma wrap_i64_range [simp]: "i64_range (wrap_i64 x)"
proof -
  have "0 \<le> (x + 2 ^ 63) mod 2 ^ 64" "(x + 2 ^ 63) mod 2 ^ 64 < 2 ^ 64"
    by (rule pos_mod_sign pos_mod_bound, simp)+
  then show ?thesis unfolding wrap_i64_def i64_range_def by simp
qed

lemma wrap_i64_cases:
  assumes "- (2 ^ 64) \<le> x" and "x < 2 ^ 64"
  shows "wrap_i64 x = (if x < - (2 ^ 63) then x + 2 ^ 64 else if x < 2 ^ 63 then x else x - 2 ^ 64)"
proof -
  have "(x + 2 ^ 63) mod 2 ^ 64 = (x + 2 ^ 63 + 2 ^ 64) mod 2 ^ 64"
    "(x + 2 ^ 63) mod 2 ^ 64 = (x + 2 ^ 63 - 2 ^ 64) mod 2 ^ 64"
    by (simp_all only: mod_add_self2 minus_mod_self2)
  with assms show ?thesis
    unfolding wrap_i64_def using mod_pos_pos_trivial [of "x + 2 ^ 63" "2 ^ 64"]
      mod_pos_pos_trivial [of "x + 2 ^ 63 + 2 ^ 64" "2 ^ 64"]
      mod_pos_pos_trivial [of "x + 2 ^ 63 - 2 ^ 64" "2 ^ 64"] by auto
qed

subsection \<open>Results\<close>

datatype prism_error =
    Io string
  | Corrupt string
  | Invalid string
  | Policy string
  | NotFound string
  | Decode string
  | Invariant string
  | OutOfSpace string

type_synonym 'a res = "prism_error + 'a"

definition rbind :: "'e + 'a \<Rightarrow> ('a \<Rightarrow> 'e + 'b) \<Rightarrow> 'e + 'b" where
  "rbind m f = (case m of Inl e \<Rightarrow> Inl e | Inr x \<Rightarrow> f x)"

lemma rbind_simps [simp]: "rbind (Inl e) f = Inl e" "rbind (Inr x) f = f x"
  by (simp_all add: rbind_def)

lemma rbind_Inr_iff [res_simps]: "rbind m f = Inr y \<longleftrightarrow> (\<exists>x. m = Inr x \<and> f x = Inr y)"
  by (cases m) auto

lemma rbind_Inl_iff [res_simps]:
  "rbind m f = Inl e \<longleftrightarrow> m = Inl e \<or> (\<exists>x. m = Inr x \<and> f x = Inl e)"
  by (cases m) auto

lemma rbind_cong [fundef_cong]:
  "m = m' \<Longrightarrow> (\<And>x. m' = Inr x \<Longrightarrow> f x = f' x) \<Longrightarrow> rbind m f = rbind m' f'"
  by (cases m') auto

definition is_ok :: "'e + 'a \<Rightarrow> bool" where
  "is_ok r \<longleftrightarrow> (case r of Inl _ \<Rightarrow> False | Inr _ \<Rightarrow> True)"

lemma is_ok_simps [simp]: "is_ok (Inr x)" "\<not> is_ok (Inl e)"
  by (simp_all add: is_ok_def)

lemma is_ok_iff: "is_ok r \<longleftrightarrow> (\<exists>x. r = Inr x)"
  by (cases r) auto

text \<open>\<open>for x in xs { f(x)?; }\<close>: run a check over a list, stop at the first error.\<close>

fun check_all :: "('a \<Rightarrow> 'e + unit) \<Rightarrow> 'a list \<Rightarrow> 'e + unit" where
  "check_all f [] = Inr ()"
| "check_all f (x # xs) = rbind (f x) (\<lambda>_. check_all f xs)"

lemma check_all_ok: "check_all f xs = Inr u \<longleftrightarrow> (\<forall>x \<in> set xs. is_ok (f x))"
proof (induction xs)
  case (Cons x xs)
  then show ?case by (cases "f x") (auto simp: rbind_Inr_iff)
qed simp

text \<open>A loop whose body may return an error.\<close>

fun rfold :: "('a \<Rightarrow> 's \<Rightarrow> 'e + 's) \<Rightarrow> 'a list \<Rightarrow> 's \<Rightarrow> 'e + 's" where
  "rfold f [] s = Inr s"
| "rfold f (x # xs) s = rbind (f x s) (rfold f xs)"

lemma rfold_append: "rfold f (xs @ ys) s = rbind (rfold f xs s) (rfold f ys)"
  by (induction xs arbitrary: s) (auto simp: rbind_def split: sum.split)

subsection \<open>Ordered maps\<close>

fun bt_insert :: "'k::linorder \<Rightarrow> 'v \<Rightarrow> ('k \<times> 'v) list \<Rightarrow> ('k \<times> 'v) list" where
  "bt_insert k v [] = [(k, v)]"
| "bt_insert k v ((a, b) # m) =
     (if k < a then (k, v) # (a, b) # m
      else if k = a then (k, v) # m
      else (a, b) # bt_insert k v m)"

definition bt_get :: "('k \<times> 'v) list \<Rightarrow> 'k \<Rightarrow> 'v option" where
  "bt_get m k = map_of m k"

definition bt_remove :: "'k \<Rightarrow> ('k \<times> 'v) list \<Rightarrow> ('k \<times> 'v) list" where
  "bt_remove k m = filter (\<lambda>p. fst p \<noteq> k) m"

definition bt_wf :: "('k::linorder \<times> 'v) list \<Rightarrow> bool" where
  "bt_wf m \<longleftrightarrow> sorted_wrt (<) (map fst m)"

lemma bt_wf_Nil [simp]: "bt_wf []"
  by (simp add: bt_wf_def)

lemma bt_get_Nil [simp]: "bt_get [] k = None"
  by (simp add: bt_get_def)

lemma bt_keys_insert: "set (map fst (bt_insert k v m)) = insert k (set (map fst m))"
  by (induction k v m rule: bt_insert.induct) auto

lemma bt_wf_insert [simp, btree_simps]: "bt_wf m \<Longrightarrow> bt_wf (bt_insert k v m)"
  unfolding bt_wf_def
proof (induction k v m rule: bt_insert.induct)
  case (2 k v a b m)
  then show ?case using bt_keys_insert [of k v m] by fastforce
qed simp

lemma bt_get_insert [simp, btree_simps]:
  "bt_get (bt_insert k v m) k' = (if k' = k then Some v else bt_get m k')"
  unfolding bt_get_def by (induction k v m rule: bt_insert.induct) auto

lemma length_bt_insert: "bt_wf m \<Longrightarrow> length (bt_insert k v m) = (if bt_get m k = None then length m + 1 else length m)"
  unfolding bt_wf_def bt_get_def
proof (induction k v m rule: bt_insert.induct)
  case (2 k v a b m)
  then have "k < a \<Longrightarrow> map_of m k = None" by (auto simp: map_of_eq_None_iff dest: order.strict_trans)
  with 2 show ?case by auto
qed simp

lemma bt_get_remove [simp, btree_simps]:
  "bt_get (bt_remove k m) k' = (if k' = k then None else bt_get m k')"
  unfolding bt_get_def bt_remove_def by (induction m) auto

lemma bt_wf_filter [simp]: "bt_wf m \<Longrightarrow> bt_wf (filter P m)"
  unfolding bt_wf_def by (induction m) auto

lemma bt_wf_remove [simp, btree_simps]: "bt_wf m \<Longrightarrow> bt_wf (bt_remove k m)"
  by (simp add: bt_remove_def)

lemma bt_wf_distinct: "bt_wf m \<Longrightarrow> distinct (map fst m)"
  unfolding bt_wf_def by (simp add: strict_sorted_iff)

lemma bt_get_Some_iff: "bt_wf m \<Longrightarrow> bt_get m k = Some v \<longleftrightarrow> (k, v) \<in> set m"
  by (simp add: bt_get_def bt_wf_distinct)

text \<open>
  The contract of an ordered map, as the clients of \<open>BTreeMap\<close> use it: a lookup after an insert or
  a removal, and that both keep the keys strictly ascending.
\<close>

locale ordered_map =
  fixes put :: "'k::linorder \<Rightarrow> 'v \<Rightarrow> 'm \<Rightarrow> 'm"
    and get :: "'m \<Rightarrow> 'k \<Rightarrow> 'v option"
    and del :: "'k \<Rightarrow> 'm \<Rightarrow> 'm"
    and wf :: "'m \<Rightarrow> bool"
  assumes get_put: "wf m \<Longrightarrow> get (put k v m) k' = (if k' = k then Some v else get m k')"
    and get_del: "wf m \<Longrightarrow> get (del k m) k' = (if k' = k then None else get m k')"
    and wf_put: "wf m \<Longrightarrow> wf (put k v m)"
    and wf_del: "wf m \<Longrightarrow> wf (del k m)"
begin

lemma wf_fold_put: "wf m \<Longrightarrow> wf (fold (\<lambda>x. put (f x) (g x)) xs m)"
  by (induction xs arbitrary: m) (auto intro: wf_put)

lemma get_fold_put_notin:
  "wf m \<Longrightarrow> k \<notin> f ` set xs \<Longrightarrow> get (fold (\<lambda>x. put (f x) (g x)) xs m) k = get m k"
  by (induction xs arbitrary: m) (auto simp: get_put wf_put)

lemma get_fold_put_in:
  assumes "wf m" and "k \<in> f ` set xs" and "\<And>x. x \<in> set xs \<Longrightarrow> f x = k \<Longrightarrow> g x = v"
  shows "get (fold (\<lambda>x. put (f x) (g x)) xs m) k = Some v"
  using assms
proof (induction xs arbitrary: m)
  case (Cons x xs)
  show ?case
  proof (cases "k \<in> f ` set xs")
    case True
    with Cons show ?thesis by (auto intro!: Cons.IH wf_put)
  next
    case False
    with Cons.prems show ?thesis
      by (auto simp: get_put wf_put get_fold_put_notin)
  qed
qed simp

end

interpretation bt: ordered_map bt_insert bt_get bt_remove bt_wf
  by unfold_locales simp_all

subsection \<open>Bytes\<close>

definition as_bytes :: "string \<Rightarrow> byte list" where
  "as_bytes s = map of_char s"

lemma length_as_bytes [simp]: "length (as_bytes s) = length s"
  by (simp add: as_bytes_def)

lemma as_bytes_append [simp]: "as_bytes (s @ t) = as_bytes s @ as_bytes t"
  by (simp add: as_bytes_def)

end
