(* ===== verification/Floats.thy ===== *)
theory Floats
  imports Prelude
begin

text \<open>
  IEEE-754 values as the code stores them: an \<open>f64\<close> is its 64 bits, an \<open>f32\<close> its 32 bits
  (\<open>to_bits\<close>/\<open>from_bits\<close> are the identity). Comparison is defined on the bits: the magnitude field
  read as an integer is monotone in the value, so \<open>partial_cmp\<close> compares the signed magnitudes
  (with \<open>-0 = +0\<close>, and no answer for a NaN) and \<open>total_cmp\<close> the key the standard library uses.
  \<open>f64_of_ratio\<close> is the correctly rounded (to nearest, ties to even) conversion that both
  \<open>i64 as f64\<close> and \<open>str::parse::<f64>\<close> perform.
\<close>

type_synonym f64 = "64 word"
type_synonym f32 = "32 word"

datatype ordering = Less | Equal | Greater

definition ord_cmp :: "'a::linorder \<Rightarrow> 'a \<Rightarrow> ordering" where
  "ord_cmp a b = (if a < b then Less else if a = b then Equal else Greater)"

lemma ord_cmp_simps [simp]:
  "ord_cmp a b = Less \<longleftrightarrow> a < b" "ord_cmp a b = Equal \<longleftrightarrow> a = b" "ord_cmp a b = Greater \<longleftrightarrow> b < a"
  by (auto simp: ord_cmp_def)

text \<open>\<open>Ordering::then_with\<close>.\<close>

fun then_with :: "ordering \<Rightarrow> ordering \<Rightarrow> ordering" where
  "then_with Equal o2 = o2"
| "then_with o1 _ = o1"

lemma then_with_cmp: "then_with (ord_cmp a b) (ord_cmp c d) = ord_cmp (a, c) (b, d)"
  by (auto simp: ord_cmp_def less_prod_simp)

subsection \<open>Double precision\<close>

definition f64_mag :: "f64 \<Rightarrow> nat" where
  "f64_mag x = unat x mod 2 ^ 63"

definition f64_neg :: "f64 \<Rightarrow> bool" where
  "f64_neg x \<longleftrightarrow> 2 ^ 63 \<le> unat x"

definition f64_inf_mag :: nat where
  "f64_inf_mag = 2047 * 2 ^ 52"

definition f64_is_nan :: "f64 \<Rightarrow> bool" where
  "f64_is_nan x \<longleftrightarrow> f64_inf_mag < f64_mag x"

definition f64_is_finite :: "f64 \<Rightarrow> bool" where
  "f64_is_finite x \<longleftrightarrow> f64_mag x < f64_inf_mag"

definition f64_key :: "f64 \<Rightarrow> int" where
  "f64_key x = (if f64_neg x then - int (f64_mag x) else int (f64_mag x))"

definition f64_partial_cmp :: "f64 \<Rightarrow> f64 \<Rightarrow> ordering option" where
  "f64_partial_cmp x y =
     (if f64_is_nan x \<or> f64_is_nan y then None else Some (ord_cmp (f64_key x) (f64_key y)))"

definition f64_lt :: "f64 \<Rightarrow> f64 \<Rightarrow> bool" where
  "f64_lt x y \<longleftrightarrow> f64_partial_cmp x y = Some Less"

subsection \<open>Single precision\<close>

definition f32_mag :: "f32 \<Rightarrow> nat" where
  "f32_mag x = unat x mod 2 ^ 31"

definition f32_neg :: "f32 \<Rightarrow> bool" where
  "f32_neg x \<longleftrightarrow> 2 ^ 31 \<le> unat x"

definition f32_inf_mag :: nat where
  "f32_inf_mag = 255 * 2 ^ 23"

definition f32_is_nan :: "f32 \<Rightarrow> bool" where
  "f32_is_nan x \<longleftrightarrow> f32_inf_mag < f32_mag x"

definition f32_key :: "f32 \<Rightarrow> int" where
  "f32_key x = (if f32_neg x then - int (f32_mag x) else int (f32_mag x))"

definition f32_partial_cmp :: "f32 \<Rightarrow> f32 \<Rightarrow> ordering option" where
  "f32_partial_cmp x y =
     (if f32_is_nan x \<or> f32_is_nan y then None else Some (ord_cmp (f32_key x) (f32_key y)))"

text \<open>
  \<open>f32::total_cmp\<close> flips the low 31 bits of a negative value and compares as \<open>i32\<close>: a negative
  value of magnitude \<open>m\<close> gets the key \<open>-1 - m\<close>. The key is injective, so the order is total on the
  bits and \<open>-0 < +0\<close>.
\<close>

definition f32_total_key :: "f32 \<Rightarrow> int" where
  "f32_total_key x = (if f32_neg x then - 1 - int (f32_mag x) else int (f32_mag x))"

lemma f32_total_key_inj: "f32_total_key x = f32_total_key y \<Longrightarrow> x = y"
proof -
  assume eq: "f32_total_key x = f32_total_key y"
  define a b where "a = unat x" and "b = unat y"
  have lt: "a < 2 ^ 32" "b < 2 ^ 32"
    unfolding a_def b_def by (rule unat_u32_lt)+
  have "a = b"
    using eq lt unfolding f32_total_key_def f32_neg_def f32_mag_def a_def [symmetric] b_def [symmetric]
    by (auto split: if_splits simp: mod_if)
  then show ?thesis unfolding a_def b_def by (rule word_unat_eq_iff [THEN iffD2])
qed

definition f32_total_cmp :: "f32 \<Rightarrow> f32 \<Rightarrow> ordering" where
  "f32_total_cmp x y = ord_cmp (f32_total_key x) (f32_total_key y)"

subsection \<open>Correctly rounded conversion\<close>

fun ilog2 :: "nat \<Rightarrow> nat" where
  "ilog2 n = (if n < 2 then 0 else Suc (ilog2 (n div 2)))"

declare ilog2.simps [simp del]

text \<open>Division rounded to nearest, ties to even.\<close>

definition rne :: "nat \<Rightarrow> nat \<Rightarrow> nat" where
  "rne a b =
     (let q = a div b; r = a mod b
      in if b < 2 * r \<or> (2 * r = b \<and> odd q) then Suc q else q)"

text \<open>\<open>\<lfloor>log2 (n / d)\<rfloor>\<close>.\<close>

definition ratio_exp :: "nat \<Rightarrow> nat \<Rightarrow> int" where
  "ratio_exp n d =
     (let k = int (ilog2 n) - int (ilog2 d)
      in if (if 0 \<le> k then d * 2 ^ nat k \<le> n else d \<le> n * 2 ^ nat (- k)) then k else k - 1)"

text \<open>The magnitude bits of the double nearest to \<open>n / d\<close>.\<close>

definition f64_mag_of_ratio :: "nat \<Rightarrow> nat \<Rightarrow> nat" where
  "f64_mag_of_ratio n d =
     (if n = 0 then 0
      else let e = max (- 1022) (ratio_exp n d);
               u = e - 52;
               q = (if 0 \<le> u then rne n (d * 2 ^ nat u) else rne (n * 2 ^ nat (- u)) d)
           in min f64_inf_mag (nat (e + 1022) * 2 ^ 52 + q))"

definition f64_of_ratio :: "bool \<Rightarrow> nat \<Rightarrow> nat \<Rightarrow> f64" where
  "f64_of_ratio neg n d = word_of_nat (f64_mag_of_ratio n d + (if neg then 2 ^ 63 else 0))"

definition i64_as_f64 :: "i64 \<Rightarrow> f64" where
  "i64_as_f64 n = f64_of_ratio (n < 0) (nat \<bar>n\<bar>) 1"

lemma ilog2_bounds: "0 < n \<Longrightarrow> 2 ^ ilog2 n \<le> n \<and> n < 2 ^ Suc (ilog2 n)"
proof (induction n rule: ilog2.induct)
  case (1 n)
  show ?case
  proof (cases "n < 2")
    case True
    with "1.prems" show ?thesis by (simp add: ilog2.simps [of n])
  next
    case False
    with "1.IH" have "2 ^ ilog2 (n div 2) \<le> n div 2 \<and> n div 2 < 2 ^ Suc (ilog2 (n div 2))"
      by simp
    with False show ?thesis by (simp add: ilog2.simps [of n]) linarith
  qed
qed

lemma ilog2_mono: "0 < n \<Longrightarrow> n \<le> m \<Longrightarrow> ilog2 n \<le> ilog2 m"
proof (rule ccontr)
  assume "0 < n" "n \<le> m" "\<not> ilog2 n \<le> ilog2 m"
  then have "Suc (ilog2 m) \<le> ilog2 n" "m < 2 ^ Suc (ilog2 m)" "2 ^ ilog2 n \<le> n"
    using ilog2_bounds [of m] ilog2_bounds [of n] by auto
  moreover from this(1) have "(2::nat) ^ Suc (ilog2 m) \<le> 2 ^ ilog2 n"
    by (rule power_increasing) simp
  ultimately show False using \<open>n \<le> m\<close> by linarith
qed

lemma ilog2_less: "0 < n \<Longrightarrow> n < 2 ^ k \<Longrightarrow> ilog2 n < k"
  by (rule power_less_imp_less_exp [of "2::nat"]) (use ilog2_bounds [of n] in linarith)+

lemma rne_1 [simp]: "rne a (Suc 0) = a"
  by (simp add: rne_def)

lemma rne_mono:
  assumes "0 < b" and "a \<le> a'"
  shows "rne a b \<le> rne a' b"
proof (cases "a div b = a' div b")
  case True
  have "a div b * b + a mod b \<le> a' div b * b + a' mod b"
    using assms(2) by (simp only: div_mult_mod_eq)
  with True have "a mod b \<le> a' mod b" by (simp only: add_le_cancel_left)
  with True show ?thesis by (auto simp: rne_def Let_def)
next
  case False
  with assms have "Suc (a div b) \<le> a' div b" by (simp add: Suc_leI le_neq_implies_less div_le_mono)
  then show ?thesis by (auto simp: rne_def Let_def)
qed

lemma rne_exact: "0 < b \<Longrightarrow> rne (k * b) b = k"
  by (simp add: rne_def)

lemma ratio_exp_nat [simp]: "0 < n \<Longrightarrow> ratio_exp n (Suc 0) = int (ilog2 n)"
  using ilog2_bounds [of n] by (simp add: ratio_exp_def Let_def ilog2.simps [of "Suc 0"])

text \<open>The significand of an integer, and that it keeps between \<open>2^52\<close> and \<open>2^53\<close>.\<close>

definition int_sig :: "nat \<Rightarrow> nat" where
  "int_sig n = (if 52 \<le> ilog2 n then rne n (2 ^ (ilog2 n - 52)) else n * 2 ^ (52 - ilog2 n))"

lemma int_sig_bounds:
  assumes "0 < n"
  shows "2 ^ 52 \<le> int_sig n \<and> int_sig n \<le> 2 ^ 53"
proof (cases "52 \<le> ilog2 n")
  case True
  let ?b = "(2::nat) ^ (ilog2 n - 52)"
  have pow: "2 ^ ilog2 n = 2 ^ 52 * ?b" "2 ^ Suc (ilog2 n) = 2 ^ 53 * ?b"
    using True by (simp_all only: power_add [symmetric] le_add_diff_inverse Suc_eq_plus1) simp_all
  have "2 ^ 52 * ?b \<le> n" "n \<le> 2 ^ 53 * ?b"
    using ilog2_bounds [OF assms] pow by (metis, metis less_imp_le)
  then have "rne (2 ^ 52 * ?b) ?b \<le> rne n ?b" "rne n ?b \<le> rne (2 ^ 53 * ?b) ?b"
    by (auto intro: rne_mono)
  with True show ?thesis by (simp only: int_sig_def if_True) (simp add: rne_exact)
next
  case False
  let ?c = "(2::nat) ^ (52 - ilog2 n)"
  have "2 ^ ilog2 n * ?c = 2 ^ 52" "2 ^ Suc (ilog2 n) * ?c = 2 ^ 53"
    using False by (simp_all flip: power_add power_Suc)
  moreover have "2 ^ ilog2 n * ?c \<le> n * ?c" "n * ?c \<le> 2 ^ Suc (ilog2 n) * ?c"
    using ilog2_bounds [OF assms] by (auto intro!: mult_right_mono)
  ultimately show ?thesis using False by (simp only: int_sig_def if_False)
qed

lemma f64_mag_of_nat:
  assumes "0 < n" and "n < 2 ^ 64"
  shows "f64_mag_of_ratio n 1 = (ilog2 n + 1022) * 2 ^ 52 + int_sig n"
proof -
  let ?m = "(ilog2 n + 1022) * 2 ^ 52 + int_sig n"
  have "ilog2 n < 64" using assms by (rule ilog2_less)
  then have "?m \<le> (63 + 1022) * 2 ^ 52 + 2 ^ 53"
    using int_sig_bounds [OF assms(1)] by (intro add_mono mult_right_mono) auto
  then have "?m \<le> f64_inf_mag" by (simp add: f64_inf_mag_def)
  moreover have "max (- 1022) (int (ilog2 n)) = int (ilog2 n)" by simp
  ultimately show ?thesis
    using assms(1) by (auto simp: f64_mag_of_ratio_def int_sig_def Let_def nat_add_distrib nat_diff_distrib)
qed

lemma f64_mag_of_nat_mono:
  assumes "n \<le> m" and "m < 2 ^ 64"
  shows "f64_mag_of_ratio n 1 \<le> f64_mag_of_ratio m 1"
proof (cases "n = 0")
  case False
  with assms have pos: "0 < n" "0 < m" and lt: "n < 2 ^ 64" by auto
  have "(ilog2 n + 1022) * 2 ^ 52 + int_sig n \<le> (ilog2 m + 1022) * 2 ^ 52 + int_sig m"
  proof (cases "ilog2 n = ilog2 m")
    case True
    then have "int_sig n \<le> int_sig m"
      using assms(1) by (auto simp: int_sig_def intro: rne_mono)
    with True show ?thesis by simp
  next
    case False
    with ilog2_mono [OF pos(1) assms(1)] have "ilog2 n + 1 \<le> ilog2 m" by simp
    with int_sig_bounds [OF pos(1)] int_sig_bounds [OF pos(2)] show ?thesis by simp
  qed
  then show ?thesis using f64_mag_of_nat pos lt assms(2) by simp
qed (simp add: f64_mag_of_ratio_def)

lemma f64_mag_of_nat_strict:
  assumes "n < m" and "m \<le> 2 ^ 53"
  shows "f64_mag_of_ratio n 1 < f64_mag_of_ratio m 1"
proof (cases "n = 0")
  case True
  then show ?thesis using assms f64_mag_of_nat [of m] by (simp add: f64_mag_of_ratio_def [of 0])
next
  case False
  with assms have pos: "0 < n" "0 < m" and lt: "n < 2 ^ 53" "n < 2 ^ 64" "m < 2 ^ 64" by auto
  have n53: "ilog2 n < 53" using pos(1) lt(1) by (rule ilog2_less)
  have "(ilog2 n + 1022) * 2 ^ 52 + int_sig n < (ilog2 m + 1022) * 2 ^ 52 + int_sig m"
  proof (cases "ilog2 n = ilog2 m")
    case True
    with n53 assms(1) have "int_sig n < int_sig m" by (auto simp: int_sig_def)
    with True show ?thesis by simp
  next
    case False
    with ilog2_mono [of n m] pos assms(1) have less: "ilog2 n + 1 \<le> ilog2 m" by simp
    have "int_sig n < 2 ^ 53"
    proof (cases "ilog2 n = 52")
      case True
      then show ?thesis using lt(1) by (simp add: int_sig_def)
    next
      case False
      with n53 have "ilog2 n < 52" by simp
      then have "n * 2 ^ (52 - ilog2 n) < 2 ^ Suc (ilog2 n) * 2 ^ (52 - ilog2 n)"
        using ilog2_bounds [OF pos(1)] by (intro mult_strict_right_mono) auto
      also have "\<dots> = 2 ^ 53" using \<open>ilog2 n < 52\<close> by (simp only: flip: power_add) simp
      finally show ?thesis using \<open>ilog2 n < 52\<close> by (simp add: int_sig_def)
    qed
    with less int_sig_bounds [OF pos(2)] show ?thesis by simp
  qed
  then show ?thesis using f64_mag_of_nat pos lt by simp
qed

lemma f64_mag_of_nat_bound: "n < 2 ^ 64 \<Longrightarrow> f64_mag_of_ratio n 1 \<le> f64_inf_mag"
  by (auto simp: f64_mag_of_ratio_def Let_def)

lemma ilog2_eqI: "2 ^ k \<le> n \<Longrightarrow> n < 2 ^ Suc k \<Longrightarrow> ilog2 n = k"
proof -
  assume n: "2 ^ k \<le> n" "n < 2 ^ Suc k"
  have "0 < n" using n(1) by (rule less_le_trans [rotated]) simp
  then have b: "2 ^ ilog2 n \<le> n" "n < 2 ^ Suc (ilog2 n)" using ilog2_bounds [of n] by auto
  have "(2 :: nat) ^ ilog2 n < 2 ^ Suc k" "(2 :: nat) ^ k < 2 ^ Suc (ilog2 n)"
    using b n by linarith+
  then have "ilog2 n < Suc k" "k < Suc (ilog2 n)" by (simp_all only: power_strict_increasing_iff)
  then show ?thesis by simp
qed

subsection \<open>Integers as doubles\<close>

text \<open>
  The conversion of an \<open>i64\<close> is never a NaN, is monotone, and is injective up to \<open>2^53\<close>; beyond it
  several integers share one double.
\<close>

lemma f64_key_i64:
  assumes "i64_range n"
  shows "f64_key (i64_as_f64 n) =
    (if n < 0 then - int (f64_mag_of_ratio (nat (- n)) 1) else int (f64_mag_of_ratio (nat n) 1))"
proof -
  let ?m = "f64_mag_of_ratio (nat \<bar>n\<bar>) 1"
  have "nat \<bar>n\<bar> < 2 ^ 64" using assms by (auto simp: i64_range_def)
  then have m: "?m < 2 ^ 63" using f64_mag_of_nat_bound [of "nat \<bar>n\<bar>"] by (simp add: f64_inf_mag_def)
  let ?b = "?m + (if n < 0 then 2 ^ 63 else 0)"
  have b: "?b < 2 ^ 64" using m by (auto simp: abs_if)
  have w: "unat (word_of_nat k :: 64 word) = k" if "k < 2 ^ 64" for k
    using that by (simp add: unat_of_nat)
  have "unat (i64_as_f64 n) = ?b"
    unfolding i64_as_f64_def f64_of_ratio_def by (rule w [OF b])
  with m show ?thesis
    by (cases "n < 0") (simp_all add: f64_key_def f64_neg_def f64_mag_def)
qed

lemma f64_not_nan_i64:
  assumes "i64_range n"
  shows "\<not> f64_is_nan (i64_as_f64 n)"
proof -
  let ?m = "f64_mag_of_ratio (nat \<bar>n\<bar>) 1"
  have "nat \<bar>n\<bar> < 2 ^ 64" using assms by (auto simp: i64_range_def)
  then have le: "?m \<le> f64_inf_mag" by (rule f64_mag_of_nat_bound)
  have "\<bar>f64_key (i64_as_f64 n)\<bar> = int ?m" using f64_key_i64 [OF assms] by (simp add: abs_if)
  then have "f64_mag (i64_as_f64 n) = ?m" by (simp add: f64_key_def split: if_splits)
  with le show ?thesis by (simp add: f64_is_nan_def)
qed

lemma i64_as_f64_mono:
  assumes "a \<le> b" and "i64_range a" and "i64_range b"
  shows "f64_key (i64_as_f64 a) \<le> f64_key (i64_as_f64 b)"
  using assms f64_mag_of_nat_mono [of "nat (- b)" "nat (- a)"] f64_mag_of_nat_mono [of "nat a" "nat b"]
  by (auto simp: f64_key_i64 i64_range_def)

lemma i64_as_f64_strict:
  assumes "a < b" and "\<bar>a\<bar> \<le> 2 ^ 53" and "\<bar>b\<bar> \<le> 2 ^ 53"
  shows "f64_key (i64_as_f64 a) < f64_key (i64_as_f64 b)"
proof -
  have r: "i64_range a" "i64_range b" using assms by (auto simp: i64_range_def)
  have pos: "0 < k \<Longrightarrow> k \<le> 2 ^ 53 \<Longrightarrow> 0 < f64_mag_of_ratio k 1" for k
    using f64_mag_of_nat_strict [of 0 k] by simp
  consider "b < 0" | "a < 0" "0 \<le> b" | "0 \<le> a" using assms(1) by linarith
  then show ?thesis
  proof cases
    case 1
    then show ?thesis
      using assms f64_mag_of_nat_strict [of "nat (- b)" "nat (- a)"] by (simp add: f64_key_i64 r)
  next
    case 2
    then have "0 < f64_mag_of_ratio (nat (- a)) 1" using assms by (intro pos) auto
    with 2 show ?thesis by (simp add: f64_key_i64 r)
  next
    case 3
    then show ?thesis
      using assms f64_mag_of_nat_strict [of "nat a" "nat b"] by (simp add: f64_key_i64 r)
  qed
qed

lemma i64_cmp_exact:
  assumes "\<bar>a\<bar> \<le> 2 ^ 53" and "\<bar>b\<bar> \<le> 2 ^ 53"
  shows "f64_partial_cmp (i64_as_f64 a) (i64_as_f64 b) = Some (ord_cmp a b)"
proof -
  have r: "i64_range a" "i64_range b" using assms by (auto simp: i64_range_def)
  then have "\<not> f64_is_nan (i64_as_f64 a)" "\<not> f64_is_nan (i64_as_f64 b)" by (simp_all add: f64_not_nan_i64)
  then show ?thesis
    using i64_as_f64_strict [of a b] i64_as_f64_strict [of b a] assms
    by (cases a b rule: linorder_cases) (simp_all add: f64_partial_cmp_def ord_cmp_def)
qed

lemma i64_cmp_conservative:
  assumes "i64_range a" and "i64_range b" and "f64_partial_cmp (i64_as_f64 a) (i64_as_f64 b) = Some Less"
  shows "a < b"
proof (rule ccontr)
  assume "\<not> a < b"
  then have "f64_key (i64_as_f64 b) \<le> f64_key (i64_as_f64 a)"
    using assms by (intro i64_as_f64_mono) auto
  with assms(3) show False by (simp add: f64_partial_cmp_def ord_cmp_def split: if_splits)
qed

end
