(* ===== verification/TopK.thy ===== *)
theory TopK
  imports Floats "HOL-Library.Multiset"
begin

text \<open>
  The bounded nearest-\<open>cap\<close> selection of \<open>prism-engine/src/topk.rs\<close>: an explicit binary max-heap on a
  vector, with the comparator \<open>worse\<close> (distance in the total order of \<open>f32\<close>, ties on the event id).
  The closure \<open>id_of\<close> of the code is a function argument. The main lemma is a functional
  refinement: whatever the order of the offers, the keys kept are the \<open>cap\<close> smallest of all keys
  offered. The second half models the candidate collector of \<open>search.rs\<close> behind one contract: a candidate
  which \<open>would_admit\<close> refuses is one which \<open>offer\<close> ignores.
\<close>

section \<open>The heap\<close>

record candidate =
  dist :: f32
  part :: nat
  row :: nat

type_synonym id_fn = "nat \<Rightarrow> nat \<Rightarrow> string"

record topk =
  cap :: nat
  heap :: "candidate list"

definition topk_new :: "nat \<Rightarrow> topk" where
  "topk_new c = \<lparr>cap = c, heap = []\<rparr>"

definition worse :: "id_fn \<Rightarrow> candidate \<Rightarrow> candidate \<Rightarrow> ordering" where
  "worse id_of a b = then_with (f32_total_cmp (dist a) (dist b))
     (ord_cmp (id_of (part a) (row a)) (id_of (part b) (row b)))"

definition swap :: "'a list \<Rightarrow> nat \<Rightarrow> nat \<Rightarrow> 'a list" where
  "swap xs i j = xs[i := xs ! j, j := xs ! i]"

function sift_up :: "id_fn \<Rightarrow> candidate list \<Rightarrow> nat \<Rightarrow> candidate list" where
  "sift_up id_of h i =
     (if 0 < i then
        let p = (i - 1) div 2 in
        if worse id_of (h ! i) (h ! p) = Greater then sift_up id_of (swap h i p) p else h
      else h)"
  by pat_completeness auto
termination by (relation "measure (\<lambda>(_, _, i). i)") auto

definition worst_child :: "id_fn \<Rightarrow> candidate list \<Rightarrow> nat \<Rightarrow> nat" where
  "worst_child id_of h i =
     (let n = length h; l = 2 * i + 1; r = 2 * i + 2;
          w1 = (if l < n \<and> worse id_of (h ! l) (h ! i) = Greater then l else i)
      in if r < n \<and> worse id_of (h ! r) (h ! w1) = Greater then r else w1)"

lemma worst_child_cases:
  "worst_child id_of h i = i \<or>
   (worst_child id_of h i < length h \<and>
    (worst_child id_of h i = 2 * i + 1 \<or> worst_child id_of h i = 2 * i + 2))"
  by (simp add: worst_child_def Let_def)

lemma length_swap [simp]: "length (swap xs i j) = length xs"
  by (simp add: swap_def)

function sift_down :: "id_fn \<Rightarrow> candidate list \<Rightarrow> nat \<Rightarrow> candidate list" where
  "sift_down id_of h i =
     (let w = worst_child id_of h i in if w = i then h else sift_down id_of (swap h i w) w)"
  by pat_completeness auto
termination
proof (relation "measure (\<lambda>(_, h, i). length h - i)")
  fix id_of h i w
  assume "w = worst_child id_of h i" "w \<noteq> i"
  then show "((id_of, swap h i w, w), (id_of, h, i)) \<in> measure (\<lambda>(_, h, i). length h - i)"
    using worst_child_cases [of id_of h i] by auto
qed simp

declare sift_up.simps [simp del] sift_down.simps [simp del]

definition offer :: "id_fn \<Rightarrow> candidate \<Rightarrow> topk \<Rightarrow> topk" where
  "offer id_of cand t =
     (if length (heap t) < cap t then
        let h = heap t @ [cand] in t\<lparr>heap := sift_up id_of h (length h - 1)\<rparr>
      else case heap t of
        [] \<Rightarrow> t
      | worst # _ \<Rightarrow>
          if worse id_of cand worst = Less
          then t\<lparr>heap := sift_down id_of ((heap t)[0 := cand]) 0\<rparr> else t)"

definition would_admit :: "topk \<Rightarrow> f32 \<Rightarrow> bool" where
  "would_admit t d =
     (if length (heap t) < cap t then True
      else case heap t of
        worst # _ \<Rightarrow> f32_total_cmp d (dist worst) \<noteq> Greater
      | [] \<Rightarrow> True)"

definition cand_key :: "id_fn \<Rightarrow> candidate \<Rightarrow> int \<times> string" where
  "cand_key id_of c = (f32_total_key (dist c), id_of (part c) (row c))"

text \<open>\<open>sort_by\<close> is stable; sorting by the comparator is sorting by the key it compares.\<close>

definition into_sorted :: "id_fn \<Rightarrow> topk \<Rightarrow> candidate list" where
  "into_sorted id_of t = sort_key (cand_key id_of) (heap t)"

lemma worse_key: "worse id_of a b = ord_cmp (cand_key id_of a) (cand_key id_of b)"
  by (simp add: worse_def cand_key_def f32_total_cmp_def then_with_cmp)

section \<open>The heap property\<close>

text \<open>\<open>heap_up k h i\<close> allows a violation between \<open>i\<close> and its parent, \<open>heap_down k h i\<close> between \<open>i\<close> and its
  children; in both the children of \<open>i\<close> are below the parent of \<open>i\<close>.\<close>

definition parent :: "nat \<Rightarrow> nat" where "parent j = (j - 1) div 2"

definition is_heap :: "('a \<Rightarrow> 'k::linorder) \<Rightarrow> 'a list \<Rightarrow> bool" where
  "is_heap k h \<longleftrightarrow> (\<forall>j. 0 < j \<and> j < length h \<longrightarrow> k (h ! j) \<le> k (h ! parent j))"

definition gap_ok :: "('a \<Rightarrow> 'k::linorder) \<Rightarrow> 'a list \<Rightarrow> nat \<Rightarrow> bool" where
  "gap_ok k h i \<longleftrightarrow>
     (\<forall>j. 0 < j \<and> j < length h \<and> parent j = i \<and> 0 < i \<longrightarrow> k (h ! j) \<le> k (h ! parent i))"

definition heap_up :: "('a \<Rightarrow> 'k::linorder) \<Rightarrow> 'a list \<Rightarrow> nat \<Rightarrow> bool" where
  "heap_up k h i \<longleftrightarrow>
     (\<forall>j. 0 < j \<and> j < length h \<and> j \<noteq> i \<longrightarrow> k (h ! j) \<le> k (h ! parent j)) \<and> gap_ok k h i"

definition heap_down :: "('a \<Rightarrow> 'k::linorder) \<Rightarrow> 'a list \<Rightarrow> nat \<Rightarrow> bool" where
  "heap_down k h i \<longleftrightarrow>
     (\<forall>j. 0 < j \<and> j < length h \<and> parent j \<noteq> i \<longrightarrow> k (h ! j) \<le> k (h ! parent j)) \<and> gap_ok k h i"

lemma parent_less: "0 < j \<Longrightarrow> parent j < j"
  by (simp add: parent_def)

lemma parent_child: "parent (2 * i + 1) = i" "parent (2 * i + 2) = i"
  by (simp_all add: parent_def)

lemma parent_eq: "0 < j \<Longrightarrow> parent j = i \<Longrightarrow> j = 2 * i + 1 \<or> j = 2 * i + 2"
  by (simp add: parent_def) presburger

lemma nth_swap:
  "i < length h \<Longrightarrow> j < length h \<Longrightarrow> n < length h \<Longrightarrow>
   swap h i j ! n = (if n = j then h ! i else if n = i then h ! j else h ! n)"
  by (simp add: swap_def nth_list_update)

lemma mset_swap': "i < length h \<Longrightarrow> j < length h \<Longrightarrow> mset (swap h i j) = mset h"
  unfolding swap_def by (rule mset_swap)

lemma heap_root_max: "is_heap k h \<Longrightarrow> j < length h \<Longrightarrow> k (h ! j) \<le> k (h ! 0)"
proof (induction j rule: less_induct)
  case (less j)
  show ?case
  proof (cases "j = 0")
    case False
    then have "k (h ! j) \<le> k (h ! parent j)" using less.prems by (simp add: is_heap_def)
    also have "\<dots> \<le> k (h ! 0)"
      using less.IH [of "parent j"] less.prems parent_less [of j] False by simp
    finally show ?thesis .
  qed simp
qed

lemma heap_up_swap:
  assumes "heap_up k h i" and "0 < i" and "i < length h" and "k (h ! parent i) < k (h ! i)"
  shows "heap_up k (swap h i (parent i)) (parent i)"
proof -
  let ?p = "parent i" and ?h = "swap h i (parent i)"
  have p: "?p < i" "?p < length h" using assms parent_less [of i] by auto
  have up: "\<And>j. 0 < j \<Longrightarrow> j < length h \<Longrightarrow> j \<noteq> i \<Longrightarrow> k (h ! j) \<le> k (h ! parent j)"
    using assms(1) by (simp add: heap_up_def)
  have gap: "\<And>j. 0 < j \<Longrightarrow> j < length h \<Longrightarrow> parent j = i \<Longrightarrow> k (h ! j) \<le> k (h ! ?p)"
    using assms(1,2) by (simp add: heap_up_def gap_ok_def)
  have nth: "\<And>n. n < length h \<Longrightarrow> ?h ! n = (if n = ?p then h ! i else if n = i then h ! ?p else h ! n)"
    using nth_swap [of i h ?p] assms(3) p by auto
  have a: "k (?h ! j) \<le> k (?h ! parent j)" if j: "0 < j" "j < length h" "j \<noteq> ?p" for j
  proof -
    have pj: "parent j < length h" using parent_less [OF j(1)] j(2) by simp
    consider "j = i" | "j \<noteq> i" "parent j = i" | "j \<noteq> i" "parent j = ?p"
      | "j \<noteq> i" "parent j \<noteq> i" "parent j \<noteq> ?p" by blast
    then show ?thesis
    proof cases
      case 3
      then have "k (h ! j) \<le> k (h ! ?p)" using up [of j] j by simp
      then show ?thesis using 3 assms(4) nth [OF j(2)] nth [OF pj] j by simp
    qed (use assms(4) up [of j] gap [of j] nth [OF j(2)] nth [OF pj] j p in auto)
  qed
  have b: "k (?h ! j) \<le> k (?h ! parent ?p)" if j: "0 < j" "j < length h" "parent j = ?p" "0 < ?p" for j
  proof -
    have pp: "parent ?p < ?p" "parent ?p < length h" using parent_less [OF j(4)] p by auto
    have "k (h ! ?p) \<le> k (h ! parent ?p)" using up [of ?p] j(4) p by simp
    moreover have "j \<noteq> i \<Longrightarrow> k (h ! j) \<le> k (h ! ?p)" using up [of j] j by simp
    moreover have "j \<noteq> ?p" using parent_less [OF j(1)] j(3) by simp
    ultimately show ?thesis using nth [OF j(2)] nth [OF pp(2)] pp p by auto
  qed
  show ?thesis using a b by (simp add: heap_up_def gap_ok_def)
qed

lemma heap_down_swap:
  assumes "heap_down k h i" and "w < length h" and "i < length h" and "parent w = i" and "0 < w"
    and "\<And>j. 0 < j \<Longrightarrow> j < length h \<Longrightarrow> parent j = i \<Longrightarrow> k (h ! j) \<le> k (h ! w)"
    and "k (h ! i) \<le> k (h ! w)"
  shows "heap_down k (swap h i w) w"
proof -
  let ?h = "swap h i w"
  have iw: "i < w" using assms(4,5) parent_less [of w] by simp
  have dn: "\<And>j. 0 < j \<Longrightarrow> j < length h \<Longrightarrow> parent j \<noteq> i \<Longrightarrow> k (h ! j) \<le> k (h ! parent j)"
    using assms(1) by (simp add: heap_down_def)
  have gap: "0 < i \<Longrightarrow> k (h ! w) \<le> k (h ! parent i)"
    using assms(1,2,4,5) by (simp add: heap_down_def gap_ok_def)
  have nth: "\<And>n. n < length h \<Longrightarrow> ?h ! n = (if n = w then h ! i else if n = i then h ! w else h ! n)"
    using nth_swap [of i h w] assms(2,3) by auto
  have a: "k (?h ! j) \<le> k (?h ! parent j)" if j: "0 < j" "j < length h" "parent j \<noteq> w" for j
  proof -
    have pj: "parent j < length h" "parent j < j" using parent_less [OF j(1)] j(2) by simp_all
    consider "parent j = i" | "j = i" | "j \<noteq> i" "parent j \<noteq> i" by blast
    then show ?thesis
    proof cases
      case 1
      then show ?thesis using assms(6) [OF j(1,2) 1] assms(7) nth [OF j(2)] nth [OF pj(1)] iw pj by auto
    next
      case 2
      then show ?thesis using gap nth [OF j(2)] nth [OF pj(1)] j iw pj by auto
    next
      case 3
      then have "j \<noteq> w" using assms(4) by auto
      then show ?thesis using 3 dn [OF j(1,2) 3(2)] nth [OF j(2)] nth [OF pj(1)] j by simp
    qed
  qed
  have b: "k (?h ! j) \<le> k (?h ! parent w)" if j: "0 < j" "j < length h" "parent j = w" for j
  proof -
    have "k (h ! j) \<le> k (h ! w)" using dn [OF j(1,2)] j(3) iw by simp
    moreover have "w < j" using parent_less [OF j(1)] j(3) by simp
    ultimately show ?thesis using nth [OF j(2)] nth [OF assms(3)] assms(4) iw by simp
  qed
  show ?thesis using a b by (simp add: heap_down_def gap_ok_def)
qed

lemma heap_up_done:
  "heap_up k h i \<Longrightarrow> (0 < i \<Longrightarrow> i < length h \<Longrightarrow> k (h ! i) \<le> k (h ! parent i)) \<Longrightarrow> is_heap k h"
  unfolding heap_up_def is_heap_def by metis

lemma sift_up_correct:
  assumes "heap_up (cand_key id_of) h i" and "i < length h"
  shows "is_heap (cand_key id_of) (sift_up id_of h i) \<and> mset (sift_up id_of h i) = mset h"
  using assms
proof (induction id_of h i rule: sift_up.induct)
  case (1 id_of h i)
  let ?p = "(i - 1) div 2"
  have par: "?p = parent i" by (simp add: parent_def)
  show ?case
  proof (cases "0 < i \<and> worse id_of (h ! i) (h ! ?p) = Greater")
    case True
    then have "?p < length h" using 1 parent_less [of i] par by simp
    moreover have "heap_up (cand_key id_of) (swap h i ?p) ?p"
      using heap_up_swap [of "cand_key id_of" h i] 1 True par by (simp add: worse_key)
    ultimately show ?thesis
      using 1 True by (subst (1 2) sift_up.simps) (simp add: mset_swap' Let_def)
  next
    case False
    then have "is_heap (cand_key id_of) h"
      using 1 par by (intro heap_up_done [of _ h i]) (auto simp: worse_key not_less)
    then show ?thesis using False by (subst (1 2) sift_up.simps) auto
  qed
qed

lemma worst_child_max:
  assumes "j < length h" and "0 < j" and "parent j = i"
  shows "cand_key id_of (h ! j) \<le> cand_key id_of (h ! worst_child id_of h i)"
  using assms parent_eq [OF assms(2,3)]
  by (auto simp: worst_child_def Let_def worse_key not_less intro: order_trans less_imp_le)

lemma worst_child_ge: "cand_key id_of (h ! i) \<le> cand_key id_of (h ! worst_child id_of h i)"
  by (auto simp: worst_child_def Let_def worse_key not_less intro: order_trans less_imp_le)

lemma sift_down_correct:
  assumes "heap_down (cand_key id_of) h i" and "i < length h"
  shows "is_heap (cand_key id_of) (sift_down id_of h i) \<and> mset (sift_down id_of h i) = mset h"
  using assms
proof (induction id_of h i rule: sift_down.induct)
  case (1 id_of h i)
  let ?w = "worst_child id_of h i"
  note mx = worst_child_max [of _ h i id_of]
  show ?case
  proof (cases "?w = i")
    case True
    have "is_heap (cand_key id_of) h"
      unfolding is_heap_def
    proof (intro allI impI)
      fix j assume j: "0 < j \<and> j < length h"
      show "cand_key id_of (h ! j) \<le> cand_key id_of (h ! parent j)"
        using j mx [of j] 1(2) True by (cases "parent j = i") (auto simp: heap_down_def)
    qed
    then show ?thesis using True by (subst (1 2) sift_down.simps) simp
  next
    case False
    then have w: "?w < length h" "0 < ?w" "parent ?w = i"
      using worst_child_cases [of id_of h i] parent_child by auto
    have "heap_down (cand_key id_of) (swap h i ?w) ?w"
      by (rule heap_down_swap) (use 1 w mx worst_child_ge [of id_of h i] in auto)
    then show ?thesis
      using 1 False w by (subst (1 2) sift_down.simps) (simp add: mset_swap' Let_def)
  qed
qed

section \<open>Refinement: the smallest keys\<close>

lemma sorted_mset_eq: "sorted xs \<Longrightarrow> sorted ys \<Longrightarrow> mset xs = mset ys \<Longrightarrow> xs = ys"
  by (metis properties_for_sort sorted_sort_id)

lemma map_sort_key: "map f (sort_key f xs) = sort (map f xs)"
  by (rule sorted_mset_eq) simp_all

lemma insort_top: "sorted xs \<Longrightarrow> \<forall>x \<in> set xs. x \<le> k \<Longrightarrow> insort k xs = xs @ [k]"
  by (rule sorted_mset_eq) (simp_all add: sorted_insort sorted_append)

lemma insort_below: "sorted (b @ [m]) \<Longrightarrow> k < m \<Longrightarrow> insort k (b @ [m]) = insort k b @ [m]"
  by (rule sorted_mset_eq) (auto simp: sorted_insort sorted_append set_insort_key)

lemma take_insort: "sorted xs \<Longrightarrow> take n (insort x (take n xs)) = take n (insort x xs)"
proof (induction xs arbitrary: n)
  case (Cons y ys)
  then show ?case by (cases n) (auto simp: take_Cons')
qed (cases n; simp)

lemma sort_snoc_max:
  assumes "h \<noteq> []" and "is_heap k h"
  shows "sort (map k h) = sort (map k (tl h)) @ [k (h ! 0)]"
proof (rule sorted_mset_eq)
  have "\<forall>x \<in> set h. k x \<le> k (h ! 0)"
    using heap_root_max [OF assms(2)] by (auto simp: in_set_conv_nth)
  moreover have "set (tl h) \<subseteq> set h" using assms(1) by (cases h) auto
  ultimately show "sorted (sort (map k (tl h)) @ [k (h ! 0)])"
    by (auto simp: sorted_append)
  show "mset (sort (map k h)) = mset (sort (map k (tl h)) @ [k (h ! 0)])"
    using assms(1) by (cases h) simp_all
qed simp

lemma heap_down_root: "is_heap k h \<Longrightarrow> heap_down k (h[0 := c]) 0"
  by (auto simp: is_heap_def heap_down_def gap_ok_def nth_list_update)

lemma heap_up_snoc: "is_heap k h \<Longrightarrow> heap_up k (h @ [c]) (length h)"
proof -
  assume h: "is_heap k h"
  have gap: "gap_ok k (h @ [c]) (length h)"
    unfolding gap_ok_def
  proof (intro allI impI)
    fix j
    assume j: "0 < j \<and> j < length (h @ [c]) \<and> parent j = length h \<and> 0 < length h"
    then have False using parent_less [of j] by simp
    then show "k ((h @ [c]) ! j) \<le> k ((h @ [c]) ! parent (length h))" ..
  qed
  have "parent j < length h" if "0 < j" "j < length h" for j
    using parent_less [of j] that by simp
  then show ?thesis using h gap
    by (auto simp: is_heap_def heap_up_def nth_append less_Suc_eq)
qed

lemma offer_cap [simp]: "cap (offer id_of c t) = cap t"
  by (simp add: offer_def Let_def split: list.split)

definition topk_inv :: "id_fn \<Rightarrow> topk \<Rightarrow> bool" where
  "topk_inv id_of t \<longleftrightarrow> is_heap (cand_key id_of) (heap t) \<and> length (heap t) \<le> cap t"

lemma topk_inv_new [simp]: "topk_inv id_of (topk_new n)"
  by (simp add: topk_inv_def topk_new_def is_heap_def)

text \<open>One offer: the invariant is kept, the keys are the \<open>cap\<close> smallest of the old keys and the new
  one, and nothing is invented.\<close>

lemma offer_correct:
  assumes "topk_inv id_of t"
  defines "k \<equiv> cand_key id_of"
  shows "topk_inv id_of (offer id_of c t) \<and>
    sort (map k (heap (offer id_of c t))) = take (cap t) (insort (k c) (sort (map k (heap t)))) \<and>
    mset (heap (offer id_of c t)) \<subseteq># add_mset c (mset (heap t))"
proof -
  have inv: "is_heap k (heap t)" "length (heap t) \<le> cap t"
    using assms by (simp_all add: topk_inv_def k_def)
  consider (room) "length (heap t) < cap t" | (zero) "cap t = 0" "heap t = []"
    | (full) w r where "length (heap t) = cap t" "heap t = w # r"
    using inv(2) by (cases "heap t") (auto simp: le_less)
  then show ?thesis
  proof cases
    case room
    let ?h = "sift_up id_of (heap t @ [c]) (length (heap t))"
    have ok: "is_heap k ?h" "mset ?h = add_mset c (mset (heap t))"
      using sift_up_correct [of id_of "heap t @ [c]" "length (heap t)"] heap_up_snoc [OF inv(1)]
      by (simp_all add: k_def)
    have "mset (map k ?h) = mset (k c # map k (heap t))" using ok(2) by simp
    then have keys: "sort (map k ?h) = insort (k c) (sort (map k (heap t)))"
      by (intro sorted_mset_eq) (simp_all add: sorted_insort)
    have "length ?h = Suc (length (heap t))" using arg_cong [OF ok(2), of size] by simp
    then show ?thesis using room ok keys by (simp add: offer_def topk_inv_def k_def Let_def)
  next
    case zero
    then show ?thesis by (simp add: offer_def topk_inv_def k_def is_heap_def)
  next
    case full
    have srt: "sort (map k (heap t)) = sort (map k r) @ [k w]"
      using sort_snoc_max [OF _ inv(1)] full by simp
    show ?thesis
    proof (cases "k c < k w")
      case True
      let ?h = "sift_down id_of (c # r) 0"
      have ok: "is_heap k ?h" "mset ?h = add_mset c (mset r)"
        using sift_down_correct [of id_of "c # r" 0] heap_down_root [OF inv(1), of c] full
        by (simp_all add: k_def)
      have "mset (map k ?h) = mset (k c # map k r)" using ok(2) by simp
      then have keys: "sort (map k ?h) = insort (k c) (sort (map k r))"
        by (intro sorted_mset_eq) (simp_all add: sorted_insort)
      have "sorted (sort (map k r) @ [k w])" using srt by (metis sorted_sort)
      then have "take (cap t) (insort (k c) (sort (map k (heap t)))) = insort (k c) (sort (map k r))"
        using insort_below [of "sort (map k r)" "k w" "k c"] True srt full by simp
      moreover have "length ?h = Suc (length r)" using arg_cong [OF ok(2), of size] by simp
      ultimately show ?thesis
        using full True ok keys by (simp add: offer_def topk_inv_def worse_key k_def)
    next
      case False
      have "\<forall>x \<in> set (heap t). k x \<le> k w"
        using heap_root_max [OF inv(1)] full by (metis in_set_conv_nth nth_Cons_0)
      then have "\<forall>x \<in> set (heap t). k x \<le> k c"
        using False by (meson not_less order_trans)
      then have "\<forall>x \<in> set (sort (map k (heap t))). x \<le> k c" by simp
      then have "insort (k c) (sort (map k (heap t))) = sort (map k (heap t)) @ [k c]"
        by (intro insort_top) simp_all
      then show ?thesis
        using full False assms(1) by (simp add: offer_def worse_key k_def)
    qed
  qed
qed

lemma offers_correct:
  assumes "topk_inv id_of t"
    and "sort (map (cand_key id_of) (heap t)) = take (cap t) (sort (map (cand_key id_of) seen))"
    and "mset (heap t) \<subseteq># mset seen"
  shows "let t' = fold (offer id_of) cs t in topk_inv id_of t' \<and>
    sort (map (cand_key id_of) (heap t')) = take (cap t) (sort (map (cand_key id_of) (seen @ cs))) \<and>
    mset (heap t') \<subseteq># mset (seen @ cs)"
  using assms
proof (induction cs arbitrary: t seen)
  case (Cons c cs)
  let ?k = "cand_key id_of"
  note oc = offer_correct [OF Cons.prems(1), of c]
  have "sort (map ?k (seen @ [c])) = insort (?k c) (sort (map ?k seen))"
    by (rule sorted_mset_eq) (simp_all add: sorted_insort)
  then have keys: "sort (map ?k (heap (offer id_of c t))) = take (cap t) (sort (map ?k (seen @ [c])))"
    using oc Cons.prems(2) take_insort [of "sort (map ?k seen)" "cap t" "?k c"] by simp
  have sub: "mset (heap (offer id_of c t)) \<subseteq># mset (seen @ [c])"
    using oc Cons.prems(3) by (auto intro: subset_mset.order_trans)
  show ?case
    using Cons.IH [of "offer id_of c t" "seen @ [c]"] oc keys sub by simp
qed (simp add: Let_def)

section \<open>Collectors\<close>

record threshold_collector =
  exact_bound :: f32
  relaxed_bound :: f32
  budget :: nat
  kept :: "candidate list"
  overfetch_count :: nat
  overflow_flag :: bool

datatype collector_state = Bounded topk | Threshold threshold_collector

definition f32_gt :: "f32 \<Rightarrow> f32 \<Rightarrow> bool" where
  "f32_gt x y \<longleftrightarrow> f32_partial_cmp x y = Some Greater"

definition f32_le :: "f32 \<Rightarrow> f32 \<Rightarrow> bool" where
  "f32_le x y \<longleftrightarrow> f32_partial_cmp x y = Some Less \<or> f32_partial_cmp x y = Some Equal"

definition threshold_offer :: "candidate \<Rightarrow> threshold_collector \<Rightarrow> threshold_collector" where
  "threshold_offer c th =
     (if f32_gt (dist c) (relaxed_bound th) then th
      else if budget th \<le> length (kept th) then th\<lparr>overflow_flag := True\<rparr>
      else let th' = (if f32_gt (dist c) (exact_bound th)
                      then th\<lparr>overfetch_count := overfetch_count th + 1\<rparr> else th)
           in th'\<lparr>kept := kept th @ [c]\<rparr>)"

fun collector_offer :: "id_fn \<Rightarrow> candidate \<Rightarrow> collector_state \<Rightarrow> collector_state" where
  "collector_offer id_of c (Bounded t) = Bounded (offer id_of c t)"
| "collector_offer id_of c (Threshold th) = Threshold (threshold_offer c th)"

fun collector_would_admit :: "collector_state \<Rightarrow> f32 \<Rightarrow> bool" where
  "collector_would_admit (Bounded t) d = would_admit t d"
| "collector_would_admit (Threshold th) d = f32_le d (relaxed_bound th)"

fun collector_overflowed :: "collector_state \<Rightarrow> bool" where
  "collector_overflowed (Threshold th) = overflow_flag th"
| "collector_overflowed (Bounded _) = False"

fun collector_overfetch :: "collector_state \<Rightarrow> nat" where
  "collector_overfetch (Threshold th) = overfetch_count th"
| "collector_overfetch (Bounded _) = 0"

fun collector_into_sorted :: "id_fn \<Rightarrow> collector_state \<Rightarrow> candidate list" where
  "collector_into_sorted id_of (Bounded t) = into_sorted id_of t"
| "collector_into_sorted id_of (Threshold th) = sort_key (cand_key id_of) (kept th)"

text \<open>The contract both collectors satisfy; \<open>good\<close> bounds the candidates it is promised for. A loop
  which asks \<open>admit\<close> before it runs a fallible mask reaches the collector of the loop which
  runs the mask on every row, whatever the two count on the way.\<close>

locale collector =
  fixes offer_c :: "candidate \<Rightarrow> 's \<Rightarrow> 's"
    and admit :: "'s \<Rightarrow> f32 \<Rightarrow> bool"
    and good :: "'s \<Rightarrow> candidate \<Rightarrow> bool"
  assumes refused_is_ignored: "good s c \<Longrightarrow> \<not> admit s (dist c) \<Longrightarrow> offer_c c s = s"
    and good_step: "good s c \<Longrightarrow> good s d \<Longrightarrow> good (offer_c d s) c"
begin

lemma lazy_mask_agrees:
  assumes "rfold (\<lambda>c (s, n). rbind (m c) (\<lambda>b. Inr (if b then offer_c c s else s, f c b n))) cs (s, n) = Inr (s', n')"
    and "\<And>c. c \<in> set cs \<Longrightarrow> good s c"
  shows "\<exists>k'. rfold (\<lambda>c (s, n). if admit s (dist c)
      then rbind (m c) (\<lambda>b. Inr (if b then offer_c c s else s, g c b n)) else Inr (s, n)) cs (s, k) = Inr (s', k')"
  using assms
proof (induction cs arbitrary: s n k)
  case (Cons c cs)
  then obtain b where b: "m c = Inr b" by (auto simp: res_simps)
  let ?s = "if b then offer_c c s else s"
  have rest: "rfold (\<lambda>c (s, n). rbind (m c) (\<lambda>b. Inr (if b then offer_c c s else s, f c b n))) cs (?s, f c b n) = Inr (s', n')"
    using Cons.prems(1) b by simp
  have gd: "\<And>d. d \<in> set cs \<Longrightarrow> good ?s d" using good_step Cons.prems(2) by auto
  have "\<not> admit s (dist c) \<Longrightarrow> ?s = s" using refused_is_ignored [of s c] Cons.prems(2) by auto
  then show ?case using Cons.IH [OF rest gd] b by (cases "admit s (dist c)") auto
qed simp

end

lemma offer_refused: "\<not> would_admit t (dist c) \<Longrightarrow> offer id_of c t = t"
  by (auto simp: would_admit_def offer_def worse_def f32_total_cmp_def ord_cmp_def split: list.splits if_splits)

lemma threshold_refused:
  "\<not> f32_is_nan (dist c) \<Longrightarrow> \<not> f32_is_nan (relaxed_bound th) \<Longrightarrow> \<not> f32_le (dist c) (relaxed_bound th) \<Longrightarrow>
   threshold_offer c th = th"
  by (auto simp: threshold_offer_def f32_le_def f32_gt_def f32_partial_cmp_def)

text \<open>The promise of the threshold collector needs distances and a bound which are numbers.\<close>

fun comparable :: "collector_state \<Rightarrow> candidate \<Rightarrow> bool" where
  "comparable (Bounded t) c = True"
| "comparable (Threshold th) c = (\<not> f32_is_nan (dist c) \<and> \<not> f32_is_nan (relaxed_bound th))"

lemma collector_refused:
  "comparable s c \<Longrightarrow> \<not> collector_would_admit s (dist c) \<Longrightarrow> collector_offer id_of c s = s"
  by (cases s) (simp_all add: offer_refused threshold_refused)

lemma comparable_step:
  "comparable s c \<Longrightarrow> comparable s d \<Longrightarrow> comparable (collector_offer id_of d s) c"
  by (cases s) (simp_all add: threshold_offer_def Let_def)

interpretation coll: collector "collector_offer id_of" collector_would_admit comparable for id_of
  by unfold_locales (simp_all add: collector_refused comparable_step)

section \<open>Properties\<close>

text \<open>
  C11. However the candidates arrive, the selection returns the keys (distance, then event id) of the
  \<open>cap\<close> nearest candidates offered, in ascending order, and every candidate returned was offered.
\<close>

theorem topk_keeps_nearest:
  "let answer = into_sorted id_of (fold (offer id_of) cs (topk_new n)) in
   map (cand_key id_of) answer = take n (sort (map (cand_key id_of) cs)) \<and> mset answer \<subseteq># mset cs"
  using offers_correct [of id_of "topk_new n" "[]" cs]
  by (simp add: Let_def into_sorted_def map_sort_key) (simp add: topk_new_def)

text \<open>
  A candidate which \<open>would_admit\<close> refuses is ignored by \<open>offer\<close>: the bounded selection is left
  exactly as it was, and so is the threshold collector when the distance and bound are numbers.
\<close>

lemma would_admit_conservative:
  assumes "comparable s c" and "\<not> collector_would_admit s (dist c)"
  shows "collector_offer id_of c s = s"
  using assms by (rule collector_refused)

definition full_topk :: topk where
  "full_topk = offer (\<lambda>p r. ''a'') \<lparr>dist = 1, part = 0, row = 0\<rparr> (topk_new 1)"

end
