(* ===== verification/Text.thy ===== *)
theory Text
  imports Floats
begin

text \<open>
  The parts of Rust's string library that the code uses: decoding UTF-8 into code points,
  the Unicode \<open>White_Space\<close> set behind \<open>trim\<close>, character boundaries (slicing a \<open>str\<close> between
  boundaries panics), decimal printing of integers, and the shortest round-tripping decimal
  of a double that \<open>to_string\<close> prints.
\<close>

section \<open>UTF-8\<close>

fun utf8_chars :: "string \<Rightarrow> nat list" where
  "utf8_chars [] = []"
| "utf8_chars (c # cs) =
     (let x = of_char c in
      if x < (0x80 :: nat) then x # utf8_chars cs
      else if x < 0xE0 then
        (case cs of y # r \<Rightarrow> ((x mod 32) * 64 + of_char y mod 64) # utf8_chars r | [] \<Rightarrow> [x])
      else if x < 0xF0 then
        (case cs of y # z # r \<Rightarrow>
            (((x mod 16) * 64 + of_char y mod 64) * 64 + of_char z mod 64) # utf8_chars r
          | _ \<Rightarrow> [x])
      else
        (case cs of y # z # w # r \<Rightarrow>
            ((((x mod 8) * 64 + of_char y mod 64) * 64 + of_char z mod 64) * 64 + of_char w mod 64)
              # utf8_chars r
          | _ \<Rightarrow> [x]))"

definition is_whitespace :: "nat \<Rightarrow> bool" where
  "is_whitespace c \<longleftrightarrow> (9 \<le> c \<and> c \<le> 13) \<or> c = 32 \<or> c = 0x85 \<or> c = 0xA0 \<or> c = 0x1680 \<or>
     (0x2000 \<le> c \<and> c \<le> 0x200A) \<or> c = 0x2028 \<or> c = 0x2029 \<or> c = 0x202F \<or> c = 0x205F \<or> c = 0x3000"

definition trim_chars :: "nat list \<Rightarrow> nat list" where
  "trim_chars cs = rev (dropWhile is_whitespace (rev (dropWhile is_whitespace cs)))"

definition is_char_boundary :: "string \<Rightarrow> nat \<Rightarrow> bool" where
  "is_char_boundary s i \<longleftrightarrow> i = 0 \<or> i = length s \<or>
     (i < length s \<and> (let b = of_char (s ! i) :: nat in b < 0x80 \<or> 0xC0 \<le> b))"

lemma trim_chars_empty_iff: "trim_chars cs = [] \<longleftrightarrow> (\<forall>c \<in> set cs. is_whitespace c)"
proof
  assume "trim_chars cs = []"
  then have "\<forall>c \<in> set (dropWhile is_whitespace cs). is_whitespace c"
    by (simp add: trim_chars_def dropWhile_eq_Nil_conv)
  then have "dropWhile is_whitespace cs = []"
    by (metis hd_dropWhile hd_in_set)
  then show "\<forall>c \<in> set cs. is_whitespace c" by (simp add: dropWhile_eq_Nil_conv)
next
  assume "\<forall>c \<in> set cs. is_whitespace c"
  then have "dropWhile is_whitespace cs = []" by (simp add: dropWhile_eq_Nil_conv)
  then show "trim_chars cs = []" unfolding trim_chars_def by (simp only: dropWhile.simps rev.simps)
qed

section \<open>Decimal integers\<close>

definition digit_char :: "nat \<Rightarrow> char" where
  "digit_char d = char_of (48 + d)"

fun nat_str :: "nat \<Rightarrow> string" where
  "nat_str n = (if n < 10 then [digit_char n] else nat_str (n div 10) @ [digit_char (n mod 10)])"

declare nat_str.simps [simp del]

definition i64_str :: "i64 \<Rightarrow> string" where
  "i64_str i = (if i < 0 then ''-'' @ nat_str (nat (- i)) else nat_str (nat i))"

definition digit_val :: "char \<Rightarrow> nat" where
  "digit_val c = of_char c - 48"

definition nat_of_digits :: "string \<Rightarrow> nat" where
  "nat_of_digits s = foldl (\<lambda>a c. 10 * a + digit_val c) 0 s"

definition is_digit :: "char \<Rightarrow> bool" where
  "is_digit c \<longleftrightarrow> (48 :: nat) \<le> of_char c \<and> of_char c \<le> (57 :: nat)"

lemma of_digit_char: "d < 10 \<Longrightarrow> of_char (digit_char d) = (48 + d :: nat)"
  by (simp add: digit_char_def)

lemma digit_val_char [simp]: "d < 10 \<Longrightarrow> digit_val (digit_char d) = d"
  by (simp add: digit_val_def of_digit_char)

lemma is_digit_char [simp]: "d < 10 \<Longrightarrow> is_digit (digit_char d)"
  by (simp add: is_digit_def of_digit_char)

lemma nat_of_digits_snoc: "nat_of_digits (s @ [c]) = 10 * nat_of_digits s + digit_val c"
  by (simp add: nat_of_digits_def)

lemma nat_of_digits_str [simp]: "nat_of_digits (nat_str n) = n"
proof (induction n rule: nat_str.induct)
  case (1 n)
  show ?case
  proof (cases "n < 10")
    case True
    then show ?thesis by (subst nat_str.simps) (simp add: nat_of_digits_def)
  next
    case False
    then show ?thesis
      using 1 by (subst nat_str.simps) (simp add: nat_of_digits_snoc)
  qed
qed

lemma nat_str_digits: "\<forall>c \<in> set (nat_str n). is_digit c"
proof (induction n rule: nat_str.induct)
  case (1 n)
  then show ?case by (subst nat_str.simps) simp
qed

lemma nat_str_nonempty [simp]: "nat_str n \<noteq> []"
  by (subst nat_str.simps) simp

lemma nat_str_inj: "nat_str m = nat_str n \<Longrightarrow> m = n"
  by (metis nat_of_digits_str)

lemma nat_str_no_minus: "nat_str n \<noteq> CHR ''-'' # s" "CHR ''-'' # s \<noteq> nat_str n"
proof -
  show *: "nat_str n \<noteq> CHR ''-'' # s" using nat_str_digits [of n] by (auto simp: is_digit_def)
  then show "CHR ''-'' # s \<noteq> nat_str n" by metis
qed

lemma i64_str_inj: "i64_str i = i64_str j \<Longrightarrow> i = j"
  unfolding i64_str_def
  by (auto split: if_splits dest: nat_str_inj nat_str_inj [THEN arg_cong [where f = int]]
      simp: nat_str_no_minus)

section \<open>Printing a double\<close>

text \<open>
  \<open>f64_ratio\<close> is the exact value of a finite magnitude. The printer looks for the smallest number
  of digits for which one of the two neighbouring decimals reads back as the same double, takes
  the nearer of the two, and prints it positionally, without an exponent, as \<open>Display\<close> does.
\<close>

definition f64_ratio :: "nat \<Rightarrow> nat \<times> nat" where
  "f64_ratio mag =
     (let e = mag div 2 ^ 52; f = mag mod 2 ^ 52 in
      if e = 0 then (f, 2 ^ 1074)
      else if e < 1075 then (2 ^ 52 + f, 2 ^ (1075 - e))
      else ((2 ^ 52 + f) * 2 ^ (e - 1075), 1))"

definition pow10_ge :: "nat \<Rightarrow> nat \<Rightarrow> int \<Rightarrow> bool" where
  "pow10_ge n d k = (if k \<ge> 0 then d * 10 ^ nat k \<le> n else d \<le> n * 10 ^ nat (- k))"

definition log10_floor :: "nat \<Rightarrow> nat \<Rightarrow> int" where
  "log10_floor n d = (case find (pow10_ge n d) (rev [-324..309]) of Some k \<Rightarrow> k | None \<Rightarrow> -324)"

definition scaled :: "nat \<Rightarrow> nat \<Rightarrow> int \<Rightarrow> nat \<times> nat" where
  "scaled n d p = (if p \<ge> 0 then (n, d * 10 ^ nat p) else (n * 10 ^ nat (- p), d))"

definition unscaled_mag :: "nat \<Rightarrow> int \<Rightarrow> nat" where
  "unscaled_mag c p =
     (if p \<ge> 0 then f64_mag_of_ratio (c * 10 ^ nat p) 1 else f64_mag_of_ratio c (10 ^ nat (- p)))"

definition shortest_at :: "nat \<Rightarrow> nat \<Rightarrow> (nat \<times> int) option" where
  "shortest_at mag k =
     (let (n, d) = f64_ratio mag;
          p = log10_floor n d - int k + 1;
          (a, b) = scaled n d p;
          lo = a div b;
          up = 2 * (a mod b) \<ge> b;
          okl = unscaled_mag lo p = mag;
          okh = unscaled_mag (Suc lo) p = mag
      in if okl \<and> okh then Some (if up then Suc lo else lo, p)
         else if okl then Some (lo, p) else if okh then Some (Suc lo, p) else None)"

fun first_some :: "('a \<Rightarrow> 'b option) \<Rightarrow> 'a list \<Rightarrow> 'b option" where
  "first_some f [] = None"
| "first_some f (x # xs) = (case f x of Some y \<Rightarrow> Some y | None \<Rightarrow> first_some f xs)"

definition print_positional :: "string \<Rightarrow> int \<Rightarrow> string" where
  "print_positional ds p =
     (if p \<ge> 0 then ds @ replicate (nat p) (CHR ''0'')
      else let q = nat (- p) in
        if q < length ds then take (length ds - q) ds @ ''.'' @ drop (length ds - q) ds
        else ''0.'' @ replicate (q - length ds) (CHR ''0'') @ ds)"

definition f64_str :: "f64 \<Rightarrow> string" where
  "f64_str x =
     (if f64_is_nan x then ''NaN''
      else (if f64_neg x then ''-'' else '''') @
        (if f64_mag x = f64_inf_mag then ''inf''
         else if f64_mag x = 0 then ''0''
         else case first_some (shortest_at (f64_mag x)) [1..<18] of
                Some (c, p) \<Rightarrow> print_positional (nat_str c) p
              | None \<Rightarrow> ''''))"

definition bool_str :: "bool \<Rightarrow> string" where
  "bool_str b = (if b then ''true'' else ''false'')"

end
