(* ===== verification/SqlLexer.thy ===== *)
theory SqlLexer
  imports Text
begin

text \<open>
  The lexer of \<open>prism-sql/src/lexer.rs\<close>. It works on the code points of the statement; the index \<open>i\<close>
  of the code is the suffix still to be read. The Unicode tables behind \<open>char::is_alphabetic\<close> and
  \<open>char::is_alphanumeric\<close> are an argument for the code points above ASCII and written out below it.
\<close>

section \<open>Limits\<close>

definition MAX_STATEMENT_BYTES :: nat where "MAX_STATEMENT_BYTES = 64 * 1024"
definition MAX_TOKENS :: nat where "MAX_TOKENS = 4096"
definition MAX_EXPR_DEPTH :: nat where "MAX_EXPR_DEPTH = 32"
definition MAX_IN_LIST :: nat where "MAX_IN_LIST = 1024"
definition MAX_PROJECTIONS :: nat where "MAX_PROJECTIONS = 64"
definition MAX_GROUP_KEYS :: nat where "MAX_GROUP_KEYS = 16"

lemmas sql_limit_defs = MAX_STATEMENT_BYTES_def MAX_TOKENS_def MAX_EXPR_DEPTH_def MAX_IN_LIST_def
  MAX_PROJECTIONS_def MAX_GROUP_KEYS_def

section \<open>Tokens\<close>

datatype tok =
    TIdent string
  | TStr string
  | TInt i64
  | TFloat f64
  | LParen | RParen | LBracket | RBracket | Comma | Star | Dot
  | TEq | TNotEq | TLt | TLtEq | TGt | TGtEq | Approx

section \<open>Characters\<close>

record unicode =
  uni_alpha :: "nat \<Rightarrow> bool"
  uni_numeric :: "nat \<Rightarrow> bool"

definition is_ascii_digit :: "nat \<Rightarrow> bool" where
  "is_ascii_digit c \<longleftrightarrow> 48 \<le> c \<and> c \<le> 57"

definition is_alphabetic :: "unicode \<Rightarrow> nat \<Rightarrow> bool" where
  "is_alphabetic u c =
     (if c < 128 then (65 \<le> c \<and> c \<le> 90) \<or> (97 \<le> c \<and> c \<le> 122) else uni_alpha u c)"

definition is_alphanumeric :: "unicode \<Rightarrow> nat \<Rightarrow> bool" where
  "is_alphanumeric u c \<longleftrightarrow>
     is_alphabetic u c \<or> (if c < 128 then is_ascii_digit c else uni_numeric u c)"

text \<open>\<open>String::push(char)\<close>: the UTF-8 bytes of a code point.\<close>

definition utf8_char :: "nat \<Rightarrow> string" where
  "utf8_char c = map char_of
     (if c < 0x80 then [c]
      else if c < 0x800 then [0xC0 + c div 64, 0x80 + c mod 64]
      else if c < 0x10000 then [0xE0 + c div 4096, 0x80 + c div 64 mod 64, 0x80 + c mod 64]
      else [0xF0 + c div 262144, 0x80 + c div 4096 mod 64, 0x80 + c div 64 mod 64, 0x80 + c mod 64])"

definition utf8_encode :: "nat list \<Rightarrow> string" where
  "utf8_encode cs = concat (map utf8_char cs)"

section \<open>Scanners\<close>

text \<open>After \<open>/*\<close>: the suffix behind the first \<open>*/\<close>.\<close>

fun skip_block :: "nat list \<Rightarrow> nat list option" where
  "skip_block (a # b # r) = (if a = 42 \<and> b = 47 then Some r else skip_block (b # r))"
| "skip_block _ = None"

text \<open>After the opening quote: the characters of the literal and the suffix behind it.\<close>

fun scan_string :: "nat list \<Rightarrow> nat list \<Rightarrow> (nat list \<times> nat list) option" where
  "scan_string [] s = None"
| "scan_string (c # r) s =
     (if c = 39 then
        (case r of d # r' \<Rightarrow> if d = 39 then scan_string r' (s @ [39]) else Some (s, r)
         | [] \<Rightarrow> Some (s, r))
      else scan_string r (s @ [c]))"

text \<open>Digits and at most one dot: the text, whether it has a dot, the suffix.\<close>

fun scan_number :: "nat list \<Rightarrow> bool \<Rightarrow> nat list \<times> bool \<times> nat list" where
  "scan_number [] fl = ([], fl, [])"
| "scan_number (c # r) fl =
     (if is_ascii_digit c then (let (t, f, r') = scan_number r fl in (c # t, f, r'))
      else if c = 46 \<and> \<not> fl then (let (t, f, r') = scan_number r True in (c # t, f, r'))
      else ([], fl, c # r))"

definition is_ident_char :: "unicode \<Rightarrow> nat \<Rightarrow> bool" where
  "is_ident_char u c \<longleftrightarrow> is_alphanumeric u c \<or> c = 95 \<or> c = 46"

definition digits_val :: "nat list \<Rightarrow> nat" where
  "digits_val ds = foldl (\<lambda>a d. 10 * a + (d - 48)) 0 ds"

text \<open>\<open>str::parse::<i64>\<close> on an optional sign and digits.\<close>

definition parse_i64 :: "bool \<Rightarrow> nat list \<Rightarrow> i64 option" where
  "parse_i64 neg ds =
     (let v = (if neg then - int (digits_val ds) else int (digits_val ds))
      in if i64_range v then Some v else None)"

text \<open>\<open>str::parse::<f64>\<close> on an optional sign, digits, a dot and further digits.\<close>

definition parse_f64 :: "bool \<Rightarrow> nat list \<Rightarrow> f64" where
  "parse_f64 neg t =
     (let ip = takeWhile is_ascii_digit t; fp = drop (Suc (length ip)) t
      in f64_of_ratio neg (digits_val (ip @ fp)) (10 ^ length fp))"

definition number_tok :: "bool \<Rightarrow> nat list \<Rightarrow> bool \<Rightarrow> tok res" where
  "number_tok neg t fl =
     (if fl then
        (let f = parse_f64 neg t in
         if f64_is_finite f then Inr (TFloat f) else Inl (Invalid ''not finite''))
      else (case parse_i64 neg t of
          Some n \<Rightarrow> Inr (TInt n)
        | None \<Rightarrow> Inl (Invalid ''does not fit in a 64-bit integer'')))"

definition push_tok :: "tok list \<Rightarrow> tok \<Rightarrow> tok list res" where
  "push_tok out t =
     (if MAX_TOKENS \<le> length out then Inl (Invalid ''too many tokens'') else Inr (out @ [t]))"

definition punct :: "nat \<Rightarrow> tok option" where
  "punct c =
     (if c = 40 then Some LParen else if c = 41 then Some RParen
      else if c = 91 then Some LBracket else if c = 93 then Some RBracket
      else if c = 44 then Some Comma else if c = 42 then Some Star
      else if c = 61 then Some TEq else if c = 60 then Some TLt else if c = 62 then Some TGt
      else None)"

definition two_char :: "nat \<Rightarrow> nat list \<Rightarrow> tok option" where
  "two_char c r =
     (case r of [] \<Rightarrow> None | d # _ \<Rightarrow>
        if c = 126 \<and> d = 126 then Some Approx
        else if c = 60 \<and> d = 61 then Some TLtEq
        else if c = 60 \<and> d = 62 then Some TNotEq
        else if c = 33 \<and> d = 61 then Some TNotEq
        else if c = 62 \<and> d = 61 then Some TGtEq
        else None)"

lemma skip_block_shorter: "skip_block cs = Some r \<Longrightarrow> length r < length cs"
  by (induction cs rule: skip_block.induct) (auto split: if_splits)

lemma scan_string_shorter: "scan_string cs s = Some (t, r) \<Longrightarrow> length r < length cs"
  by (induction cs s rule: scan_string.induct) (auto split: if_splits list.splits)

lemma scan_number_shorter: "scan_number cs fl = (t, f, r) \<Longrightarrow> length r \<le> length cs"
  by (induction cs fl arbitrary: t f r rule: scan_number.induct)
    (auto split: if_splits prod.splits simp: le_SucI)

section \<open>The loop\<close>

text \<open>One iteration of the \<open>while\<close> loop at the character \<open>c\<close> with suffix \<open>r\<close>: go on behind the
  suffix consumed, push a token and go on, or leave the loop.\<close>

datatype lex_action = Skip "nat list" | Emit tok "nat list" | Stop

definition lex_number :: "nat \<Rightarrow> nat list \<Rightarrow> lex_action res" where
  "lex_number c r =
     (case scan_number (if c = 45 then r else c # r) False of
        (t, fl, r') \<Rightarrow> rbind (number_tok (c = 45) t fl) (\<lambda>k. Inr (Emit k r')))"

definition lex_operator :: "nat \<Rightarrow> nat list \<Rightarrow> lex_action res" where
  "lex_operator c r =
     (case two_char c r of
        Some t \<Rightarrow> Inr (Emit t (tl r))
      | None \<Rightarrow>
          if c = 59 then
            (if dropWhile is_whitespace r = [] then Inr Stop
             else Inl (Invalid ''more than one statement''))
          else (case punct c of
              None \<Rightarrow> Inl (Invalid ''unexpected character'')
            | Some t \<Rightarrow> Inr (Emit t r)))"

definition lex_step :: "unicode \<Rightarrow> nat \<Rightarrow> nat list \<Rightarrow> lex_action res" where
  "lex_step u c r =
     (if is_whitespace c then Inr (Skip r)
      else if c = 45 \<and> r \<noteq> [] \<and> hd r = 45 then Inr (Skip (dropWhile (\<lambda>d. d \<noteq> 10) r))
      else if c = 47 \<and> r \<noteq> [] \<and> hd r = 42 then
        (case skip_block (tl r) of
           None \<Rightarrow> Inl (Invalid ''unterminated block comment'')
         | Some r' \<Rightarrow> Inr (Skip r'))
      else if c = 39 then
        (case scan_string r [] of
           None \<Rightarrow> Inl (Invalid ''unterminated string literal'')
         | Some (s, r') \<Rightarrow> Inr (Emit (TStr (utf8_encode s)) r'))
      else if is_ascii_digit c \<or> (c = 45 \<and> r \<noteq> [] \<and> is_ascii_digit (hd r)) then lex_number c r
      else if is_alphabetic u c \<or> c = 95 then
        Inr (Emit (TIdent (utf8_encode (c # takeWhile (is_ident_char u) r)))
          (dropWhile (is_ident_char u) r))
      else if c = 0x2248 then
        (if r \<noteq> [] \<and> hd r = 0x2248 then Inr (Emit Approx (tl r))
         else Inl (Invalid ''not an operator''))
      else lex_operator c r)"

lemma scan_number_step:
  assumes "is_ascii_digit c \<or> c = 45" and "scan_number (if c = 45 then r else c # r) False = (t, f, r')"
  shows "length r' \<le> length r"
proof (cases "c = 45")
  case True
  then show ?thesis using assms(2) scan_number_shorter [of r False t f r'] by simp
next
  case False
  then show ?thesis
    using assms scan_number_shorter [of r False] by (auto split: prod.splits)
qed

fun action_rest :: "lex_action \<Rightarrow> nat list" where
  "action_rest (Skip r) = r"
| "action_rest (Emit t r) = r"
| "action_rest Stop = []"

lemma lex_number_shorter:
  assumes "is_ascii_digit c \<or> c = 45" and "lex_number c r = Inr a"
  shows "length (action_rest a) \<le> length r"
proof -
  obtain t fl r' where sc: "scan_number (if c = 45 then r else c # r) False = (t, fl, r')"
    by (cases "scan_number (if c = 45 then r else c # r) False" rule: prod_cases3)
  show ?thesis
    using assms(2) scan_number_step [OF assms(1) sc] unfolding lex_number_def sc prod.case
    by (auto simp: res_simps)
qed

lemma lex_operator_shorter: "lex_operator c r = Inr a \<Longrightarrow> length (action_rest a) \<le> length r"
  by (auto simp: lex_operator_def split: option.splits if_splits)

lemma lex_step_shorter:
  assumes "lex_step u c r = Inr a"
  shows "length (action_rest a) \<le> length r"
proof -
  let ?line = "c = 45 \<and> r \<noteq> [] \<and> hd r = 45" and ?block = "c = 47 \<and> r \<noteq> [] \<and> hd r = 42"
    and ?num = "is_ascii_digit c \<or> (c = 45 \<and> r \<noteq> [] \<and> is_ascii_digit (hd r))"
    and ?id = "is_alphabetic u c \<or> c = 95"
  consider (ws) "is_whitespace c" | (line) "\<not> is_whitespace c" ?line
    | (block) "\<not> is_whitespace c" "\<not> ?line" ?block
    | (str) "\<not> is_whitespace c" "\<not> ?line" "\<not> ?block" "c = 39"
    | (num) "\<not> is_whitespace c" "\<not> ?line" "\<not> ?block" "c \<noteq> 39" ?num
    | (id) "\<not> is_whitespace c" "\<not> ?line" "\<not> ?block" "c \<noteq> 39" "\<not> ?num" ?id
    | (sim) "\<not> is_whitespace c" "\<not> ?line" "\<not> ?block" "c \<noteq> 39" "\<not> ?num" "\<not> ?id" "c = 0x2248"
    | (op) "\<not> is_whitespace c" "\<not> ?line" "\<not> ?block" "c \<noteq> 39" "\<not> ?num" "\<not> ?id" "c \<noteq> 0x2248"
    by argo
  then show ?thesis
  proof cases
    case block
    then obtain r' where "skip_block (tl r) = Some r'" "a = Skip r'"
      using assms unfolding lex_step_def by (simp split: option.splits)
    then show ?thesis using skip_block_shorter [of "tl r" r'] by simp
  next
    case str
    then obtain s r' where "scan_string r [] = Some (s, r')" "a = Emit (TStr (utf8_encode s)) r'"
      using assms unfolding lex_step_def by (simp split: option.splits prod.splits)
    then show ?thesis using scan_string_shorter [of r "[]" s r'] by simp
  next
    case num
    then have "lex_number c r = Inr a" using assms unfolding lex_step_def by (simp only: if_True if_False simp_thms)
    then show ?thesis using lex_number_shorter [of c r a] num by auto
  next
    case op
    then have "lex_operator c r = Inr a" using assms unfolding lex_step_def by (simp only: if_True if_False simp_thms)
    then show ?thesis by (rule lex_operator_shorter)
  qed (use assms in \<open>auto simp: lex_step_def length_dropWhile_le split: if_splits\<close>)
qed

function lex_loop :: "unicode \<Rightarrow> nat list \<Rightarrow> tok list \<Rightarrow> tok list res" where
  "lex_loop u [] out = Inr out"
| "lex_loop u (c # r) out =
     (case lex_step u c r of
        Inl e \<Rightarrow> Inl e
      | Inr (Skip r') \<Rightarrow> lex_loop u r' out
      | Inr (Emit t r') \<Rightarrow> rbind (push_tok out t) (lex_loop u r')
      | Inr Stop \<Rightarrow> Inr out)"
  by pat_completeness auto
termination
  by (relation "measure (\<lambda>(_, cs, _). length cs)")
    (use lex_step_shorter in \<open>force simp: less_Suc_eq_le\<close>)+

definition lex :: "unicode \<Rightarrow> string \<Rightarrow> tok list res" where
  "lex u sql =
     (if MAX_STATEMENT_BYTES < length sql then Inl (Invalid ''statement too long'')
      else lex_loop u (utf8_chars sql) [])"

section \<open>Bounds\<close>

lemma push_tok_ok: "push_tok out t = Inr ts \<longleftrightarrow> length out < 4096 \<and> ts = out @ [t]"
  by (auto simp: push_tok_def sql_limit_defs)

lemma lex_loop_bounded: "lex_loop u cs out = Inr ts \<Longrightarrow> length out \<le> 4096 \<Longrightarrow> length ts \<le> 4096"
proof (induction u cs out rule: lex_loop.induct)
  case (2 u c r out)
  then show ?case
    by (auto simp: res_simps push_tok_ok split: sum.splits lex_action.splits)
qed simp

section \<open>Spelling tokens\<close>

text \<open>\<open>spell\<close> writes a token down; string literals double their quotes.\<close>

definition quote_chars :: "nat list \<Rightarrow> nat list" where
  "quote_chars cs = concat (map (\<lambda>c. if c = 39 then [39, 39] else [c]) cs)"

fun spell :: "tok \<Rightarrow> nat list" where
  "spell (TIdent s) = utf8_chars s"
| "spell (TStr s) = 39 # quote_chars (utf8_chars s) @ [39]"
| "spell (TInt n) = utf8_chars (i64_str n)"
| "spell LParen = [40]" | "spell RParen = [41]" | "spell LBracket = [91]" | "spell RBracket = [93]"
| "spell Comma = [44]" | "spell Star = [42]" | "spell TEq = [61]" | "spell TNotEq = [60, 62]"
| "spell TLt = [60]" | "spell TLtEq = [60, 61]" | "spell TGt = [62]" | "spell TGtEq = [62, 61]"
| "spell Approx = [126, 126]"
| "spell _ = []"

definition spell_all :: "tok list \<Rightarrow> nat list" where
  "spell_all ts = concat (map (\<lambda>t. spell t @ [32]) ts)"

definition is_ascii :: "string \<Rightarrow> bool" where
  "is_ascii s \<longleftrightarrow> list_all (\<lambda>c. of_char c < (128 :: nat)) s"

definition ident_chars :: "nat list \<Rightarrow> bool" where
  "ident_chars cs \<longleftrightarrow> (case cs of [] \<Rightarrow> False
     | c # r \<Rightarrow> (65 \<le> c \<and> c \<le> 90 \<or> 97 \<le> c \<and> c \<le> 122 \<or> c = 95) \<and>
         list_all (\<lambda>d. 65 \<le> d \<and> d \<le> 90 \<or> 97 \<le> d \<and> d \<le> 122 \<or> 48 \<le> d \<and> d \<le> 57 \<or> d = 95 \<or> d = 46) r)"

fun spellable :: "tok \<Rightarrow> bool" where
  "spellable (TIdent s) \<longleftrightarrow> is_ascii s \<and> ident_chars (map of_char s)"
| "spellable (TStr s) \<longleftrightarrow> utf8_encode (utf8_chars s) = s"
| "spellable (TInt n) \<longleftrightarrow> i64_range n"
| "spellable (TFloat _) \<longleftrightarrow> False"
| "spellable Dot \<longleftrightarrow> False"
| "spellable _ \<longleftrightarrow> True"

lemma utf8_chars_ascii: "is_ascii s \<Longrightarrow> utf8_chars s = map of_char s"
  by (induction s) (simp_all add: is_ascii_def Let_def)

lemma utf8_encode_ascii: "is_ascii s \<Longrightarrow> utf8_encode (map of_char s) = s"
  by (induction s) (simp_all add: is_ascii_def utf8_encode_def utf8_char_def)

lemma is_ascii_encoded: "is_ascii s \<Longrightarrow> utf8_encode (utf8_chars s) = s"
  by (simp add: utf8_chars_ascii utf8_encode_ascii)

lemma scan_string_quoted:
  "r = [] \<or> hd r \<noteq> 39 \<Longrightarrow> scan_string (quote_chars cs @ 39 # r) s = Some (s @ cs, r)"
proof (induction cs arbitrary: s)
  case Nil
  then show ?case by (cases r) (simp_all add: quote_chars_def)
qed (simp add: quote_chars_def)

lemma scan_number_digits:
  "list_all is_ascii_digit ds \<Longrightarrow> r = [] \<or> \<not> is_ascii_digit (hd r) \<and> hd r \<noteq> 46 \<Longrightarrow>
   scan_number (ds @ r) False = (ds, False, r)"
  by (induction ds) (cases r; simp)+

lemma digits_val_map: "digits_val (map of_char s) = nat_of_digits s"
proof -
  have "foldl (\<lambda>a d. 10 * a + (d - 48)) k (map of_char s) = foldl (\<lambda>a c. 10 * a + digit_val c) k s" for k
    by (induction s arbitrary: k) (simp_all add: digit_val_def)
  then show ?thesis by (simp add: digits_val_def nat_of_digits_def)
qed

lemma nat_str_ascii: "is_ascii (nat_str n)"
  using nat_str_digits [of n] by (auto simp: is_ascii_def list_all_iff is_digit_def)

lemma nat_str_is_digits: "list_all is_ascii_digit (map of_char (nat_str n))"
  using nat_str_digits [of n] by (auto simp: list_all_iff is_digit_def is_ascii_digit_def)

lemma lex_step_space [simp]: "lex_step u 32 r = Inr (Skip r)"
  by (simp add: lex_step_def is_whitespace_def)

lemma lex_step_ident:
  assumes "spellable (TIdent s)"
  shows "\<exists>c r'. utf8_chars s = c # r' \<and> lex_step u c (r' @ 32 # r) = Inr (Emit (TIdent s) (32 # r))"
proof -
  have asc: "is_ascii s" and id: "ident_chars (map of_char s)" using assms by simp_all
  obtain c r' where cs: "(map of_char s :: nat list) = c # r'" using id by (cases "map of_char s :: nat list") (auto simp: ident_chars_def)
  have first: "65 \<le> c \<and> c \<le> 90 \<or> 97 \<le> c \<and> c \<le> 122 \<or> c = 95"
    and rest: "\<forall>d \<in> set r'. is_ident_char u d"
    using id unfolding cs
    by (auto simp: ident_chars_def list_all_iff is_ident_char_def is_alphanumeric_def is_alphabetic_def
        is_ascii_digit_def)
  have stop: "\<not> is_ident_char u 32"
    by (simp add: is_ident_char_def is_alphanumeric_def is_alphabetic_def is_ascii_digit_def)
  have tw: "takeWhile (is_ident_char u) (r' @ 32 # r) = r'" "dropWhile (is_ident_char u) (r' @ 32 # r) = 32 # r"
    using rest stop by (simp_all add: takeWhile_tail dropWhile_append2)
  have s: "utf8_encode (c # r') = s" using utf8_encode_ascii [OF asc] cs by simp
  have "\<not> is_whitespace c" "c \<noteq> 45" "c \<noteq> 47" "c \<noteq> 39" "\<not> is_ascii_digit c" "is_alphabetic u c \<or> c = 95"
    using first by (auto simp: is_whitespace_def is_ascii_digit_def is_alphabetic_def)
  then have "lex_step u c (r' @ 32 # r) = Inr (Emit (TIdent s) (32 # r))"
    unfolding lex_step_def tw s by simp
  then show ?thesis using utf8_chars_ascii [OF asc] cs by auto
qed

lemma lex_step_str:
  assumes "spellable (TStr s)"
  shows "lex_step u 39 (quote_chars (utf8_chars s) @ 39 # 32 # r) = Inr (Emit (TStr s) (32 # r))"
  using assms scan_string_quoted [of "32 # r" "utf8_chars s" "[]"]
  by (simp add: lex_step_def is_whitespace_def)

lemma lex_step_int:
  assumes "i64_range n"
  shows "\<exists>c r'. utf8_chars (i64_str n) = c # r' \<and> lex_step u c (r' @ 32 # r) = Inr (Emit (TInt n) (32 # r))"
proof (cases "n < 0")
  case True
  let ?ds = "map of_char (nat_str (nat (- n))) :: nat list"
  have chars: "utf8_chars (i64_str n) = 45 # ?ds"
    using True nat_str_ascii [of "nat (- n)"] by (simp add: i64_str_def utf8_chars_ascii)
  obtain d ds where ds: "?ds = d # ds" by (cases ?ds) simp_all
  have dig: "is_ascii_digit d" using nat_str_is_digits [of "nat (- n)"] unfolding ds by simp
  have scan: "scan_number (?ds @ 32 # r) False = (?ds, False, 32 # r)"
    by (rule scan_number_digits [OF nat_str_is_digits]) (simp add: is_ascii_digit_def)
  have num: "number_tok True ?ds False = Inr (TInt n)"
    using True assms by (simp add: number_tok_def parse_i64_def digits_val_map)
  have "lex_number 45 (?ds @ 32 # r) = Inr (Emit (TInt n) (32 # r))"
    unfolding lex_number_def using scan num by simp
  moreover have "lex_step u 45 (?ds @ 32 # r) = lex_number 45 (?ds @ 32 # r)"
    using dig unfolding ds by (simp add: lex_step_def is_whitespace_def is_ascii_digit_def)
  ultimately show ?thesis using chars by auto
next
  case False
  let ?ds = "map of_char (nat_str (nat n)) :: nat list"
  have chars: "utf8_chars (i64_str n) = ?ds"
    using False nat_str_ascii [of "nat n"] by (simp add: i64_str_def utf8_chars_ascii)
  obtain d ds where ds: "?ds = d # ds" by (cases ?ds) simp_all
  have dig: "is_ascii_digit d" using nat_str_is_digits [of "nat n"] unfolding ds by simp
  have scan: "scan_number (?ds @ 32 # r) False = (?ds, False, 32 # r)"
    by (rule scan_number_digits [OF nat_str_is_digits]) (simp add: is_ascii_digit_def)
  have num: "number_tok False ?ds False = Inr (TInt n)"
    using False assms by (simp add: number_tok_def parse_i64_def digits_val_map)
  have "lex_number d (ds @ 32 # r) = Inr (Emit (TInt n) (32 # r))"
    unfolding lex_number_def using scan num dig unfolding ds by (auto simp: is_ascii_digit_def)
  moreover have "lex_step u d (ds @ 32 # r) = lex_number d (ds @ 32 # r)"
    using dig by (auto simp: lex_step_def is_whitespace_def is_ascii_digit_def)
  ultimately show ?thesis using chars ds by auto
qed

lemma lex_step_spell:
  assumes "spellable t"
  shows "\<exists>c r'. spell t = c # r' \<and> lex_step u c (r' @ 32 # r) = Inr (Emit t (32 # r))"
proof (cases t)
  case (TIdent s)
  then show ?thesis using lex_step_ident assms by simp
next
  case (TStr s)
  then show ?thesis using lex_step_str assms by simp
next
  case (TInt n)
  then show ?thesis using lex_step_int assms by simp
qed (use assms in \<open>simp_all add: lex_step_def lex_operator_def two_char_def punct_def is_whitespace_def
    is_ascii_digit_def is_alphabetic_def\<close>)

lemma lex_loop_spell:
  assumes "spellable t" and "length out < 4096"
  shows "lex_loop u ((spell t @ [32]) @ r) out = lex_loop u r (out @ [t])"
proof -
  obtain c r' where "spell t = c # r'" "lex_step u c (r' @ 32 # r) = Inr (Emit t (32 # r))"
    using lex_step_spell [OF assms(1)] by blast
  then show ?thesis
    using assms(2) by (simp add: push_tok_def sql_limit_defs)
qed

lemma lex_loop_spell_all:
  "list_all spellable ts \<Longrightarrow> length out + length ts \<le> 4096 \<Longrightarrow>
   lex_loop u (spell_all ts) out = Inr (out @ ts)"
proof (induction ts arbitrary: out)
  case (Cons t ts)
  have "spell_all (t # ts) = (spell t @ [32]) @ spell_all ts" by (simp add: spell_all_def)
  then show ?case using Cons lex_loop_spell [of t out u "spell_all ts"] by simp
qed (simp add: spell_all_def)

section \<open>Properties\<close>

text \<open>
  A statement which lexes is at most 64 KiB long and has at most 4096 tokens.
\<close>

lemma lex_bounded:
  assumes "lex u sql = Inr ts"
  shows "length sql \<le> 65536 \<and> length ts \<le> 4096"
  using assms lex_loop_bounded [of u "utf8_chars sql" "[]" ts]
  by (auto simp: lex_def sql_limit_defs split: if_splits)

definition ascii_unicode :: unicode where
  "ascii_unicode = \<lparr>uni_alpha = (\<lambda>_. False), uni_numeric = (\<lambda>_. False)\<rparr>"

text \<open>
  C32. Lexing inverts printing: identifiers, string literals with any content (quotes doubled),
  64-bit integers and every operator, written with a space behind each, lex to the same
  tokens. In particular a quoted literal is always one token, whatever it contains.
\<close>

theorem lex_spelled_tokens:
  assumes "list_all spellable ts" and "length ts \<le> 4096"
    and "utf8_chars sql = spell_all ts" and "length sql \<le> 65536"
  shows "lex u sql = Inr ts"
  using assms lex_loop_spell_all [of ts "[]" u] by (simp add: lex_def sql_limit_defs)

definition sample_toks :: "tok list" where
  "sample_toks = [TIdent ''body'', TEq, TStr ([CHR ''a'', char_of (39 :: nat), CHR '';'']), Comma, TInt (-42)]"

definition sample_sql :: string where
  "sample_sql = map char_of (spell_all sample_toks)"

theorem lex_spelled_tokens_witness: "lex ascii_unicode sample_sql = Inr sample_toks"
proof (rule lex_spelled_tokens)
  have chars: "spell_all sample_toks = [98, 111, 100, 121, 32, 61, 32, 39, 97, 39, 39, 59, 39, 32, 44, 32, 45, 52, 50, 32]"
    by (simp add: sample_toks_def spell_all_def quote_chars_def i64_str_def nat_str.simps digit_char_def)
  then show "utf8_chars sample_sql = spell_all sample_toks" "length sample_sql \<le> 65536"
    by (simp_all add: sample_sql_def)
  show "list_all spellable sample_toks"
    by (simp add: sample_toks_def is_ascii_def ident_chars_def i64_range_def utf8_encode_def utf8_char_def char_of_eq_iff)
  show "length sample_toks \<le> 4096" by (simp add: sample_toks_def)
qed

end
