(* ===== verification/Limits.thy ===== *)
theory Limits
  imports Prelude
begin

text \<open>
  Admission limits: the policy constants of \<open>prism-types/src/limits.rs\<close>, the per-tenant
  \<open>Quota\<close>, and the closed set of dead-letter reasons with the stable strings an operator
  greps for.  The lemmas at the end state the relations between the caps which the
  rest of the library relies on.
\<close>

section \<open>Constants\<close>

definition MAX_ATTRIBUTE_KEYS :: nat where "MAX_ATTRIBUTE_KEYS = 64"

definition MAX_ATTRIBUTE_KEY_BYTES :: nat where "MAX_ATTRIBUTE_KEY_BYTES = 128"

definition MAX_ATTRIBUTE_VALUE_BYTES :: nat where "MAX_ATTRIBUTE_VALUE_BYTES = 4 * 1024"

definition MAX_ATTRIBUTES_BYTES :: nat where "MAX_ATTRIBUTES_BYTES = 16 * 1024"

definition MAX_ATTRIBUTE_KEY_CARDINALITY :: nat where "MAX_ATTRIBUTE_KEY_CARDINALITY = 512"

definition MAX_LATENESS_MS :: i64 where "MAX_LATENESS_MS = 7 * 24 * 60 * 60 * 1000"

definition MAX_SKEW_AHEAD_MS :: i64 where "MAX_SKEW_AHEAD_MS = 60 * 60 * 1000"

definition IDEMPOTENCY_WINDOW_MS :: i64 where "IDEMPOTENCY_WINDOW_MS = 7 * 24 * 60 * 60 * 1000"

definition IDEMPOTENCY_MAX_ENTRIES :: nat where "IDEMPOTENCY_MAX_ENTRIES = 1000000"

lemmas limit_defs = MAX_ATTRIBUTE_KEYS_def MAX_ATTRIBUTE_KEY_BYTES_def MAX_ATTRIBUTE_VALUE_BYTES_def
  MAX_ATTRIBUTES_BYTES_def MAX_ATTRIBUTE_KEY_CARDINALITY_def MAX_LATENESS_MS_def
  MAX_SKEW_AHEAD_MS_def IDEMPOTENCY_WINDOW_MS_def IDEMPOTENCY_MAX_ENTRIES_def

record quota =
  events_per_sec :: nat
  bytes_per_sec :: nat
  in_flight_bytes :: nat

definition quota_default :: quota where
  "quota_default = \<lparr>events_per_sec = 10000, bytes_per_sec = 32 * 1024 * 1024,
     in_flight_bytes = 64 * 1024 * 1024\<rparr>"

section \<open>Reject reasons\<close>

datatype reject_reason =
    MissingEventId | MissingTenantId | EmptyBody | BodyTooLarge | InvalidCost
  | TooManyAttributeKeys | AttributeKeyTooLong | AttributeValueTooLong | AttributesTooLarge
  | AttributeKeyCardinalityExceeded
  | EventTimeTooLate | EventTimeInFuture
  | InvalidIdentifier | IdempotencyConflict
  | QuotaExceeded | ModelPolicyDenied
  | EmbeddingFailed

fun reject_as_str :: "reject_reason \<Rightarrow> string" where
  "reject_as_str MissingEventId = ''missing_event_id''"
| "reject_as_str MissingTenantId = ''missing_tenant_id''"
| "reject_as_str EmptyBody = ''empty_body''"
| "reject_as_str BodyTooLarge = ''body_too_large''"
| "reject_as_str InvalidCost = ''invalid_cost''"
| "reject_as_str TooManyAttributeKeys = ''too_many_attribute_keys''"
| "reject_as_str AttributeKeyTooLong = ''attribute_key_too_long''"
| "reject_as_str AttributeValueTooLong = ''attribute_value_too_long''"
| "reject_as_str AttributesTooLarge = ''attributes_too_large''"
| "reject_as_str AttributeKeyCardinalityExceeded = ''attribute_key_cardinality_exceeded''"
| "reject_as_str EventTimeTooLate = ''event_time_too_late''"
| "reject_as_str EventTimeInFuture = ''event_time_in_future''"
| "reject_as_str InvalidIdentifier = ''invalid_identifier''"
| "reject_as_str IdempotencyConflict = ''idempotency_conflict''"
| "reject_as_str QuotaExceeded = ''quota_exceeded''"
| "reject_as_str ModelPolicyDenied = ''model_policy_denied''"
| "reject_as_str EmbeddingFailed = ''embedding_failed''"

lemma reject_as_str_inj: "reject_as_str a = reject_as_str b \<Longrightarrow> a = b"
  by (cases a; cases b; simp)

lemma one_event_cannot_fill_dictionary: "MAX_ATTRIBUTE_KEYS < MAX_ATTRIBUTE_KEY_CARDINALITY"
  by (simp add: limit_defs)

lemma total_cap_binds:
  "MAX_ATTRIBUTE_VALUE_BYTES < MAX_ATTRIBUTES_BYTES \<and>
   MAX_ATTRIBUTES_BYTES < MAX_ATTRIBUTE_KEYS * (MAX_ATTRIBUTE_KEY_BYTES + MAX_ATTRIBUTE_VALUE_BYTES)"
  by (simp add: limit_defs)

end
