(* ===== verification/Hashing.thy ===== *)
theory Hashing
  imports Prelude
begin

unbundle bit_operations_syntax

text \<open>
  The digests of \<open>prism-types/src/hash.rs\<close>: CRC-32 (one-shot and streaming), SHA-256 with its
  padding loop, HMAC-SHA256, hexadecimal printing and the content address of a blob.
  The CRC lemmas carry the storage claims: the streaming form computes the one-shot digest
  over any chunking, and a changed byte always changes the digest.
\<close>

section \<open>CRC-32\<close>

text \<open>One step of the inner loop: \<open>mask = (crc & 1).wrapping_neg()\<close>, shift, conditional xor.\<close>

definition crc_bit :: "u32 \<Rightarrow> u32" where
  "crc_bit crc = (let mask = - (crc AND 1) in drop_bit 1 crc XOR (0xEDB88320 AND mask))"

fun crc_bits :: "nat \<Rightarrow> u32 \<Rightarrow> u32" where
  "crc_bits 0 crc = crc"
| "crc_bits (Suc k) crc = crc_bits k (crc_bit crc)"

definition crc_byte :: "u32 \<Rightarrow> byte \<Rightarrow> u32" where
  "crc_byte crc b = crc_bits 8 (crc XOR ucast b)"

definition crc32 :: "byte list \<Rightarrow> u32" where
  "crc32 bytes = NOT (foldl crc_byte 0xFFFFFFFF bytes)"

record Crc32 =
  crc_state :: u32

definition crc_new :: Crc32 where
  "crc_new = \<lparr>crc_state = 0xFFFFFFFF\<rparr>"

definition crc_update :: "Crc32 \<Rightarrow> byte list \<Rightarrow> Crc32" where
  "crc_update c bytes = c\<lparr>crc_state := foldl crc_byte (crc_state c) bytes\<rparr>"

definition crc_finish :: "Crc32 \<Rightarrow> u32" where
  "crc_finish c = NOT (crc_state c)"

text \<open>The contract of a streaming digest: feeding two slices is feeding their concatenation.\<close>

locale streaming_digest =
  fixes start :: 's
    and feed :: "'s \<Rightarrow> 'b list \<Rightarrow> 's"
    and fin :: "'s \<Rightarrow> 'd"
  assumes feed_append: "feed (feed s xs) ys = feed s (xs @ ys)"
    and feed_Nil: "feed s [] = s"
begin

lemma feed_chunks: "foldl feed s chunks = feed s (concat chunks)"
  by (induction chunks arbitrary: s) (simp_all add: feed_Nil feed_append)

lemma chunking_irrelevant:
  "concat cs = concat ds \<Longrightarrow> fin (foldl feed start cs) = fin (foldl feed start ds)"
  by (simp add: feed_chunks)

end

interpretation crc: streaming_digest crc_new crc_update crc_finish
  by unfold_locales (simp_all add: crc_update_def)

lemma crc_finish_feed: "crc_finish (crc_update crc_new bytes) = crc32 bytes"
  by (simp add: crc_finish_def crc_update_def crc_new_def crc32_def)

lemma crc_mask: "- (c AND 1 :: u32) = (if bit c 0 then -1 else 0)"
  by (simp add: and_one_eq odd_iff_mod_2_eq_one bit_0)

lemma crc_bit_bit:
  "n < 32 \<Longrightarrow> bit (crc_bit c) n \<longleftrightarrow> (bit c (Suc n) \<noteq> (bit (0xEDB88320 :: u32) n \<and> bit c 0))"
  unfolding crc_bit_def Let_def crc_mask by (simp add: bit_simps)

lemma crc_bit_inj: "crc_bit c = crc_bit d \<Longrightarrow> c = d"
proof -
  assume eq: "crc_bit c = crc_bit d"
  have top: "bit (0xEDB88320 :: u32) 31" by (simp add: bit_numeral_rec)
  have hi: "\<not> bit (x :: u32) 32" for x using bit_imp_le_length [of x 32] by auto
  have "bit (crc_bit c) 31 = bit (crc_bit d) 31" using eq by simp
  then have low: "bit c 0 = bit d 0"
    using top hi [of c] hi [of d] crc_bit_bit [of 31] by simp
  show "c = d"
  proof (rule bit_word_eqI)
    fix n assume n: "n < LENGTH(32)"
    show "bit c n = bit d n"
    proof (cases n)
      case 0 then show ?thesis using low by simp
    next
      case (Suc m)
      then have "m < 32" using n by simp
      then show ?thesis
        using crc_bit_bit [of m c] crc_bit_bit [of m d] eq low Suc by auto
    qed
  qed
qed

lemma crc_bits_inj: "crc_bits k c = crc_bits k d \<Longrightarrow> c = d"
  by (induction k arbitrary: c d) (auto dest: crc_bit_inj)

lemma crc_byte_inj_state: "crc_byte c b = crc_byte d b \<Longrightarrow> c = d"
proof -
  assume "crc_byte c b = crc_byte d b"
  then have "c XOR ucast b = d XOR ucast b" unfolding crc_byte_def by (rule crc_bits_inj)
  then have "(c XOR ucast b) XOR ucast b = (d XOR ucast b) XOR ucast b" by simp
  then show "c = d" by (simp add: xor.assoc)
qed

lemma crc_byte_inj_byte: "crc_byte c a = crc_byte c b \<Longrightarrow> a = b"
proof -
  assume "crc_byte c a = crc_byte c b"
  then have "c XOR ucast a = c XOR ucast b" unfolding crc_byte_def by (rule crc_bits_inj)
  then have "c XOR (c XOR ucast a) = c XOR (c XOR ucast b)" by simp
  then have eq: "(ucast a :: u32) = ucast b" by (simp only: xor.assoc [symmetric] xor_self_eq xor.left_neutral)
  show "a = b"
  proof (rule bit_word_eqI)
    fix n assume n: "n < LENGTH(8)"
    have "bit (ucast a :: u32) n = bit (ucast b :: u32) n" using eq by simp
    then show "bit a n = bit b n" using n by (simp add: bit_ucast_iff)
  qed
qed

lemma crc_fold_inj: "foldl crc_byte c ys = foldl crc_byte d ys \<Longrightarrow> c = d"
  by (induction ys arbitrary: c d) (auto dest: crc_byte_inj_state)

lemma crc32_byte_inj: "crc32 (xs @ a # ys) = crc32 (xs @ b # ys) \<Longrightarrow> a = b"
proof -
  assume "crc32 (xs @ a # ys) = crc32 (xs @ b # ys)"
  then have "NOT (crc32 (xs @ a # ys)) = NOT (crc32 (xs @ b # ys))" by simp
  then have "foldl crc_byte (crc_byte (foldl crc_byte 0xFFFFFFFF xs) a) ys =
    foldl crc_byte (crc_byte (foldl crc_byte 0xFFFFFFFF xs) b) ys"
    by (simp only: crc32_def bit.double_compl foldl_append foldl_Cons)
  then show "a = b" by (rule crc_byte_inj_byte [OF crc_fold_inj])
qed

lemma crc32_update_neq: "k < length bs \<Longrightarrow> b \<noteq> bs ! k \<Longrightarrow> crc32 (bs[k := b]) \<noteq> crc32 bs"
  using crc32_byte_inj [of "take k bs" b "drop (Suc k) bs" "bs ! k"]
  by (auto simp: upd_conv_take_nth_drop id_take_nth_drop [symmetric])

section \<open>SHA-256\<close>

definition sha_K :: "u32 list" where
  "sha_K = concat [
    [0x428a2f98, 0x71374491, 0xb5c0fbcf, 0xe9b5dba5, 0x3956c25b, 0x59f111f1, 0x923f82a4, 0xab1c5ed5],
    [0xd807aa98, 0x12835b01, 0x243185be, 0x550c7dc3, 0x72be5d74, 0x80deb1fe, 0x9bdc06a7, 0xc19bf174],
    [0xe49b69c1, 0xefbe4786, 0x0fc19dc6, 0x240ca1cc, 0x2de92c6f, 0x4a7484aa, 0x5cb0a9dc, 0x76f988da],
    [0x983e5152, 0xa831c66d, 0xb00327c8, 0xbf597fc7, 0xc6e00bf3, 0xd5a79147, 0x06ca6351, 0x14292967],
    [0x27b70a85, 0x2e1b2138, 0x4d2c6dfc, 0x53380d13, 0x650a7354, 0x766a0abb, 0x81c2c92e, 0x92722c85],
    [0xa2bfe8a1, 0xa81a664b, 0xc24b8b70, 0xc76c51a3, 0xd192e819, 0xd6990624, 0xf40e3585, 0x106aa070],
    [0x19a4c116, 0x1e376c08, 0x2748774c, 0x34b0bcb5, 0x391c0cb3, 0x4ed8aa4a, 0x5b9cca4f, 0x682e6ff3],
    [0x748f82ee, 0x78a5636f, 0x84c87814, 0x8cc70208, 0x90befffa, 0xa4506ceb, 0xbef9a3f7, 0xc67178f2]]"

definition sha_H0 :: "u32 list" where
  "sha_H0 = [0x6a09e667, 0xbb67ae85, 0x3c6ef372, 0xa54ff53a] @ [0x510e527f, 0x9b05688c, 0x1f83d9ab, 0x5be0cd19]"

text \<open>\<open>while msg.len() % 64 != 56 { msg.push(0) }\<close>\<close>

function sha_pad_zero :: "byte list \<Rightarrow> byte list" where
  "sha_pad_zero msg = (if length msg mod 64 = 56 then msg else sha_pad_zero (msg @ [0]))"
  by pat_completeness auto

lemma pad_gap_step:
  fixes n :: nat
  assumes "n mod 64 \<noteq> 56"
  shows "(120 - n mod 64) mod 64 = Suc ((120 - Suc n mod 64) mod 64)"
proof -
  define r where "r = n mod 64"
  have r: "r < 64" "r \<noteq> 56" using assms by (simp_all add: r_def)
  have s: "Suc n mod 64 = (if r = 63 then 0 else Suc r)" by (simp add: r_def mod_Suc)
  have small: "(120 - k) mod 64 = (if k \<le> 56 then 56 - k else 120 - k)" if "k < 64" for k :: nat
  proof (cases "k \<le> 56")
    case True
    then have "120 - k = (56 - k) + 64" by simp
    then show ?thesis using True by (simp only: mod_add_self2) simp
  next
    case False
    then show ?thesis using that by simp
  qed
  show ?thesis
    using r small [of r] small [of "Suc r"] small [of 0] unfolding s r_def [symmetric] by auto
qed

termination sha_pad_zero
  by (relation "measure (\<lambda>msg. (120 - length msg mod 64) mod 64)") (simp_all add: pad_gap_step)

declare sha_pad_zero.simps [simp del]

definition be_bytes32 :: "u32 \<Rightarrow> byte list" where
  "be_bytes32 w = [ucast (drop_bit 24 w), ucast (drop_bit 16 w), ucast (drop_bit 8 w), ucast w]"

definition be_bytes64 :: "u64 \<Rightarrow> byte list" where
  "be_bytes64 w = map (\<lambda>i. ucast (drop_bit (8 * i) w)) [7, 6, 5, 4, 3, 2, 1, 0]"

definition from_be_bytes32 :: "byte list \<Rightarrow> u32" where
  "from_be_bytes32 bs = foldl (\<lambda>w b. push_bit 8 w OR ucast b) 0 bs"

function chunks_exact :: "nat \<Rightarrow> 'a list \<Rightarrow> 'a list list" where
  "chunks_exact n xs =
     (if n = 0 \<or> length xs < n then [] else take n xs # chunks_exact n (drop n xs))"
  by pat_completeness auto
termination by (relation "measure (length \<circ> snd)") auto

declare chunks_exact.simps [simp del]

definition sha_pad :: "byte list \<Rightarrow> byte list" where
  "sha_pad data =
     (let bit_len = (word_of_nat (length data) :: u64) * 8
      in sha_pad_zero (data @ [0x80]) @ be_bytes64 bit_len)"

definition sha_extend :: "u32 list \<Rightarrow> nat \<Rightarrow> u32 list" where
  "sha_extend w i =
     (let s0 = word_rotr 7 (w ! (i - 15)) XOR word_rotr 18 (w ! (i - 15)) XOR drop_bit 3 (w ! (i - 15));
          s1 = word_rotr 17 (w ! (i - 2)) XOR word_rotr 19 (w ! (i - 2)) XOR drop_bit 10 (w ! (i - 2))
      in w @ [w ! (i - 16) + s0 + w ! (i - 7) + s1])"

definition sha_schedule :: "byte list \<Rightarrow> u32 list" where
  "sha_schedule chunk = foldl sha_extend (map from_be_bytes32 (chunks_exact 4 chunk)) [16..<64]"

fun sha_round :: "u32 list \<Rightarrow> u32 \<times> u32 \<Rightarrow> u32 list" where
  "sha_round [a, b, c, d, e, f, g, hh] (k, w) =
     (let s1 = word_rotr 6 e XOR word_rotr 11 e XOR word_rotr 25 e;
          ch = (e AND f) XOR ((NOT e) AND g);
          t1 = hh + s1 + ch + k + w;
          s0 = word_rotr 2 a XOR word_rotr 13 a XOR word_rotr 22 a;
          maj = (a AND b) XOR (a AND c) XOR (b AND c);
          t2 = s0 + maj
      in [t1 + t2, a, b, c, d + t1, e, f, g])"
| "sha_round st _ = st"

definition sha_compress :: "u32 list \<Rightarrow> byte list \<Rightarrow> u32 list" where
  "sha_compress h chunk =
     map2 (+) h (foldl sha_round h (zip sha_K (sha_schedule chunk)))"

definition sha256 :: "byte list \<Rightarrow> byte list" where
  "sha256 data =
     concat (map be_bytes32 (foldl sha_compress sha_H0 (chunks_exact 64 (sha_pad data))))"

lemma sha_pad_zero_length: "length (sha_pad_zero msg) mod 64 = 56"
  by (induction msg rule: sha_pad_zero.induct) (subst sha_pad_zero.simps, simp)

lemma sha_pad_zero_prefix: "\<exists>k < 64. sha_pad_zero msg = msg @ replicate k 0"
proof -
  have "\<exists>k. k = (120 - length msg mod 64) mod 64 \<and> sha_pad_zero msg = msg @ replicate k 0"
  proof (induction msg rule: sha_pad_zero.induct)
    case (1 msg)
    show ?case
    proof (cases "length msg mod 64 = 56")
      case True
      then show ?thesis by (subst sha_pad_zero.simps) simp
    next
      case False
      from 1 [OF False] have ih: "sha_pad_zero (msg @ [0]) =
        (msg @ [0]) @ replicate ((120 - length (msg @ [0]) mod 64) mod 64) 0" by simp
      have "(120 - length msg mod 64) mod 64 = Suc ((120 - length (msg @ [0]) mod 64) mod 64)"
        using pad_gap_step [OF False] by simp
      then show ?thesis using False ih by (subst sha_pad_zero.simps) simp
    qed
  qed
  then show ?thesis by auto
qed

lemma sha_pad_length: "length (sha_pad data) mod 64 = 0"
proof -
  have "length (sha_pad data) = length (sha_pad_zero (data @ [0x80])) + 8"
    by (simp add: sha_pad_def be_bytes64_def Let_def)
  then show ?thesis
    using sha_pad_zero_length [of "data @ [0x80]"] mod_add_left_eq [of "length (sha_pad_zero (data @ [0x80]))" 64 8]
    by simp
qed

lemma sha_round_length [simp]: "length (sha_round st kw) = length st"
  by (induction st kw rule: sha_round.induct) (simp_all add: Let_def)

lemma sha_rounds_length [simp]: "length (foldl sha_round st kws) = length st"
  by (induction kws arbitrary: st) simp_all

lemma sha_compress_length [simp]: "length h = 8 \<Longrightarrow> length (sha_compress h chunk) = 8"
  by (simp add: sha_compress_def)

lemma sha_blocks_length: "length h = 8 \<Longrightarrow> length (foldl sha_compress h cs) = 8"
  by (induction cs arbitrary: h) simp_all

lemma be_bytes32_length [simp]: "length (be_bytes32 w) = 4"
  by (simp add: be_bytes32_def)

lemma concat_be_length: "length (concat (map be_bytes32 ws)) = 4 * length ws"
  by (induction ws) simp_all

lemma sha256_length [simp]: "length (sha256 data) = 32"
  by (simp add: sha256_def concat_be_length sha_blocks_length sha_H0_def)

section \<open>HMAC, hexadecimal, content addresses\<close>

definition resize :: "nat \<Rightarrow> 'a \<Rightarrow> 'a list \<Rightarrow> 'a list" where
  "resize n x xs = take n xs @ replicate (n - length xs) x"

definition hmac_sha256 :: "byte list \<Rightarrow> byte list \<Rightarrow> byte list" where
  "hmac_sha256 key msg =
     (let k = resize 64 0 (if 64 < length key then sha256 key else key);
          ipad = map2 (XOR) (replicate 64 0x36) k;
          opad = map2 (XOR) (replicate 64 0x5c) k;
          inner_hash = sha256 (ipad @ msg)
      in sha256 (opad @ inner_hash))"

definition hex_digit :: "nat \<Rightarrow> char" where
  "hex_digit n = ''0123456789abcdef'' ! n"

definition hex_byte :: "byte \<Rightarrow> string" where
  "hex_byte b = [hex_digit (unat b div 16), hex_digit (unat b mod 16)]"

definition hex :: "byte list \<Rightarrow> string" where
  "hex bytes = concat (map hex_byte bytes)"

definition content_id :: "byte list \<Rightarrow> string" where
  "content_id bytes = take 16 (hex (sha256 bytes))"

lemma hex_length [simp]: "length (hex bytes) = 2 * length bytes"
  by (induction bytes) (simp_all add: hex_def hex_byte_def)

lemma hex_Cons: "hex (b # bs) = hex_byte b @ hex bs"
  by (simp add: hex_def)

lemma hex_digit_inj:
  assumes "m < 16" and "n < 16" and "hex_digit m = hex_digit n"
  shows "m = n"
proof -
  have d: "distinct ''0123456789abcdef''" by simp
  have l: "length ''0123456789abcdef'' = 16" by simp
  show ?thesis
    using assms nth_eq_iff_index_eq [OF d, of m n] unfolding hex_digit_def l by simp
qed

lemma unat_byte_lt: "unat (b :: byte) < 256"
  using unsigned_less [of b] by simp

lemma hex_byte_inj: "hex_byte a = hex_byte b \<Longrightarrow> a = b"
proof -
  assume eq: "hex_byte a = hex_byte b"
  have "unat a div 16 = unat b div 16" "unat a mod 16 = unat b mod 16"
    using eq unat_byte_lt [of a] unat_byte_lt [of b]
    by (auto simp: hex_byte_def intro: hex_digit_inj)
  then have "unat a = unat b" by (metis div_mult_mod_eq)
  then show "a = b" by (simp add: word_unat_eq_iff)
qed

lemma hex_inj: "hex xs = hex ys \<Longrightarrow> xs = ys"
proof (induction xs arbitrary: ys)
  case Nil
  then have "length (hex ys) = length (hex [])" by simp
  then show ?case by simp
next
  case (Cons x xs)
  from Cons.prems have "length (hex (x # xs)) = length (hex ys)" by simp
  then obtain y ys' where ys: "ys = y # ys'" by (cases ys) auto
  with Cons.prems have "hex_byte x = hex_byte y \<and> hex xs = hex ys'"
    by (simp add: hex_Cons hex_byte_def)
  with Cons.IH ys show ?case by (auto dest: hex_byte_inj)
qed

lemma content_id_length [simp]: "length (content_id bytes) = 16"
  by (simp add: content_id_def)

lemma hmac_length [simp]: "length (hmac_sha256 key msg) = 32"
  by (simp add: hmac_sha256_def Let_def)

section \<open>Properties\<close>

text \<open>
  C35. The streaming CRC over any way of cutting the input into slices equals the one-shot CRC
  of the concatenation.
\<close>

theorem streaming_crc_is_oneshot:
  "crc_finish (foldl crc_update crc_new chunks) = crc32 (concat chunks)"
  by (simp only: crc.feed_chunks crc_finish_feed)

text \<open>
  C34. Changing one byte of the stored bytes, to any other value and at any position, changes
  the CRC: a single damaged byte is always detected.
\<close>

theorem crc32_detects_changed_byte:
  "crc32 (xs @ a # ys) = crc32 (xs @ b # ys) \<longleftrightarrow> a = b"
  using crc32_byte_inj by auto

text \<open>
  The padding loop of SHA-256 ends: it appends fewer than 64 zero bytes, the padded message
  is the data, the marker byte, those zeros and the bit length, its length is a multiple
  of the block size, and the digest has 32 bytes.
\<close>

lemma sha256_padding:
  "(\<exists>k < 64. sha_pad data =
      data @ [0x80] @ replicate k 0 @ be_bytes64 (word_of_nat (length data) * 8)) \<and>
   length (sha_pad data) mod 64 = 0 \<and> length (sha256 data) = 32"
  using sha_pad_zero_prefix [of "data @ [0x80]"] sha_pad_length [of data]
  by (auto simp: sha_pad_def Let_def)

end
