(* ===== verification/Events.thy ===== *)
theory Events
  imports Limits Hashing Text
begin

text \<open>
  The event model: \<open>prism-types/src/attributes.rs\<close> and \<open>prism-types/src/event.rs\<close>.
  Validation returns a rejection as a value; a rejection is either a reason with a detail tag or
  \<open>Panicked\<close>, for the one place where building the detail slices a string off a character boundary.
\<close>

datatype rejection = Reject reject_reason string | Panicked

section \<open>Attributes\<close>

datatype attr_value = AStr string | AInt i64 | ADouble f64 | ABool bool

type_synonym attributes = "(string \<times> attr_value) list"

fun type_tag :: "attr_value \<Rightarrow> byte" where
  "type_tag (AStr _) = 1"
| "type_tag (AInt _) = 2"
| "type_tag (ADouble _) = 3"
| "type_tag (ABool _) = 4"

fun attr_byte_size :: "attr_value \<Rightarrow> nat" where
  "attr_byte_size (AStr s) = length s"
| "attr_byte_size (AInt _) = 8"
| "attr_byte_size (ADouble _) = 8"
| "attr_byte_size (ABool _) = 1"

fun as_display :: "attr_value \<Rightarrow> string" where
  "as_display (AStr s) = s"
| "as_display (AInt i) = i64_str i"
| "as_display (ADouble d) = f64_str d"
| "as_display (ABool b) = bool_str b"

text \<open>The body of the loop of \<open>attributes::validate\<close>, on one entry.\<close>

definition validate_attr :: "string \<Rightarrow> attr_value \<Rightarrow> rejection + unit" where
  "validate_attr k v =
     (if k = [] then Inl (Reject AttributeKeyTooLong ''attribute key is empty'')
      else if MAX_ATTRIBUTE_KEY_BYTES < length k then
        (if is_char_boundary k (min (length k) 32)
         then Inl (Reject AttributeKeyTooLong ''attribute key too long'')
         else Inl Panicked)
      else if MAX_ATTRIBUTE_VALUE_BYTES < attr_byte_size v then
        Inl (Reject AttributeValueTooLong ''attribute value too long'')
      else (case v of
          ADouble d \<Rightarrow> if f64_is_finite d then Inr ()
            else Inl (Reject AttributeValueTooLong ''attribute is not a finite number'')
        | _ \<Rightarrow> Inr ()))"

fun attrs_loop :: "attributes \<Rightarrow> nat \<Rightarrow> rejection + nat" where
  "attrs_loop [] tot = Inr tot"
| "attrs_loop ((k, v) # rest) tot =
     rbind (validate_attr k v) (\<lambda>_. attrs_loop rest (tot + (length k + attr_byte_size v)))"

definition validate_attributes :: "attributes \<Rightarrow> rejection + unit" where
  "validate_attributes attrs =
     (if MAX_ATTRIBUTE_KEYS < length attrs
      then Inl (Reject TooManyAttributeKeys ''too many attribute keys'')
      else rbind (attrs_loop attrs 0) (\<lambda>tot.
        if MAX_ATTRIBUTES_BYTES < tot
        then Inl (Reject AttributesTooLarge ''attributes too large'') else Inr ()))"

definition attrs_byte_size :: "attributes \<Rightarrow> nat" where
  "attrs_byte_size attrs = sum_list (map (\<lambda>(k, v). length k + attr_byte_size v) attrs)"

lemma attrs_loop_totalal:
  "attrs_loop attrs t = Inr n \<longleftrightarrow>
     n = t + attrs_byte_size attrs \<and> (\<forall>(k, v) \<in> set attrs. is_ok (validate_attr k v))"
proof (induction attrs t rule: attrs_loop.induct)
  case (2 k v rest tot)
  then show ?case
    by (cases "validate_attr k v") (auto simp: attrs_byte_size_def)
qed (auto simp: attrs_byte_size_def)

text \<open>What the per-event attribute caps promise about one entry.\<close>

definition attr_within_caps :: "string \<Rightarrow> attr_value \<Rightarrow> bool" where
  "attr_within_caps k v \<longleftrightarrow> k \<noteq> [] \<and> length k \<le> 128 \<and> attr_byte_size v \<le> 4096 \<and>
     (case v of ADouble d \<Rightarrow> f64_is_finite d | _ \<Rightarrow> True)"

lemma validate_attr_ok: "is_ok (validate_attr k v) \<longleftrightarrow> attr_within_caps k v"
  by (auto simp: validate_attr_def attr_within_caps_def limit_defs split: attr_value.split)

lemma validate_attributes_ok:
  "validate_attributes attrs = Inr () \<longleftrightarrow>
     length attrs \<le> 64 \<and> (\<forall>(k, v) \<in> set attrs. attr_within_caps k v) \<and> attrs_byte_size attrs \<le> 16384"
  by (auto simp: validate_attributes_def rbind_Inr_iff attrs_loop_totalal validate_attr_ok limit_defs)

section \<open>Events\<close>

definition MAX_BODY_BYTES :: nat where "MAX_BODY_BYTES = 2 ^ 20"
definition MAX_EVENT_ID_BYTES :: nat where "MAX_EVENT_ID_BYTES = 256"
definition MAX_TENANT_ID_BYTES :: nat where "MAX_TENANT_ID_BYTES = 128"
definition MAX_EVENT_NAME_BYTES :: nat where "MAX_EVENT_NAME_BYTES = 256"
definition MAX_TRACE_ID_BYTES :: nat where "MAX_TRACE_ID_BYTES = 128"
definition MAX_SPAN_ID_BYTES :: nat where "MAX_SPAN_ID_BYTES = 64"
definition MAX_IDEMPOTENCY_KEY_BYTES :: nat where "MAX_IDEMPOTENCY_KEY_BYTES = 256"

lemmas event_limit_defs = MAX_BODY_BYTES_def MAX_EVENT_ID_BYTES_def MAX_TENANT_ID_BYTES_def
  MAX_EVENT_NAME_BYTES_def MAX_TRACE_ID_BYTES_def MAX_SPAN_ID_BYTES_def
  MAX_IDEMPOTENCY_KEY_BYTES_def

record event =
  event_id :: string
  tenant_id :: string
  event_time :: i64
  observed_time :: i64
  event_name :: string
  cost :: f64
  error_flag :: bool
  body :: string
  trace_id :: string
  span_id :: string
  attributes :: attributes
  idempotency_key :: "string option"

definition dedup_key :: "event \<Rightarrow> string \<times> string" where
  "dedup_key e = (tenant_id e, case idempotency_key e of Some k \<Rightarrow> k | None \<Rightarrow> event_id e)"

definition le_bytes64 :: "u64 \<Rightarrow> byte list" where
  "le_bytes64 w = map (\<lambda>i. ucast (drop_bit (8 * i) w)) [0, 1, 2, 3, 4, 5, 6, 7]"

definition attr_content :: "string \<times> attr_value \<Rightarrow> byte list" where
  "attr_content kv = (case kv of (k, v) \<Rightarrow> as_bytes k @ [type_tag v] @ as_bytes (as_display v))"

definition content_bytes :: "event \<Rightarrow> byte list" where
  "content_bytes e =
     as_bytes (tenant_id e) @ le_bytes64 (word_of_int (event_time e)) @ as_bytes (event_name e)
     @ le_bytes64 (cost e) @ [if error_flag e then 1 else 0] @ as_bytes (body e)
     @ as_bytes (trace_id e) @ as_bytes (span_id e) @ concat (map attr_content (attributes e))"

definition content_hash :: "event \<Rightarrow> string" where
  "content_hash e = content_id (content_bytes e)"

definition event_byte_size :: "event \<Rightarrow> nat" where
  "event_byte_size e = length (event_id e) + length (tenant_id e) + length (event_name e)
     + length (body e) + length (trace_id e) + length (span_id e)
     + (case idempotency_key e of Some k \<Rightarrow> length k | None \<Rightarrow> 0)
     + attrs_byte_size (attributes e)"

definition check_identifier :: "string \<times> nat \<times> bool \<Rightarrow> rejection + unit" where
  "check_identifier f = (case f of (v, mx, may_be_empty) \<Rightarrow>
     if (\<not> may_be_empty \<and> v = []) \<or> mx < length v
     then Inl (Reject InvalidIdentifier ''identifier'') else Inr ())"

definition event_validate :: "event \<Rightarrow> rejection + unit" where
  "event_validate e =
     (if event_id e = [] then Inl (Reject MissingEventId ''event_id is empty'')
      else if tenant_id e = [] then Inl (Reject MissingTenantId ''tenant_id is empty'')
      else rbind (check_all check_identifier
          [(event_id e, MAX_EVENT_ID_BYTES, False), (tenant_id e, MAX_TENANT_ID_BYTES, False),
           (event_name e, MAX_EVENT_NAME_BYTES, False), (trace_id e, MAX_TRACE_ID_BYTES, True),
           (span_id e, MAX_SPAN_ID_BYTES, True)]) (\<lambda>_.
        if (case idempotency_key e of Some k \<Rightarrow> k = [] \<or> MAX_IDEMPOTENCY_KEY_BYTES < length k | None \<Rightarrow> False)
        then Inl (Reject InvalidIdentifier ''idempotency_key'')
        else if \<not> f64_is_finite (cost e) then Inl (Reject InvalidCost ''cost is not finite'')
        else if f64_lt (cost e) 0 then Inl (Reject InvalidCost ''cost is negative'')
        else if MAX_BODY_BYTES < length (body e) then Inl (Reject BodyTooLarge ''body too large'')
        else if trim_chars (utf8_chars (body e)) = [] then Inl (Reject EmptyBody ''body is empty'')
        else rbind (validate_attributes (attributes e)) (\<lambda>_. Inr ())))"

definition check_skew :: "event \<Rightarrow> i64 \<Rightarrow> rejection + unit" where
  "check_skew e now_ms =
     (let lateness = wrap_i64 (now_ms - event_time e) in
      if MAX_LATENESS_MS < lateness then Inl (Reject EventTimeTooLate ''late'')
      else if MAX_SKEW_AHEAD_MS < wrap_i64 (- lateness) then Inl (Reject EventTimeInFuture ''future'')
      else Inr ())"

definition validate_or_err :: "event \<Rightarrow> unit res" where
  "validate_or_err e = (case event_validate e of
       Inr _ \<Rightarrow> Inr ()
     | Inl (Reject r d) \<Rightarrow> Inl (Invalid (reject_as_str r @ '': '' @ d))
     | Inl Panicked \<Rightarrow> Inl (Invalid ''panic''))"

record dead_letter =
  dl_reason :: string
  dl_detail :: string
  dl_stage :: string
  dl_event :: event

subsection \<open>What a valid event is\<close>

definition valid_event :: "event \<Rightarrow> bool" where
  "valid_event e \<longleftrightarrow>
     1 \<le> length (event_id e) \<and> length (event_id e) \<le> 256 \<and>
     1 \<le> length (tenant_id e) \<and> length (tenant_id e) \<le> 128 \<and>
     1 \<le> length (event_name e) \<and> length (event_name e) \<le> 256 \<and>
     length (trace_id e) \<le> 128 \<and> length (span_id e) \<le> 64 \<and>
     (\<forall>k. idempotency_key e = Some k \<longrightarrow> 1 \<le> length k \<and> length k \<le> 256) \<and>
     f64_is_finite (cost e) \<and> 0 \<le> f64_key (cost e) \<and>
     length (body e) \<le> 2 ^ 20 \<and> (\<exists>c \<in> set (utf8_chars (body e)). \<not> is_whitespace c) \<and>
     length (attributes e) \<le> 64 \<and> attrs_byte_size (attributes e) \<le> 16384 \<and>
     (\<forall>(k, v) \<in> set (attributes e). attr_within_caps k v)"

lemma check_identifier_ok:
  "is_ok (check_identifier (v, m, b)) \<longleftrightarrow> (b \<or> v \<noteq> []) \<and> length v \<le> m"
  by (auto simp: check_identifier_def)

lemma f64_finite_not_nan: "f64_is_finite x \<Longrightarrow> \<not> f64_is_nan x"
  by (simp add: f64_is_finite_def f64_is_nan_def)

lemma f64_lt_zero: "f64_is_finite x \<Longrightarrow> f64_lt x 0 \<longleftrightarrow> f64_key x < 0"
proof -
  assume fin: "f64_is_finite x"
  have z: "f64_key 0 = 0" "\<not> f64_is_nan 0"
    by (simp_all add: f64_key_def f64_neg_def f64_mag_def f64_is_nan_def)
  show "f64_lt x 0 \<longleftrightarrow> f64_key x < 0"
    using f64_finite_not_nan [OF fin] z by (simp add: f64_lt_def f64_partial_cmp_def ord_cmp_def)
qed

lemma length_pos: "Suc 0 \<le> length xs \<longleftrightarrow> xs \<noteq> []"
  by (cases xs) simp_all

lemma event_validate_ok: "event_validate e = Inr () \<longleftrightarrow> valid_event e"
  unfolding event_validate_def valid_event_def
  by (cases "idempotency_key e")
    (auto simp: rbind_Inr_iff check_all_ok check_identifier_ok validate_attributes_ok f64_lt_zero
      trim_chars_empty_iff event_limit_defs length_pos not_less simp del: check_all.simps)

text \<open>The first entry over a cap decides the outcome of the loop.\<close>

lemma attrs_loop_panic:
  "attrs_loop attrs t = Inl Panicked \<longleftrightarrow>
     (case dropWhile (\<lambda>(k, v). attr_within_caps k v) attrs of
        (k, v) # _ \<Rightarrow> validate_attr k v = Inl Panicked | [] \<Rightarrow> False)"
proof (induction attrs t rule: attrs_loop.induct)
  case (2 k v rest t)
  then show ?case
    using validate_attr_ok [of k v] by (cases "validate_attr k v") simp_all
qed simp

lemma validate_attr_panic:
  "validate_attr k v = Inl Panicked \<longleftrightarrow>
     128 < length k \<and> 0x80 \<le> (of_char (k ! 32) :: nat) \<and> of_char (k ! 32) < (0xC0 :: nat)"
  by (auto simp: validate_attr_def limit_defs is_char_boundary_def Let_def min_def not_less not_le
      split: attr_value.splits if_splits)

lemma check_skew_ok:
  assumes "0 \<le> now" and "now < 2 ^ 62" and "i64_range (event_time e)"
  shows "check_skew e now = Inr () \<longleftrightarrow>
    (now - 604800000 \<le> event_time e \<and> event_time e \<le> now + 3600000) \<or>
    event_time e = now - 2 ^ 63"
proof -
  define d where "d = now - event_time e"
  have d: "- (2 ^ 63) < d" "d < 2 ^ 63 + 2 ^ 62"
    using assms unfolding d_def i64_range_def by linarith+
  define l where "l = wrap_i64 d"
  have l: "l = (if d < 2 ^ 63 then d else d - 2 ^ 64)"
    unfolding l_def using d by (subst wrap_i64_cases) auto
  have r: "i64_range l" by (simp add: l_def)
  have n: "wrap_i64 (- l) = (if l = - (2 ^ 63) then - (2 ^ 63) else - l)"
    using r by (subst wrap_i64_cases) (auto simp: i64_range_def)
  have "check_skew e now = Inr () \<longleftrightarrow> l \<le> 604800000 \<and> wrap_i64 (- l) \<le> 3600000"
    by (auto simp: check_skew_def l_def d_def Let_def limit_defs)
  also have "\<dots> \<longleftrightarrow> (- 3600000 \<le> l \<and> l \<le> 604800000) \<or> l = - (2 ^ 63)"
    unfolding n by auto
  also have "\<dots> \<longleftrightarrow> (- 3600000 \<le> d \<and> d \<le> 604800000) \<or> d = 2 ^ 63"
    unfolding l using d by auto
  finally show ?thesis by (auto simp: d_def)
qed

section \<open>Properties\<close>

text \<open>
  C21. Schema validation accepts exactly the events within the contract: identifiers of 1..256,
  1..128 and 1..256 bytes, optional trace context within its caps, a non-empty idempotency key when
  there is one, a finite non-negative cost, a body of at most 1 MiB with a non-blank character, and
  attributes within the key, value, count and total caps with finite doubles.
\<close>

theorem event_validate_correct: "event_validate e = Inr () \<longleftrightarrow> valid_event e"
  by (rule event_validate_ok)

text \<open>
  C38. For a clock reading in the first half of the representable future, the skew check accepts
  an event exactly when its time is at most seven days behind or one hour ahead, or, because
  the negation of the lateness wraps, when it lies exactly \<open>2^63\<close> milliseconds in the past.
\<close>

theorem check_skew_window:
  assumes "0 \<le> now" and "now < 2 ^ 62" and "i64_range (event_time e)"
  shows "check_skew e now = Inr () \<longleftrightarrow>
    (now - 604800000 \<le> event_time e \<and> event_time e \<le> now + 3600000) \<or>
    event_time e = now - 2 ^ 63"
  using assms by (rule check_skew_ok)

definition sample_event :: event where
  "sample_event = \<lparr>event_id = ''e1'', tenant_id = ''acme'', event_time = 1700000000000,
     observed_time = 1700000000500, event_name = ''llm.call'', cost = 0, error_flag = False,
     body = ''timeout'', trace_id = [], span_id = [], attributes = [], idempotency_key = None\<rparr>"

theorem check_skew_window_witness:
  "check_skew sample_event 1700000000500 = Inr () \<and>
   check_skew (sample_event\<lparr>event_time := 1700000000500 - 2 ^ 63\<rparr>) 1700000000500 = Inr ()"
  using check_skew_window [of 1700000000500 sample_event]
    check_skew_window [of 1700000000500 "sample_event\<lparr>event_time := 1700000000500 - 2 ^ 63\<rparr>"]
  by (simp add: sample_event_def i64_range_def)

text \<open>
  Attribute validation panics, instead of returning a reason, exactly when the first entry
  over a cap has a key of more than 128 bytes whose byte 32 is a UTF-8 continuation byte: the
  message slices the key at byte 32, which then is not a character boundary.
\<close>

lemma attribute_key_slice_panic:
  "validate_attributes attrs = Inl Panicked \<longleftrightarrow>
     length attrs \<le> 64 \<and>
     (case dropWhile (\<lambda>(k, v). attr_within_caps k v) attrs of
        [] \<Rightarrow> False
      | (k, v) # _ \<Rightarrow> 128 < length k \<and> 0x80 \<le> (of_char (k ! 32) :: nat) \<and> of_char (k ! 32) < (0xC0 :: nat))"
proof -
  have "validate_attributes attrs = Inl Panicked \<longleftrightarrow> length attrs \<le> 64 \<and> attrs_loop attrs 0 = Inl Panicked"
    by (cases "attrs_loop attrs 0") (auto simp: validate_attributes_def limit_defs)
  then show ?thesis unfolding attrs_loop_panic validate_attr_panic .
qed

text \<open>
  C40. The content hash ignores what a replay changes (arrival time, idempotency key, event id), but
  it also ignores the boundary between the body and the trace id: moving bytes from one to the
  other gives a different event with the same hash.
\<close>

theorem content_hash_ignores:
  "content_hash (e\<lparr>observed_time := t, idempotency_key := k, event_id := i\<rparr>) = content_hash e \<and>
   content_hash (e\<lparr>body := b @ x, trace_id := y\<rparr>) = content_hash (e\<lparr>body := b, trace_id := x @ y\<rparr>)"
  by (simp add: content_hash_def content_bytes_def as_bytes_def)

end
