(* ===== verification/Predicates.thy ===== *)
theory Predicates
  imports Events
begin

text \<open>
  Row predicates, \<open>prism-types/src/predicate.rs\<close>: three-valued evaluation over a row source, and the
  extraction of \<open>event_time\<close> bounds for zone-map pruning. The trait \<open>RowSource\<close> is a record of its
  two methods, so that a part and a plain event are both instances.
\<close>

datatype literal = LStr string | LInt i64 | LFloat f64 | LBool bool

datatype cmp_op = CEq | CNotEq | CLt | CLtEq | CGt | CGtEq

datatype predicate =
    Column string
  | Attribute string
  | Literal literal
  | Cmp predicate cmp_op predicate
  | And predicate predicate
  | Or predicate predicate
  | Not predicate
  | In predicate "literal list"

datatype val = VStr string | VInt i64 | VFloat f64 | VBool bool | VNull

fun from_attr :: "attr_value \<Rightarrow> val" where
  "from_attr (AStr s) = VStr s"
| "from_attr (AInt i) = VInt i"
| "from_attr (ADouble d) = VFloat d"
| "from_attr (ABool b) = VBool b"

fun from_literal :: "literal \<Rightarrow> val" where
  "from_literal (LStr s) = VStr s"
| "from_literal (LInt i) = VInt i"
| "from_literal (LFloat f) = VFloat f"
| "from_literal (LBool b) = VBool b"

fun as_f64 :: "val \<Rightarrow> f64 option" where
  "as_f64 (VInt i) = Some (i64_as_f64 i)"
| "as_f64 (VFloat f) = Some f"
| "as_f64 _ = None"

fun cmp_to :: "val \<Rightarrow> val \<Rightarrow> ordering option" where
  "cmp_to VNull _ = None"
| "cmp_to _ VNull = None"
| "cmp_to (VStr a) (VStr b) = Some (ord_cmp a b)"
| "cmp_to (VBool a) (VBool b) = Some (ord_cmp a b)"
| "cmp_to x y =
     (case as_f64 x of None \<Rightarrow> None | Some a \<Rightarrow>
      case as_f64 y of None \<Rightarrow> None | Some b \<Rightarrow> f64_partial_cmp a b)"

record row_source =
  rs_column :: "string \<Rightarrow> nat \<Rightarrow> val res"
  rs_attribute :: "string \<Rightarrow> nat \<Rightarrow> val res"

fun pvalue :: "predicate \<Rightarrow> row_source \<Rightarrow> nat \<Rightarrow> val res" where
  "pvalue (Column c) src row = rs_column src c row"
| "pvalue (Attribute k) src row = rs_attribute src k row"
| "pvalue (Literal l) src row = Inr (from_literal l)"
| "pvalue _ src row = Inl (Invalid ''expected a column or a literal'')"

fun and3 :: "bool option \<Rightarrow> bool option \<Rightarrow> bool option" where
  "and3 (Some False) _ = Some False"
| "and3 _ (Some False) = Some False"
| "and3 (Some True) (Some True) = Some True"
| "and3 _ _ = None"

fun or3 :: "bool option \<Rightarrow> bool option \<Rightarrow> bool option" where
  "or3 (Some True) _ = Some True"
| "or3 _ (Some True) = Some True"
| "or3 (Some False) (Some False) = Some False"
| "or3 _ _ = None"

fun apply_op :: "cmp_op \<Rightarrow> ordering \<Rightarrow> bool" where
  "apply_op CEq ord = (ord = Equal)"
| "apply_op CNotEq ord = (ord \<noteq> Equal)"
| "apply_op CLt ord = (ord = Less)"
| "apply_op CLtEq ord = (ord \<noteq> Greater)"
| "apply_op CGt ord = (ord = Greater)"
| "apply_op CGtEq ord = (ord \<noteq> Less)"

definition as_bool3 :: "val \<Rightarrow> bool option res" where
  "as_bool3 v = (case v of VBool b \<Rightarrow> Inr (Some b) | VNull \<Rightarrow> Inr None
     | _ \<Rightarrow> Inl (Invalid ''expression is not a boolean''))"

fun eval3 :: "predicate \<Rightarrow> row_source \<Rightarrow> nat \<Rightarrow> bool option res" where
  "eval3 (And a b) src row =
     rbind (eval3 a src row) (\<lambda>x. rbind (eval3 b src row) (\<lambda>y. Inr (and3 x y)))"
| "eval3 (Or a b) src row =
     rbind (eval3 a src row) (\<lambda>x. rbind (eval3 b src row) (\<lambda>y. Inr (or3 x y)))"
| "eval3 (Not a) src row = rbind (eval3 a src row) (\<lambda>x. Inr (map_option HOL.Not x))"
| "eval3 (Cmp l op r) src row =
     rbind (pvalue l src row) (\<lambda>a. rbind (pvalue r src row) (\<lambda>b.
       case cmp_to a b of None \<Rightarrow> Inr None | Some ord \<Rightarrow> Inr (Some (apply_op op ord))))"
| "eval3 (In l xs) src row =
     rbind (pvalue l src row) (\<lambda>a.
       if a = VNull then Inr None
       else Inr (Some (list_ex (\<lambda>x. cmp_to a (from_literal x) = Some Equal) xs)))"
| "eval3 (Column c) src row = rbind (pvalue (Column c) src row) as_bool3"
| "eval3 (Attribute k) src row = rbind (pvalue (Attribute k) src row) as_bool3"
| "eval3 (Literal l) src row = rbind (pvalue (Literal l) src row) as_bool3"

definition eval :: "predicate \<Rightarrow> row_source \<Rightarrow> nat \<Rightarrow> bool res" where
  "eval p src row = rbind (eval3 p src row) (\<lambda>x. Inr (x = Some True))"

section \<open>Time bounds\<close>

fun conjuncts :: "predicate \<Rightarrow> predicate list" where
  "conjuncts (And a b) = conjuncts a @ conjuncts b"
| "conjuncts p = [p]"

type_synonym bounds = "i64 option \<times> i64 option"

definition raise_lo :: "i64 \<Rightarrow> i64 option \<Rightarrow> i64 option" where
  "raise_lo v lo = Some (case lo of None \<Rightarrow> v | Some x \<Rightarrow> max x v)"

definition lower_hi :: "i64 \<Rightarrow> i64 option \<Rightarrow> i64 option" where
  "lower_hi v hi = Some (case hi of None \<Rightarrow> v | Some x \<Rightarrow> min x v)"

fun narrow :: "cmp_op \<Rightarrow> i64 \<Rightarrow> bounds \<Rightarrow> bounds" where
  "narrow CEq v (lo, hi) = (raise_lo v lo, lower_hi v hi)"
| "narrow CGt v (lo, hi) = (raise_lo (wrap_i64 (v + 1)) lo, hi)"
| "narrow CGtEq v (lo, hi) = (raise_lo v lo, hi)"
| "narrow CLt v (lo, hi) = (lo, lower_hi (wrap_i64 (v - 1)) hi)"
| "narrow CLtEq v (lo, hi) = (lo, lower_hi v hi)"
| "narrow CNotEq v (lo, hi) = (lo, hi)"

fun bound_step :: "bounds \<Rightarrow> predicate \<Rightarrow> bounds" where
  "bound_step b (Cmp (Column name) op (Literal (LInt v))) =
     (if name = ''event_time'' then narrow op v b else b)"
| "bound_step b _ = b"

definition time_bounds :: "predicate \<Rightarrow> bounds" where
  "time_bounds p = foldl bound_step (None, None) (conjuncts p)"

definition in_bounds :: "i64 \<Rightarrow> bounds \<Rightarrow> bool" where
  "in_bounds t b \<longleftrightarrow> (case fst b of None \<Rightarrow> True | Some lo \<Rightarrow> lo \<le> t) \<and>
     (case snd b of None \<Rightarrow> True | Some hi \<Rightarrow> t \<le> hi)"

text \<open>Every \<open>event_time\<close> literal of a conjunct is within \<open>m\<close>.\<close>

fun time_literal_small :: "int \<Rightarrow> predicate \<Rightarrow> bool" where
  "time_literal_small m (Cmp (Column name) op (Literal (LInt v))) = (name = ''event_time'' \<longrightarrow> \<bar>v\<bar> \<le> m)"
| "time_literal_small m _ = True"

section \<open>Lemmas\<close>

lemma and3_true [simp]: "and3 x y = Some True \<longleftrightarrow> x = Some True \<and> y = Some True"
  by (induction x y rule: and3.induct) auto

lemma or3_true [simp]: "or3 x y = Some True \<longleftrightarrow> x = Some True \<or> y = Some True"
  by (induction x y rule: or3.induct) auto

lemma not_and3: "map_option HOL.Not (and3 x y) = or3 (map_option HOL.Not x) (map_option HOL.Not y)"
  by (induction x y rule: and3.induct) auto

lemma eval_true: "eval p src row = Inr True \<longleftrightarrow> eval3 p src row = Inr (Some True)"
  by (auto simp: eval_def rbind_Inr_iff)

lemma eval3_conjuncts:
  "eval3 p src row = Inr (Some True) \<Longrightarrow> c \<in> set (conjuncts p) \<Longrightarrow> eval3 c src row = Inr (Some True)"
  by (induction p rule: conjuncts.induct) (auto simp: rbind_Inr_iff)

lemma in_bounds_raise [simp]:
  "in_bounds t (raise_lo v lo, hi) \<longleftrightarrow> v \<le> t \<and> in_bounds t (lo, hi)"
  by (auto simp: in_bounds_def raise_lo_def split: option.splits)

lemma in_bounds_lower [simp]:
  "in_bounds t (lo, lower_hi v hi) \<longleftrightarrow> t \<le> v \<and> in_bounds t (lo, hi)"
  by (auto simp: in_bounds_def lower_hi_def split: option.splits)

lemma wrap_small: "\<bar>v\<bar> \<le> 2 ^ 53 \<Longrightarrow> wrap_i64 (v + 1) = v + 1 \<and> wrap_i64 (v - 1) = v - 1"
  by (auto simp: i64_range_def intro!: wrap_i64_id)

lemma narrow_sound:
  assumes "apply_op op (ord_cmp t v)" and "\<bar>v\<bar> \<le> 2 ^ 53" and "in_bounds t b"
  shows "in_bounds t (narrow op v b)"
proof -
  obtain lo hi where b: "b = (lo, hi)" by (cases b)
  have w: "wrap_i64 (v + 1) = v + 1" "wrap_i64 (v - 1) = v - 1"
    using wrap_small [OF assms(2)] by auto
  show ?thesis
    using assms(1,3) unfolding b
    by (cases op; cases t v rule: linorder_cases) (simp_all add: ord_cmp_def w)
qed

lemma bound_step_sound:
  assumes "eval3 c src row = Inr (Some True)" and "rs_column src ''event_time'' row = Inr (VInt t)"
    and "\<bar>t\<bar> \<le> 2 ^ 53" and "time_literal_small (2 ^ 53) c" and "in_bounds t b"
  shows "in_bounds t (bound_step b c)"
  using assms
proof (induction b c rule: bound_step.induct)
  case (1 b name op v)
  show ?case
  proof (cases "name = ''event_time''")
    case True
    then have "\<bar>v\<bar> \<le> 2 ^ 53" using 1 by simp
    then show ?thesis
      using 1 True by (simp add: i64_cmp_exact narrow_sound)
  qed (use 1 in simp)
qed simp_all

lemma bounds_fold_sound:
  assumes "rs_column src ''event_time'' row = Inr (VInt t)" and "\<bar>t\<bar> \<le> 2 ^ 53"
    and "\<And>c. c \<in> set cs \<Longrightarrow> eval3 c src row = Inr (Some True) \<and> time_literal_small (2 ^ 53) c"
    and "in_bounds t b"
  shows "in_bounds t (foldl bound_step b cs)"
  using assms(3,4)
proof (induction cs arbitrary: b)
  case (Cons c cs)
  have "in_bounds t (bound_step b c)"
    by (rule bound_step_sound [OF _ assms(1,2)]) (use Cons.prems in auto)
  then show ?case using Cons by simp
qed simp

lemma in_eval3:
  "eval3 (In l xs) src row = Inr (Some True) \<longleftrightarrow>
     (\<exists>x \<in> set xs. eval3 (Cmp l CEq (Literal x)) src row = Inr (Some True))"
proof (cases "pvalue l src row")
  case (Inr a)
  then show ?thesis
    by (cases "a = VNull") (auto simp: list_ex_iff split: option.splits)
qed simp

section \<open>Properties\<close>

text \<open>
  C16. Pruning by \<open>event_time\<close> never loses a row, for times and literals up to \<open>2^53\<close> milliseconds: if a
  row satisfies the predicate then its time is within the extracted bounds.
\<close>

theorem time_bounds_sound:
  assumes "eval p src row = Inr True" and "rs_column src ''event_time'' row = Inr (VInt t)"
    and "\<bar>t\<bar> \<le> 2 ^ 53" and "list_all (time_literal_small (2 ^ 53)) (conjuncts p)"
  shows "in_bounds t (time_bounds p)"
proof -
  have "in_bounds t (None, None)" by (simp add: in_bounds_def)
  then show ?thesis
    unfolding time_bounds_def
    using assms eval3_conjuncts [of p src row]
    by (intro bounds_fold_sound) (auto simp: eval_true list_all_iff)
qed

definition time_source :: "i64 \<Rightarrow> row_source" where
  "time_source t = \<lparr>rs_column = (\<lambda>c row. if c = ''event_time'' then Inr (VInt t) else Inr VNull),
     rs_attribute = (\<lambda>k row. Inr VNull)\<rparr>"

definition time_window :: "i64 \<Rightarrow> i64 \<Rightarrow> predicate" where
  "time_window a b = And (Cmp (Column ''event_time'') CGtEq (Literal (LInt a)))
     (Cmp (Column ''event_time'') CLt (Literal (LInt b)))"

theorem time_bounds_sound_witness:
  "in_bounds 1500 (time_bounds (time_window 1000 2000)) \<and>
   time_bounds (time_window 1000 2000) = (Some 1000, Some 1999)"
proof -
  have "eval (time_window 1000 2000) (time_source 1500) 0 = Inr True"
    by (simp add: eval_true time_window_def time_source_def i64_cmp_exact ord_cmp_def)
  moreover have "rs_column (time_source 1500) ''event_time'' 0 = Inr (VInt 1500)"
    by (simp add: time_source_def)
  moreover have "list_all (time_literal_small (2 ^ 53)) (conjuncts (time_window 1000 2000))"
    by (simp add: time_window_def)
  ultimately have "in_bounds 1500 (time_bounds (time_window 1000 2000))"
    by (intro time_bounds_sound [where src = "time_source 1500" and row = 0]) simp_all
  then show ?thesis
    by (simp add: time_bounds_def time_window_def raise_lo_def lower_hi_def i64_range_def)
qed

text \<open>
  C37. Negation is Kleene's: \<open>NOT\<close> distributes over \<open>AND\<close>, is an involution, and a comparison with an
  absent attribute is not true and neither is its negation.
\<close>

theorem three_valued_negation:
  "eval (Not (And a b)) src row = eval (Or (Not a) (Not b)) src row \<and>
   eval (Not (Not a)) src row = eval a src row \<and>
   (let absent = src\<lparr>rs_attribute := (\<lambda>_ _. Inr VNull)\<rparr> in
    eval (Cmp (Attribute k) op (Literal l)) absent row = Inr False \<and>
    eval (Not (Cmp (Attribute k) op (Literal l))) absent row = Inr False)"
proof -
  have "eval (Not (And a b)) src row = eval (Or (Not a) (Not b)) src row"
    unfolding eval_def by (cases "eval3 a src row"; cases "eval3 b src row") (simp_all add: not_and3)
  moreover have "eval (Not (Not a)) src row = eval a src row"
    unfolding eval_def by (cases "eval3 a src row") (auto simp: option.map_comp comp_def)
  ultimately show ?thesis by (simp add: eval_def)
qed

text \<open>
  \<open>x IN (l1, .., ln)\<close> is true exactly when one of the equalities \<open>x = li\<close> is true.
\<close>

lemma in_list_is_disjunction:
  "eval (In l xs) src row = Inr True \<longleftrightarrow>
     list_ex (\<lambda>x. eval (Cmp l CEq (Literal x)) src row = Inr True) xs"
  by (simp only: eval_true in_eval3 list_ex_iff)

text \<open>
  Evaluation compares integers as doubles while the bounds compare them exactly, so beyond \<open>2^53\<close>
  the bounds can exclude a row which the predicate accepts.
\<close>

lemma time_bounds_unsound_beyond_f64:
  "eval (Cmp (Column ''event_time'') CEq (Literal (LInt (2 ^ 53)))) (time_source (2 ^ 53 + 1)) 0 = Inr True \<and>
   \<not> in_bounds (2 ^ 53 + 1) (time_bounds (Cmp (Column ''event_time'') CEq (Literal (LInt (2 ^ 53)))))"
proof -
  have "i64_as_f64 (2 ^ 53 + 1) = i64_as_f64 (2 ^ 53)"
  proof -
    have "ilog2 (2 ^ 53 + 1) = 53" "ilog2 (2 ^ 53) = 53" by (rule ilog2_eqI; simp)+
    then have "f64_mag_of_ratio (2 ^ 53 + 1) 1 = f64_mag_of_ratio (2 ^ 53) 1"
      using f64_mag_of_nat [of "2 ^ 53 + 1"] f64_mag_of_nat [of "2 ^ 53"]
      by (simp add: int_sig_def rne_def)
    then show ?thesis by (simp add: i64_as_f64_def f64_of_ratio_def)
  qed
  moreover have "f64_partial_cmp (i64_as_f64 (2 ^ 53)) (i64_as_f64 (2 ^ 53)) = Some Equal"
    by (simp add: i64_cmp_exact)
  ultimately show ?thesis
    by (simp add: eval_true time_source_def time_bounds_def raise_lo_def lower_hi_def in_bounds_def)
qed

end
