(* ===== verification/SqlParser.thy ===== *)
theory SqlParser
  imports SqlLexer Predicates
begin

text \<open>
  The recursive-descent parser of \<open>prism-sql/src/parser.rs\<close> over the syntax of \<open>ast.rs\<close>. The state is
  the record of the code (tokens, position, depth); an operation returns the state and its result
  or the error. The expression grammar is mutually recursive, so its operations take fuel and answer
  \<open>None\<close> when it runs out; \<open>parse_fuel\<close> is shown to be always enough, so the statement parser
  never answers \<open>None\<close>.
\<close>

section \<open>Syntax\<close>

datatype agg = CountStar | Count string | Sum string | Avg string | Min string | Max string

datatype item = ItStar | ItColumn string | ItAttribute string | ItAgg agg

record semantic =
  sem_text :: string

record controls =
  c_nprobe :: "nat option"
  c_candidates :: "nat option"
  c_rerank :: "nat option"

record select =
  items :: "item list"
  filter_expr :: "predicate option"
  semantic_pred :: "semantic option"
  group_by :: "string list"
  limit :: "nat option"
  controls_of :: controls

section \<open>Token access\<close>

record parser =
  toks :: "tok list"
  pos :: nat
  depth :: nat

type_synonym 'a pres = "(parser \<times> 'a) res"

definition parser_new :: "tok list \<Rightarrow> parser" where
  "parser_new ts = \<lparr>toks = ts, pos = 0, depth = 0\<rparr>"

definition tok_at :: "parser \<Rightarrow> nat \<Rightarrow> tok option" where
  "tok_at p i = (if i < length (toks p) then Some (toks p ! i) else None)"

definition peek :: "parser \<Rightarrow> tok option" where
  "peek p = tok_at p (pos p)"

definition advance :: "nat \<Rightarrow> parser \<Rightarrow> parser" where
  "advance n p = p\<lparr>pos := pos p + n\<rparr>"

definition bump :: "parser \<Rightarrow> parser" where
  "bump p = p\<lparr>pos := pos p + 1\<rparr>"

definition next_tok :: "parser \<Rightarrow> parser \<times> tok option" where
  "next_tok p = (case peek p of None \<Rightarrow> (p, None) | Some t \<Rightarrow> (bump p, Some t))"

definition ascii_lower :: "char \<Rightarrow> char" where
  "ascii_lower c = (if (65 :: nat) \<le> of_char c \<and> of_char c \<le> (90 :: nat) then char_of (of_char c + 32 :: nat) else c)"

definition to_ascii_lowercase :: "string \<Rightarrow> string" where
  "to_ascii_lowercase s = map ascii_lower s"

definition eq_ignore_ascii_case :: "string \<Rightarrow> string \<Rightarrow> bool" where
  "eq_ignore_ascii_case a b \<longleftrightarrow> to_ascii_lowercase a = to_ascii_lowercase b"

definition ident_is :: "tok option \<Rightarrow> string \<Rightarrow> bool" where
  "ident_is t kw = (case t of Some (TIdent s) \<Rightarrow> eq_ignore_ascii_case s kw | _ \<Rightarrow> False)"

definition is_kw :: "string \<Rightarrow> parser \<Rightarrow> bool" where
  "is_kw kw p = ident_is (peek p) kw"

definition eat_kw :: "string \<Rightarrow> parser \<Rightarrow> parser \<times> bool" where
  "eat_kw kw p = (if is_kw kw p then (bump p, True) else (p, False))"

definition expect_kw :: "string \<Rightarrow> parser \<Rightarrow> unit pres" where
  "expect_kw kw p = (case eat_kw kw p of (p, b) \<Rightarrow>
     if b then Inr (p, ()) else Inl (Invalid ''expected keyword''))"

definition eat :: "tok \<Rightarrow> parser \<Rightarrow> parser \<times> bool" where
  "eat t p = (if peek p = Some t then (bump p, True) else (p, False))"

definition expect_tok :: "tok \<Rightarrow> parser \<Rightarrow> unit pres" where
  "expect_tok t p = (if peek p = Some t then Inr (bump p, ()) else Inl (Invalid ''expected token''))"

section \<open>Literals and attribute keys\<close>

definition parse_literal :: "parser \<Rightarrow> literal pres" where
  "parse_literal p = (case next_tok p of
       (p, Some (TStr s)) \<Rightarrow> Inr (p, LStr s)
     | (p, Some (TInt i)) \<Rightarrow> Inr (p, LInt i)
     | (p, Some (TFloat f)) \<Rightarrow> Inr (p, LFloat f)
     | (p, Some (TIdent s)) \<Rightarrow>
         if eq_ignore_ascii_case s ''true'' then Inr (p, LBool True)
         else if eq_ignore_ascii_case s ''false'' then Inr (p, LBool False)
         else Inl (Invalid ''expected a literal'')
     | _ \<Rightarrow> Inl (Invalid ''expected a literal''))"

definition attribute_key :: "parser \<Rightarrow> string pres" where
  "attribute_key p =
     rbind (expect_tok LBracket p) (\<lambda>(p, _).
       case next_tok p of
         (p, Some (TStr s)) \<Rightarrow> rbind (expect_tok RBracket p) (\<lambda>(p, _). Inr (p, s))
       | _ \<Rightarrow> Inl (Invalid ''attributes[...] wants a string key''))"

text \<open>The loop of \<open>IN (...)\<close>; the cap on the list bounds the iterations.\<close>

function in_list :: "parser \<Rightarrow> literal list \<Rightarrow> literal list pres" where
  "in_list p xs =
     (if MAX_IN_LIST \<le> length xs then Inl (Invalid ''IN list too long'')
      else rbind (parse_literal p) (\<lambda>(p, l).
        case eat Comma p of (p, comma) \<Rightarrow>
          if comma then in_list p (xs @ [l]) else Inr (p, xs @ [l])))"
  by pat_completeness auto
termination by (relation "measure (\<lambda>(_, xs). MAX_IN_LIST - length xs)") auto

declare in_list.simps [simp del]

section \<open>Expressions\<close>

type_synonym 'a fres = "'a pres option"

definition fbind :: "'a fres \<Rightarrow> (parser \<Rightarrow> 'a \<Rightarrow> 'b fres) \<Rightarrow> 'b fres" where
  "fbind m f = (case m of None \<Rightarrow> None | Some (Inl e) \<Rightarrow> Some (Inl e) | Some (Inr (p, x)) \<Rightarrow> f p x)"

text \<open>\<open>deeper\<close>: on an error the state is dropped together with the statement.\<close>

definition deeper :: "(parser \<Rightarrow> 'a fres) \<Rightarrow> parser \<Rightarrow> 'a fres" where
  "deeper f p =
     (let p = p\<lparr>depth := depth p + 1\<rparr> in
      if MAX_EXPR_DEPTH < depth p then Some (Inl (Invalid ''expression nests too deep''))
      else fbind (f p) (\<lambda>p x. Some (Inr (p\<lparr>depth := depth p - 1\<rparr>, x))))"

definition is_semantic_at :: "parser \<Rightarrow> nat \<Rightarrow> bool" where
  "is_semantic_at p i \<longleftrightarrow> ident_is (tok_at p i) ''embedding'' \<and> tok_at p (i + 1) = Some Approx"

definition is_semantic_ahead :: "parser \<Rightarrow> bool" where
  "is_semantic_ahead p = is_semantic_at p (pos p)"

definition semantic_follows_and :: "parser \<Rightarrow> bool" where
  "semantic_follows_and p = is_semantic_at p (pos p + 1)"

definition cmp_op_of :: "tok option \<Rightarrow> (cmp_op option) res" where
  "cmp_op_of t = (case t of
       Some TEq \<Rightarrow> Inr (Some CEq) | Some TNotEq \<Rightarrow> Inr (Some CNotEq)
     | Some TLt \<Rightarrow> Inr (Some CLt) | Some TLtEq \<Rightarrow> Inr (Some CLtEq)
     | Some TGt \<Rightarrow> Inr (Some CGt) | Some TGtEq \<Rightarrow> Inr (Some CGtEq)
     | Some Approx \<Rightarrow> Inl (Invalid ''similarity only at the top level'')
     | _ \<Rightarrow> Inr None)"

fun or_expr :: "nat \<Rightarrow> parser \<Rightarrow> predicate fres"
  and or_loop :: "nat \<Rightarrow> parser \<Rightarrow> predicate \<Rightarrow> predicate fres"
  and and_expr :: "nat \<Rightarrow> parser \<Rightarrow> predicate fres"
  and and_loop :: "nat \<Rightarrow> parser \<Rightarrow> predicate \<Rightarrow> predicate fres"
  and unary :: "nat \<Rightarrow> parser \<Rightarrow> predicate fres"
  and cmp :: "nat \<Rightarrow> parser \<Rightarrow> predicate fres"
  and primary :: "nat \<Rightarrow> parser \<Rightarrow> predicate fres" where
  "or_expr 0 p = None"
| "or_expr (Suc n) p = fbind (deeper (and_expr n) p) (\<lambda>p lhs. or_loop n p lhs)"
| "or_loop 0 p lhs = None"
| "or_loop (Suc n) p lhs =
     (case eat_kw ''OR'' p of (p, b) \<Rightarrow>
        if b then fbind (deeper (and_expr n) p) (\<lambda>p rhs. or_loop n p (Or lhs rhs))
        else Some (Inr (p, lhs)))"
| "and_expr 0 p = None"
| "and_expr (Suc n) p = fbind (deeper (unary n) p) (\<lambda>p lhs. and_loop n p lhs)"
| "and_loop 0 p lhs = None"
| "and_loop (Suc n) p lhs =
     (if is_kw ''AND'' p \<and> \<not> semantic_follows_and p
      then fbind (deeper (unary n) (bump p)) (\<lambda>p rhs. and_loop n p (And lhs rhs))
      else Some (Inr (p, lhs)))"
| "unary 0 p = None"
| "unary (Suc n) p =
     (case eat_kw ''NOT'' p of (p, b) \<Rightarrow>
        if b then fbind (deeper (unary n) p) (\<lambda>p e. Some (Inr (p, Not e)))
        else deeper (cmp n) p)"
| "cmp 0 p = None"
| "cmp (Suc n) p =
     fbind (deeper (primary n) p) (\<lambda>p lhs.
       case eat_kw ''IN'' p of (p, b) \<Rightarrow>
         if b then
           Some (rbind (expect_tok LParen p) (\<lambda>(p, _).
             rbind (in_list p []) (\<lambda>(p, xs).
             rbind (expect_tok RParen p) (\<lambda>(p, _). Inr (p, In lhs xs)))))
         else (case cmp_op_of (peek p) of
             Inl e \<Rightarrow> Some (Inl e)
           | Inr None \<Rightarrow> Some (Inr (p, lhs))
           | Inr (Some op) \<Rightarrow>
               fbind (deeper (primary n) (bump p)) (\<lambda>p rhs. Some (Inr (p, Cmp lhs op rhs)))))"
| "primary 0 p = None"
| "primary (Suc n) p =
     (case eat LParen p of (p, b) \<Rightarrow>
        if b then
          fbind (deeper (or_expr n) p) (\<lambda>p e.
            Some (rbind (expect_tok RParen p) (\<lambda>(p, _). Inr (p, e))))
        else Some (case peek p of
            Some (TIdent name) \<Rightarrow>
              (let lower = to_ascii_lowercase name in
               if lower = ''true'' then Inr (bump p, Literal (LBool True))
               else if lower = ''false'' then Inr (bump p, Literal (LBool False))
               else if lower = ''attributes'' \<and> tok_at p (pos p + 1) = Some LBracket then
                 rbind (attribute_key (bump p)) (\<lambda>(p, k). Inr (p, Attribute k))
               else Inr (bump p, Column name))
          | Some (TStr _) \<Rightarrow> rbind (parse_literal p) (\<lambda>(p, l). Inr (p, Literal l))
          | Some (TInt _) \<Rightarrow> rbind (parse_literal p) (\<lambda>(p, l). Inr (p, Literal l))
          | Some (TFloat _) \<Rightarrow> rbind (parse_literal p) (\<lambda>(p, l). Inr (p, Literal l))
          | _ \<Rightarrow> Inl (Invalid ''expected a column or a literal'')))"

text \<open>Fuel: every call either goes one level deeper or follows a token eaten by a loop.\<close>

definition parse_fuel :: "parser \<Rightarrow> nat" where
  "parse_fuel p = (MAX_EXPR_DEPTH + 2) * (length (toks p) + 2)"

definition expr :: "parser \<Rightarrow> predicate fres" where
  "expr p = deeper (or_expr (parse_fuel p)) p"

section \<open>The statement\<close>

definition reduce_and :: "predicate list \<Rightarrow> predicate option" where
  "reduce_and es = (case es of [] \<Rightarrow> None | e # r \<Rightarrow> Some (foldl And e r))"

fun where_loop :: "nat \<Rightarrow> parser \<Rightarrow> semantic option \<Rightarrow> predicate list \<Rightarrow>
    (predicate option \<times> semantic option) fres" where
  "where_loop 0 p sem cs = None"
| "where_loop (Suc n) p sem cs =
     fbind
       (if is_semantic_ahead p then
          Some (case next_tok (advance 2 p) of
              (p, Some (TStr s)) \<Rightarrow>
                if sem \<noteq> None then Inl (Invalid ''two semantic predicates'')
                else if trim_chars (utf8_chars s) = [] then Inl (Invalid ''semantic text is empty'')
                else Inr (p, (Some \<lparr>sem_text = s\<rparr>, cs))
            | _ \<Rightarrow> Inl (Invalid ''similarity wants a string''))
        else fbind (expr p) (\<lambda>p e. Some (Inr (p, (sem, cs @ [e])))))
       (\<lambda>p (sem, cs).
          case eat_kw ''AND'' p of (p, b) \<Rightarrow>
            if b then where_loop n p sem cs
            else Some (Inr (p, (reduce_and cs, sem))))"

definition where_clause :: "parser \<Rightarrow> (predicate option \<times> semantic option) fres" where
  "where_clause p = where_loop (length (toks p) + 1) p None []"

definition agg_of :: "string \<Rightarrow> string \<Rightarrow> agg" where
  "agg_of lower col =
     (if lower = ''count'' then Count col else if lower = ''sum'' then Sum col
      else if lower = ''avg'' then Avg col else if lower = ''min'' then Min col else Max col)"

definition parse_agg :: "string \<Rightarrow> parser \<Rightarrow> item pres" where
  "parse_agg lower p =
     (case (if lower = ''count'' then eat Star p else (p, False)) of (p, star) \<Rightarrow>
      if star then rbind (expect_tok RParen p) (\<lambda>(p, _). Inr (p, ItAgg CountStar))
      else (case next_tok p of
          (p, Some (TIdent col)) \<Rightarrow>
            rbind (expect_tok RParen p) (\<lambda>(p, _). Inr (p, ItAgg (agg_of lower col)))
        | _ \<Rightarrow> Inl (Invalid ''aggregate wants a column'')))"

definition parse_item :: "parser \<Rightarrow> item pres" where
  "parse_item p = (case eat Star p of (p, star) \<Rightarrow>
     if star then Inr (p, ItStar)
     else (case peek p of
         Some (TIdent name) \<Rightarrow>
           (let lower = to_ascii_lowercase name in
            if lower \<in> {''count'', ''sum'', ''avg'', ''min'', ''max''} \<and> tok_at p (pos p + 1) = Some LParen
            then parse_agg lower (advance 2 p)
            else if lower = ''attributes'' \<and> tok_at p (pos p + 1) = Some LBracket
            then rbind (attribute_key (bump p)) (\<lambda>(p, k). Inr (p, ItAttribute k))
            else (case eat_kw ''AS'' (bump p) of (p, as) \<Rightarrow>
              if as then (case next_tok p of
                  (p, Some (TIdent _)) \<Rightarrow> Inr (p, ItColumn name)
                | _ \<Rightarrow> Inl (Invalid ''expected an alias''))
              else Inr (p, ItColumn name)))
       | _ \<Rightarrow> Inl (Invalid ''expected a column, * or an aggregate'')))"

function parse_items :: "parser \<Rightarrow> item list \<Rightarrow> item list pres" where
  "parse_items p out =
     (if MAX_PROJECTIONS \<le> length out then Inl (Invalid ''too many projections'')
      else rbind (parse_item p) (\<lambda>(p, i).
        case eat Comma p of (p, comma) \<Rightarrow>
          if comma then parse_items p (out @ [i]) else Inr (p, out @ [i])))"
  by pat_completeness auto
termination by (relation "measure (\<lambda>(_, out). MAX_PROJECTIONS - length out)") auto

function parse_group_keys :: "parser \<Rightarrow> string list \<Rightarrow> string list pres" where
  "parse_group_keys p out =
     (case next_tok p of
        (p, Some (TIdent c)) \<Rightarrow>
          if MAX_GROUP_KEYS \<le> length out then Inl (Invalid ''too many GROUP BY keys'')
          else (case eat Comma p of (p, comma) \<Rightarrow>
            if comma then parse_group_keys p (out @ [c]) else Inr (p, out @ [c]))
      | _ \<Rightarrow> Inl (Invalid ''expected a column in GROUP BY''))"
  by pat_completeness auto
termination by (relation "measure (\<lambda>(_, out). MAX_GROUP_KEYS - length out)") auto

definition set_control :: "string \<Rightarrow> nat \<Rightarrow> controls \<Rightarrow> controls res" where
  "set_control name v c =
     (let lower = to_ascii_lowercase name in
      if lower = ''nprobe'' then Inr (c\<lparr>c_nprobe := Some v\<rparr>)
      else if lower = ''candidates'' then Inr (c\<lparr>c_candidates := Some v\<rparr>)
      else if lower = ''rerank'' then Inr (c\<lparr>c_rerank := Some v\<rparr>)
      else Inl (Invalid ''unknown control''))"

text \<open>One control, \<open>name = value\<close>.\<close>

definition parse_control :: "parser \<Rightarrow> controls \<Rightarrow> controls pres" where
  "parse_control p c =
     (case next_tok p of
        (p, Some (TIdent name)) \<Rightarrow>
          rbind (expect_tok TEq p) (\<lambda>(p, _).
            case next_tok p of
              (p, Some (TInt v)) \<Rightarrow>
                if 0 < v then rbind (set_control name (nat v) c) (\<lambda>c. Inr (p, c))
                else Inl (Invalid ''control wants a positive integer'')
            | _ \<Rightarrow> Inl (Invalid ''control wants a positive integer''))
      | _ \<Rightarrow> Inl (Invalid ''expected a control name''))"

lemma next_tok_Some: "next_tok p = (q, Some t) \<longleftrightarrow> peek p = Some t \<and> q = bump p"
  by (auto simp: next_tok_def split: option.splits)

lemma advance_simps [simp]:
  "toks (advance n p) = toks p" "pos (advance n p) = pos p + n" "depth (advance n p) = depth p"
  "toks (bump p) = toks p" "pos (bump p) = pos p + 1" "depth (bump p) = depth p"
  by (simp_all add: advance_def bump_def)

lemma eat_case:
  "(case eat t p of (q, b) \<Rightarrow> f q b) = (if peek p = Some t then f (bump p) True else f p False)"
  by (simp add: eat_def)

lemma eat_kw_case:
  "(case eat_kw kw p of (q, b) \<Rightarrow> f q b) = (if is_kw kw p then f (bump p) True else f p False)"
  by (simp add: eat_kw_def)

lemma next_case:
  "(case next_tok p of (q, t) \<Rightarrow> f q t) =
   (case peek p of None \<Rightarrow> f p None | Some t \<Rightarrow> f (bump p) (Some t))"
  by (simp add: next_tok_def split: option.split)

lemma peek_less: "peek p = Some t \<Longrightarrow> pos p < length (toks p)"
  by (auto simp: peek_def tok_at_def split: if_splits)

text \<open>\<open>stays p q\<close>: the operation kept the tokens and the depth and did not move backwards.\<close>

definition stays :: "parser \<Rightarrow> parser \<Rightarrow> bool" where
  "stays p q \<longleftrightarrow> toks q = toks p \<and> depth q = depth p \<and> pos p \<le> pos q \<and> (pos p \<le> length (toks p) \<longrightarrow> pos q \<le> length (toks p))"

lemma stays_refl [simp]: "stays p p"
  by (simp add: stays_def)

lemma stays_trans: "stays p q \<Longrightarrow> stays q r \<Longrightarrow> stays p r"
  by (auto simp: stays_def)

lemma stays_bump: "peek p = Some t \<Longrightarrow> stays p (bump p)"
  using peek_less [of p t] by (simp add: stays_def)

lemma expect_tok_ok: "expect_tok t p = Inr (q, u) \<longleftrightarrow> peek p = Some t \<and> q = bump p"
  by (auto simp: expect_tok_def)

lemma eat_eq: "eat t p = (q, b) \<longleftrightarrow> b = (peek p = Some t) \<and> q = (if b then bump p else p)"
  by (auto simp: eat_def)

lemma is_kw_peek: "is_kw kw p \<Longrightarrow> \<exists>s. peek p = Some (TIdent s)"
  by (auto simp: is_kw_def ident_is_def split: option.splits tok.splits)

lemma eat_kw_eq: "eat_kw kw p = (q, b) \<longleftrightarrow> b = is_kw kw p \<and> q = (if b then bump p else p)"
  by (auto simp: eat_kw_def)

lemma parse_control_ok: "parse_control p c = Inr (q, c') \<Longrightarrow> toks q = toks p \<and> pos q = pos p + 3 \<and> pos q \<le> length (toks p) \<and> depth q = depth p"
  by (auto simp: parse_control_def next_tok_Some expect_tok_ok res_simps dest!: peek_less
      split: prod.splits option.splits tok.splits if_splits)

function controls_loop :: "parser \<Rightarrow> controls \<Rightarrow> controls pres" where
  "controls_loop p c =
     rbind (parse_control p c) (\<lambda>(p, c).
       case eat Comma p of (p, comma) \<Rightarrow> if comma then controls_loop p c else Inr (p, c))"
  by pat_completeness auto
termination
  by (relation "measure (\<lambda>(p, _). length (toks p) - pos p)")
    (auto simp: eat_def dest!: parse_control_ok peek_less split: if_splits)

declare parse_items.simps [simp del] parse_group_keys.simps [simp del] controls_loop.simps [simp del]

definition controls_default :: controls where
  "controls_default = \<lparr>c_nprobe = None, c_candidates = None, c_rerank = None\<rparr>"

definition parse_controls :: "parser \<Rightarrow> controls pres" where
  "parse_controls p = (case eat_kw ''WITH'' p of (p, b) \<Rightarrow>
     if \<not> b then Inr (p, controls_default)
     else rbind (expect_tok LParen p) (\<lambda>(p, _).
       rbind (controls_loop p controls_default) (\<lambda>(p, c).
       rbind (expect_tok RParen p) (\<lambda>(p, _). Inr (p, c)))))"

definition parse_from :: "parser \<Rightarrow> unit pres" where
  "parse_from p = rbind (expect_kw ''FROM'' p) (\<lambda>(p, _).
     case next_tok p of
       (p, Some (TIdent t)) \<Rightarrow>
         if eq_ignore_ascii_case t ''events'' then Inr (p, ()) else Inl (Invalid ''the only table is events'')
     | _ \<Rightarrow> Inl (Invalid ''the only table is events''))"

definition parse_group :: "parser \<Rightarrow> string list pres" where
  "parse_group p = (case eat_kw ''GROUP'' p of (p, b) \<Rightarrow>
     if b then rbind (expect_kw ''BY'' p) (\<lambda>(p, _). parse_group_keys p []) else Inr (p, []))"

text \<open>The chain of \<open>&&\<close> stops at the first token which is not the expected one.\<close>

definition parse_order :: "parser \<Rightarrow> unit pres" where
  "parse_order p = (case eat_kw ''ORDER'' p of (p, b) \<Rightarrow>
     if \<not> b then Inr (p, ())
     else rbind (expect_kw ''BY'' p) (\<lambda>(p, _).
       case eat_kw ''score'' p of (p, b1) \<Rightarrow>
       case (if b1 then eat_kw ''DESC'' p else (p, False)) of (p, b2) \<Rightarrow>
       case (if b2 then eat Comma p else (p, False)) of (p, b3) \<Rightarrow>
       case (if b3 then eat_kw ''event_id'' p else (p, False)) of (p, b4) \<Rightarrow>
       case (if b4 then eat_kw ''ASC'' p else (p, False)) of (p, ok) \<Rightarrow>
         if ok then Inr (p, ()) else Inl (Invalid ''results have one total order'')))"

definition parse_limit :: "parser \<Rightarrow> nat option pres" where
  "parse_limit p = (case eat_kw ''LIMIT'' p of (p, b) \<Rightarrow>
     if \<not> b then Inr (p, None)
     else (case next_tok p of
         (p, Some (TInt n)) \<Rightarrow>
           if 0 \<le> n then Inr (p, Some (nat n)) else Inl (Invalid ''LIMIT wants a non-negative integer'')
       | _ \<Rightarrow> Inl (Invalid ''LIMIT wants a non-negative integer'')))"

text \<open>What follows the \<open>WHERE\<close> clause.\<close>

definition parse_tail :: "parser \<Rightarrow> (string list \<times> nat option \<times> controls) res" where
  "parse_tail p =
     rbind (parse_group p) (\<lambda>(p, g).
     rbind (parse_order p) (\<lambda>(p, _).
     rbind (parse_limit p) (\<lambda>(p, l).
       if is_kw ''OFFSET'' p then Inl (Invalid ''OFFSET is not supported'')
       else rbind (parse_controls p) (\<lambda>(p, c).
         if peek p \<noteq> None then Inl (Invalid ''unexpected token after the end'')
         else Inr (g, l, c)))))"

definition parse_where :: "parser \<Rightarrow> (predicate option \<times> semantic option) fres" where
  "parse_where p = (case eat_kw ''WHERE'' p of (p, b) \<Rightarrow>
     if b then where_clause p else Some (Inr (p, (None, None))))"

definition parse_select :: "parser \<Rightarrow> select res option" where
  "parse_select p =
     (case rbind (expect_kw ''SELECT'' p) (\<lambda>(p, _). rbind (parse_items p []) (\<lambda>(p, is).
            rbind (parse_from p) (\<lambda>(p, _). Inr (p, is)))) of
        Inl e \<Rightarrow> Some (Inl e)
      | Inr (p, is) \<Rightarrow>
          (case parse_where p of
             None \<Rightarrow> None
           | Some (Inl e) \<Rightarrow> Some (Inl e)
           | Some (Inr (p, (f, s))) \<Rightarrow>
               Some (rbind (parse_tail p) (\<lambda>(g, l, c).
                 Inr \<lparr>items = is, filter_expr = f, semantic_pred = s, group_by = g, limit = l,
                      controls_of = c\<rparr>))))"

definition parse :: "unicode \<Rightarrow> string \<Rightarrow> select res option" where
  "parse u sql = (case lex u sql of Inl e \<Rightarrow> Some (Inl e) | Inr ts \<Rightarrow> parse_select (parser_new ts))"

section \<open>Positions only move forward\<close>

definition fstays :: "parser \<Rightarrow> 'a fres \<Rightarrow> bool" where
  "fstays p m \<longleftrightarrow> (\<forall>q x. m = Some (Inr (q, x)) \<longrightarrow> stays p q)"

definition pstays :: "parser \<Rightarrow> 'a pres \<Rightarrow> bool" where
  "pstays p m \<longleftrightarrow> (\<forall>q x. m = Inr (q, x) \<longrightarrow> stays p q)"

named_theorems stays_intros \<open>operations which only move forward\<close>

lemma fstays_simps [simp]:
  "fstays p None" "fstays p (Some (Inl e))" "fstays p (Some (Inr (q, x))) \<longleftrightarrow> stays p q"
  "fstays p (Some m) \<longleftrightarrow> pstays p m" "pstays p (Inl e)" "pstays p (Inr (q, x)) \<longleftrightarrow> stays p q"
  by (auto simp: fstays_def pstays_def)

lemma fbind_Inr: "fbind m f = Some (Inr r) \<longleftrightarrow> (\<exists>q x. m = Some (Inr (q, x)) \<and> f q x = Some (Inr r))"
  by (auto simp: fbind_def split: option.splits sum.splits)

lemma fbind_None: "fbind m f = None \<longleftrightarrow> m = None \<or> (\<exists>q x. m = Some (Inr (q, x)) \<and> f q x = None)"
  by (auto simp: fbind_def split: option.splits sum.splits)

lemma fstays_fbind [stays_intros]:
  assumes "fstays p m" and "\<And>q x. m = Some (Inr (q, x)) \<Longrightarrow> fstays q (f q x)"
  shows "fstays p (fbind m f)"
  unfolding fstays_def
proof (intro allI impI)
  fix q x
  assume "fbind m f = Some (Inr (q, x))"
  then obtain r y where r: "m = Some (Inr (r, y))" "f r y = Some (Inr (q, x))" by (auto simp: fbind_Inr)
  then have "stays p r" "stays r q" using assms(1) assms(2) [OF r(1)] by (simp_all add: fstays_def)
  then show "stays p q" by (rule stays_trans)
qed

lemma pstays_rbind [stays_intros]:
  assumes "pstays p m" and "\<And>q x. m = Inr (q, x) \<Longrightarrow> pstays q (f (q, x))"
  shows "pstays p (rbind m f)"
  unfolding pstays_def
proof (intro allI impI)
  fix q x
  assume "rbind m f = Inr (q, x)"
  then obtain r y where r: "m = Inr (r, y)" "f (r, y) = Inr (q, x)" by (auto simp: rbind_Inr_iff)
  then have "stays p r" "stays r q" using assms(1) assms(2) [OF r(1)] by (simp_all add: pstays_def)
  then show "stays p q" by (rule stays_trans)
qed

lemma fstays_deeper [stays_intros]: "(\<And>p. fstays p (f p)) \<Longrightarrow> fstays p (deeper f p)"
proof -
  assume f: "\<And>p. fstays p (f p)"
  show "fstays p (deeper f p)"
    using f [of "p\<lparr>depth := depth p + 1\<rparr>"]
    by (auto simp: fstays_def deeper_def fbind_Inr Let_def stays_def split: if_splits)
qed

lemma pstays_bump: "peek p = Some t \<Longrightarrow> pstays (bump p) m \<Longrightarrow> pstays p m"
  unfolding pstays_def by (metis stays_trans stays_bump)

lemma fstays_bump: "peek p = Some t \<Longrightarrow> fstays (bump p) m \<Longrightarrow> fstays p m"
  unfolding fstays_def by (metis stays_trans stays_bump)

lemma fstays_bump_kw: "is_kw kw p \<Longrightarrow> fstays (bump p) m \<Longrightarrow> fstays p m"
  using is_kw_peek fstays_bump by metis

lemma fstays_kw:
  "(is_kw kw p \<Longrightarrow> fstays (bump p) m) \<Longrightarrow> (\<not> is_kw kw p \<Longrightarrow> fstays p m') \<Longrightarrow>
   fstays p (if is_kw kw p then m else m')"
  using fstays_bump_kw [of kw p m] by simp

lemma pstays_bump_kw: "is_kw kw p \<Longrightarrow> pstays (bump p) m \<Longrightarrow> pstays p m"
  using is_kw_peek pstays_bump by metis

lemma expect_tok_stays [stays_intros]: "pstays p (expect_tok t p)"
  by (auto simp: expect_tok_def stays_bump)

lemma expect_kw_stays [stays_intros]: "pstays p (expect_kw kw p)"
  using is_kw_peek [of kw p] by (auto simp: expect_kw_def eat_kw_case stays_bump)

lemma parse_literal_stays [stays_intros]: "pstays p (parse_literal p)"
  by (auto simp: parse_literal_def next_case stays_bump split: option.split tok.split)

lemma attribute_key_stays [stays_intros]: "pstays p (attribute_key p)"
  unfolding attribute_key_def
  by (auto simp: next_case intro!: stays_intros split: option.split tok.split elim!: pstays_bump)

lemma in_list_stays [stays_intros]: "pstays p (in_list p xs)"
proof (induction "MAX_IN_LIST - length xs" arbitrary: p xs rule: less_induct)
  case less
  have "pstays q (in_list (bump q) (xs @ [l]))" if "peek q = Some Comma" "\<not> MAX_IN_LIST \<le> length xs" for q l
  proof -
    have "MAX_IN_LIST - length (xs @ [l]) < MAX_IN_LIST - length xs" using that(2) by simp
    then show ?thesis by (intro pstays_bump [OF that(1)] less)
  qed
  then show ?case
    unfolding in_list.simps [of p xs] by (auto simp: eat_case intro!: stays_intros)
qed

lemma cmp_rest_stays:
  assumes "\<And>p. fstays p (primary n p)"
  shows "fstays p (case cmp_op_of (peek p) of
       Inl e \<Rightarrow> Some (Inl e)
     | Inr None \<Rightarrow> Some (Inr (p, lhs))
     | Inr (Some op) \<Rightarrow>
         fbind (deeper (primary n) (bump p)) (\<lambda>p rhs. Some (Inr (p, Cmp lhs op rhs))))"
proof (cases "peek p")
  case (Some t)
  have "fstays p (fbind (deeper (primary n) (bump p)) (\<lambda>p rhs. Some (Inr (p, Cmp lhs op rhs))))" for op
    by (rule fstays_bump [OF Some]) (auto intro!: stays_intros assms)
  then show ?thesis by (auto split: sum.split option.split)
qed (simp add: cmp_op_of_def)

lemma in_rest_stays:
  "pstays p (rbind (expect_tok LParen p) (\<lambda>(p, _). rbind (in_list p []) (\<lambda>(p, xs).
     rbind (expect_tok RParen p) (\<lambda>(p, _). Inr (p, In lhs xs)))))"
  by (auto intro!: stays_intros)

lemma expr_stays_all:
  "(\<forall>p. fstays p (or_expr n p)) \<and> (\<forall>p lhs. fstays p (or_loop n p lhs)) \<and>
   (\<forall>p. fstays p (and_expr n p)) \<and> (\<forall>p lhs. fstays p (and_loop n p lhs)) \<and>
   (\<forall>p. fstays p (unary n p)) \<and> (\<forall>p. fstays p (cmp n p)) \<and> (\<forall>p. fstays p (primary n p))"
proof (induction n)
  case (Suc n)
  then have ih [stays_intros]: "\<And>p. fstays p (or_expr n p)" "\<And>p lhs. fstays p (or_loop n p lhs)"
    "\<And>p. fstays p (and_expr n p)" "\<And>p lhs. fstays p (and_loop n p lhs)"
    "\<And>p. fstays p (unary n p)" "\<And>p. fstays p (cmp n p)" "\<And>p. fstays p (primary n p)"
    by auto
  have orl: "fstays p (or_loop (Suc n) p lhs)" for p lhs
  proof -
    have "fstays (bump p) (fbind (deeper (and_expr n) (bump p)) (\<lambda>p rhs. or_loop n p (Or lhs rhs)))"
      by (intro stays_intros ih)
    then show ?thesis by (simp only: or_loop.simps eat_kw_case if_True if_False) (rule fstays_kw; simp)
  qed
  have andl: "fstays p (and_loop (Suc n) p lhs)" for p lhs
  proof -
    have "fstays (bump p) (fbind (deeper (unary n) (bump p)) (\<lambda>p rhs. and_loop n p (And lhs rhs)))"
      by (intro stays_intros ih)
    from fstays_bump_kw [of "''AND''", OF _ this] show ?thesis by simp
  qed
  have un: "fstays p (unary (Suc n) p)" for p
  proof -
    have "fstays (bump p) (fbind (deeper (unary n) (bump p)) (\<lambda>p e. Some (Inr (p, Not e))))"
      by (intro stays_intros ih) simp
    moreover have "fstays p (deeper (cmp n) p)" by (intro stays_intros ih)
    ultimately show ?thesis by (simp only: unary.simps eat_kw_case if_True if_False) (rule fstays_kw)
  qed
  have cm: "fstays p (cmp (Suc n) p)" for p
    unfolding cmp.simps
  proof (rule fstays_fbind)
    show "fstays p (deeper (primary n) p)" by (intro stays_intros ih)
  next
    fix q lhs
    show "fstays q (case eat_kw ''IN'' q of (p, b) \<Rightarrow>
         if b then
           Some (rbind (expect_tok LParen p) (\<lambda>(p, _).
             rbind (in_list p []) (\<lambda>(p, xs).
             rbind (expect_tok RParen p) (\<lambda>(p, _). Inr (p, In lhs xs)))))
         else (case cmp_op_of (peek p) of
             Inl e \<Rightarrow> Some (Inl e)
           | Inr None \<Rightarrow> Some (Inr (p, lhs))
           | Inr (Some op) \<Rightarrow>
               fbind (deeper (primary n) (bump p)) (\<lambda>p rhs. Some (Inr (p, Cmp lhs op rhs)))))"
      by (simp only: eat_kw_case if_True if_False)
        (rule fstays_kw, simp only: fstays_simps in_rest_stays, rule cmp_rest_stays [OF ih(7)])
  qed
  have pr: "fstays p (primary (Suc n) p)" for p
  proof -
    have paren: "fstays p (fbind (deeper (or_expr n) (bump p)) (\<lambda>p e.
        Some (rbind (expect_tok RParen p) (\<lambda>(p, _). Inr (p, e)))))" if "peek p = Some LParen"
      by (rule fstays_bump [OF that]) (auto intro!: stays_intros ih)
    have attr: "pstays p (rbind (attribute_key (bump p)) (\<lambda>(p, k). Inr (p, Attribute k)))"
      if "peek p = Some t" for t
      by (rule pstays_bump [OF that]) (auto intro!: stays_intros)
    have lit: "pstays p (rbind (parse_literal p) (\<lambda>(p, l). Inr (p, Literal l)))"
      by (auto intro!: stays_intros)
    show ?thesis
    proof (cases "peek p")
      case None
      then show ?thesis by (simp add: eat_case)
    next
      case (Some t)
      then show ?thesis
        using paren attr [OF Some] lit stays_bump [OF Some] by (cases t) (simp_all add: eat_case Let_def)
    qed
  qed
  have "fstays p (or_expr (Suc n) p)" "fstays p (and_expr (Suc n) p)" for p
    unfolding or_expr.simps and_expr.simps by (intro stays_intros ih)+
  then show ?case using orl andl un cm pr by blast
qed simp

lemmas expr_stays = expr_stays_all [THEN conjunct1, rule_format]
  expr_stays_all [THEN conjunct2, THEN conjunct2, THEN conjunct1, rule_format]
  expr_stays_all [THEN conjunct2, THEN conjunct2, THEN conjunct2, THEN conjunct2, THEN conjunct1, rule_format]
  expr_stays_all [THEN conjunct2, THEN conjunct2, THEN conjunct2, THEN conjunct2, THEN conjunct2,
    THEN conjunct2, rule_format]

section \<open>The fuel is enough\<close>

definition bound :: "parser \<Rightarrow> nat" where
  "bound p = (33 - depth p) * (length (toks p) + 2) + (length (toks p) - pos p)"

lemma bound_stays: "stays p q \<Longrightarrow> bound q \<le> bound p"
  by (auto simp: bound_def stays_def)

lemma bound_bump: "peek p = Some t \<Longrightarrow> bound (bump p) < bound p"
  using peek_less [of p t] by (simp add: bound_def)

lemma bound_bump_kw: "is_kw kw p \<Longrightarrow> bound (bump p) < bound p"
  using is_kw_peek [of kw p] bound_bump [of p] by blast

lemma bound_deeper: "depth p \<le> 31 \<Longrightarrow> bound (p\<lparr>depth := depth p + 1\<rparr>) + 2 \<le> bound p"
proof -
  assume "depth p \<le> 31"
  then have "33 - depth p = Suc (33 - (depth p + 1))" by simp
  then show ?thesis by (simp add: bound_def)
qed

text \<open>\<open>total n f\<close>: with fuel \<open>n\<close> the operation answers from every state below the bound.\<close>

definition total_at :: "nat \<Rightarrow> (parser \<Rightarrow> 'a fres) \<Rightarrow> bool" where
  "total_at n f \<longleftrightarrow> (\<forall>p. depth p \<le> 32 \<and> bound p < n \<longrightarrow> f p \<noteq> None)"

lemma total_atD: "total_at n f \<Longrightarrow> depth p \<le> 32 \<Longrightarrow> bound p < n \<Longrightarrow> f p \<noteq> None"
  by (simp add: total_at_def)

lemma deeper_total: "total_at n f \<Longrightarrow> depth p \<le> 32 \<Longrightarrow> bound p \<le> Suc n \<Longrightarrow> deeper f p \<noteq> None"
proof -
  assume f: "total_at n f" and p: "depth p \<le> 32" "bound p \<le> Suc n"
  show "deeper f p \<noteq> None"
  proof (cases "depth p = 32")
    case False
    then have "depth p \<le> 31" using p by simp
    then have "f (p\<lparr>depth := depth p + 1\<rparr>) \<noteq> None"
      using bound_deeper [of p] p by (intro total_atD [OF f]) simp_all
    then show ?thesis by (auto simp: deeper_def Let_def fbind_None simp del: not_None_eq)
  qed (simp add: deeper_def sql_limit_defs)
qed

lemma deeper_stays: "(\<And>p. fstays p (f p)) \<Longrightarrow> deeper f p = Some (Inr (q, x)) \<Longrightarrow> stays p q"
  using fstays_deeper [of f p] by (simp add: fstays_def)

lemma fbind_deeper_total:
  assumes "total_at n f" and "depth p \<le> 32" and "bound p \<le> Suc n" and "\<And>p. fstays p (f p)"
    and "\<And>q x. stays p q \<Longrightarrow> k q x \<noteq> None"
  shows "fbind (deeper f p) k \<noteq> None"
  using deeper_total [OF assms(1-3)] deeper_stays [OF assms(4)] assms(5) by (auto simp: fbind_None)

lemma total_all:
  "total_at n (or_expr n) \<and> (\<forall>lhs. total_at (Suc n) (\<lambda>p. or_loop n p lhs)) \<and>
   total_at n (and_expr n) \<and> (\<forall>lhs. total_at (Suc n) (\<lambda>p. and_loop n p lhs)) \<and>
   total_at n (unary n) \<and> total_at n (cmp n) \<and> total_at n (primary n)"
proof (induction n)
  case 0
  have "\<not> (depth p \<le> 32 \<and> bound p < Suc 0)" for p
  proof (cases "depth p \<le> 32")
    case True
    have "2 \<le> 1 * (length (toks p) + 2)" by simp
    also have "\<dots> \<le> (33 - depth p) * (length (toks p) + 2)" using True by (intro mult_le_mono1) simp
    also have "\<dots> \<le> bound p" unfolding bound_def by (rule le_add1)
    finally show ?thesis by simp
  qed simp
  then show ?case by (auto simp: total_at_def)
next
  case (Suc n)
  then have ih: "total_at n (or_expr n)" "\<And>lhs. total_at (Suc n) (\<lambda>p. or_loop n p lhs)"
    "total_at n (and_expr n)" "\<And>lhs. total_at (Suc n) (\<lambda>p. and_loop n p lhs)"
    "total_at n (unary n)" "total_at n (cmp n)" "total_at n (primary n)" by auto
  have ll: "or_loop n q lhs \<noteq> None \<and> and_loop n q lhs \<noteq> None"
    if "stays p q" "depth p \<le> 32" "bound p \<le> n" for p q lhs
    using that bound_stays [OF that(1)] total_atD [OF ih(2), of q lhs] total_atD [OF ih(4), of q lhs]
    by (simp add: stays_def)
  have ex1: "or_expr (Suc n) p \<noteq> None" if p: "depth p \<le> 32" "bound p < Suc n" for p
    unfolding or_expr.simps
    by (rule fbind_deeper_total [OF ih(3) p(1) _ expr_stays(2)]) (use p ll in \<open>simp_all del: not_None_eq\<close>)
  have ex2: "and_expr (Suc n) p \<noteq> None" if p: "depth p \<le> 32" "bound p < Suc n" for p
    unfolding and_expr.simps
    by (rule fbind_deeper_total [OF ih(5) p(1) _ expr_stays(3)]) (use p ll in \<open>simp_all del: not_None_eq\<close>)
  have orl: "or_loop (Suc n) p lhs \<noteq> None" if p: "depth p \<le> 32" "bound p < Suc (Suc n)" for p lhs
  proof -
    have "fbind (deeper (and_expr n) (bump p)) (\<lambda>p rhs. or_loop n p (Or lhs rhs)) \<noteq> None" if kw: "is_kw ''OR'' p"
      by (rule fbind_deeper_total [OF ih(3) _ _ expr_stays(2)])
        (use p bound_bump_kw [OF kw] ll [of "bump p"] in \<open>simp_all del: not_None_eq\<close>)
    then show ?thesis by (simp add: eat_kw_case)
  qed
  have andl: "and_loop (Suc n) p lhs \<noteq> None" if p: "depth p \<le> 32" "bound p < Suc (Suc n)" for p lhs
  proof -
    have "fbind (deeper (unary n) (bump p)) (\<lambda>p rhs. and_loop n p (And lhs rhs)) \<noteq> None" if kw: "is_kw ''AND'' p"
      by (rule fbind_deeper_total [OF ih(5) _ _ expr_stays(3)])
        (use p bound_bump_kw [OF kw] ll [of "bump p"] in \<open>simp_all del: not_None_eq\<close>)
    then show ?thesis by simp
  qed
  have un: "unary (Suc n) p \<noteq> None" if p: "depth p \<le> 32" "bound p < Suc n" for p
  proof -
    have "fbind (deeper (unary n) (bump p)) (\<lambda>p e. Some (Inr (p, Not e))) \<noteq> None" if kw: "is_kw ''NOT'' p"
      by (rule fbind_deeper_total [OF ih(5) _ _ expr_stays(3)])
        (use p bound_bump_kw [OF kw] in simp_all)
    moreover have "deeper (cmp n) p \<noteq> None" using deeper_total [OF ih(6)] p by simp
    ultimately show ?thesis by (simp add: eat_kw_case)
  qed
  have cm: "cmp (Suc n) p \<noteq> None" if p: "depth p \<le> 32" "bound p < Suc n" for p
    unfolding cmp.simps
  proof (rule fbind_deeper_total [OF ih(7) p(1) _ expr_stays(4)])
    fix q lhs assume q: "stays p q"
    have "fbind (deeper (primary n) (bump q)) (\<lambda>p rhs. Some (Inr (p, Cmp lhs op rhs))) \<noteq> None"
      if "peek q = Some t" for op t
      by (rule fbind_deeper_total [OF ih(7) _ _ expr_stays(4)])
        (use p q bound_stays [OF q] bound_bump [OF that] in \<open>simp_all add: stays_def\<close>)
    then show "(case eat_kw ''IN'' q of (p, b) \<Rightarrow>
         if b then
           Some (rbind (expect_tok LParen p) (\<lambda>(p, _).
             rbind (in_list p []) (\<lambda>(p, xs).
             rbind (expect_tok RParen p) (\<lambda>(p, _). Inr (p, In lhs xs)))))
         else (case cmp_op_of (peek p) of
             Inl e \<Rightarrow> Some (Inl e)
           | Inr None \<Rightarrow> Some (Inr (p, lhs))
           | Inr (Some op) \<Rightarrow>
               fbind (deeper (primary n) (bump p)) (\<lambda>p rhs. Some (Inr (p, Cmp lhs op rhs))))) \<noteq> None"
      by (cases "peek q") (auto simp: eat_kw_case cmp_op_of_def split: sum.split option.split)
  qed (use p in simp)
  have pr: "primary (Suc n) p \<noteq> None" if p: "depth p \<le> 32" "bound p < Suc n" for p
  proof -
    have "fbind (deeper (or_expr n) (bump p)) (\<lambda>p e.
        Some (rbind (expect_tok RParen p) (\<lambda>(p, _). Inr (p, e)))) \<noteq> None" if "peek p = Some LParen"
      by (rule fbind_deeper_total [OF ih(1) _ _ expr_stays(1)]) (use p bound_bump [OF that] in simp_all)
    then show ?thesis by (simp add: eat_case)
  qed
  show ?case using ex1 ex2 orl andl un cm pr by (simp add: total_at_def del: not_None_eq)
qed

lemma expr_total: "depth p \<le> 31 \<Longrightarrow> expr p \<noteq> None"
proof -
  assume d: "depth p \<le> 31"
  have "bound p \<le> 33 * (length (toks p) + 2) + length (toks p)"
    unfolding bound_def by (intro add_mono mult_right_mono) simp_all
  also have "\<dots> < parse_fuel p" by (simp add: parse_fuel_def sql_limit_defs)
  finally show ?thesis
    unfolding expr_def using deeper_total [OF total_all [THEN conjunct1], of p "parse_fuel p"] d by simp
qed

lemma expr_fstays: "fstays p (expr p)"
  unfolding expr_def by (intro stays_intros expr_stays)

lemma is_semantic_peek: "is_semantic_ahead p \<Longrightarrow> Suc (pos p) < length (toks p)"
  by (auto simp: is_semantic_ahead_def is_semantic_at_def tok_at_def split: if_splits)

lemma where_loop_total:
  "depth p \<le> 31 \<Longrightarrow> length (toks p) - pos p < n \<Longrightarrow> where_loop n p sem cs \<noteq> None"
proof (induction n arbitrary: p sem cs)
  case (Suc n)
  let ?m = "if is_semantic_ahead p then
          Some (case next_tok (advance 2 p) of
              (p, Some (TStr s)) \<Rightarrow>
                if sem \<noteq> None then Inl (Invalid ''two semantic predicates'')
                else if trim_chars (utf8_chars s) = [] then Inl (Invalid ''semantic text is empty'')
                else Inr (p, (Some \<lparr>sem_text = s\<rparr>, cs))
            | _ \<Rightarrow> Inl (Invalid ''similarity wants a string''))
        else fbind (expr p) (\<lambda>p e. Some (Inr (p, (sem, cs @ [e]))))"
  have "?m \<noteq> None" using expr_total [OF Suc.prems(1)] by (simp add: fbind_None del: not_None_eq)
  moreover have st: "toks q = toks p \<and> depth q = depth p \<and> pos p \<le> pos q" if "?m = Some (Inr (q, x))" for q x
    using that expr_fstays [of p]
    by (auto simp: next_case fbind_Inr fstays_def stays_def split: if_splits option.splits tok.splits)
  moreover have "where_loop n (bump q) s c \<noteq> None" if m: "?m = Some (Inr (q, x))" and kw: "is_kw ''AND'' q" for q x s c
  proof -
    obtain t where "peek q = Some t" using is_kw_peek [OF kw] by blast
    then have "pos q < length (toks q)" by (rule peek_less)
    then show ?thesis using Suc.prems st [OF m] by (intro Suc.IH) auto
  qed
  ultimately show ?case
    unfolding where_loop.simps fbind_None [of ?m] by (auto simp: eat_kw_case simp del: not_None_eq split: prod.split)
qed simp

section \<open>More fuel changes nothing\<close>

definition below :: "'a option \<Rightarrow> 'a option \<Rightarrow> bool" where
  "below m m' \<longleftrightarrow> m = None \<or> m = m'"

named_theorems below_intros \<open>monotone constructs of the parser\<close>

lemma below_refl [simp]: "below m m" "below None m"
  by (simp_all add: below_def)

lemma below_fbind [below_intros]:
  "below m m' \<Longrightarrow> (\<And>q x. below (k q x) (k' q x)) \<Longrightarrow> below (fbind m k) (fbind m' k')"
  unfolding below_def fbind_def by (auto split: option.splits sum.splits)

lemma below_deeper [below_intros]: "(\<And>p. below (f p) (g p)) \<Longrightarrow> below (deeper f p) (deeper g p)"
  by (simp add: deeper_def Let_def below_fbind)

lemma below_if: "(c \<Longrightarrow> below a a') \<Longrightarrow> below (if c then a else b) (if c then a' else b)"
  by simp

lemma below_step:
  "(\<forall>p. below (or_expr n p) (or_expr (Suc n) p)) \<and> (\<forall>p e. below (or_loop n p e) (or_loop (Suc n) p e)) \<and>
   (\<forall>p. below (and_expr n p) (and_expr (Suc n) p)) \<and> (\<forall>p e. below (and_loop n p e) (and_loop (Suc n) p e)) \<and>
   (\<forall>p. below (unary n p) (unary (Suc n) p)) \<and> (\<forall>p. below (cmp n p) (cmp (Suc n) p)) \<and>
   (\<forall>p. below (primary n p) (primary (Suc n) p))"
proof (induction n)
  case (Suc n)
  then have ih: "\<And>p. below (or_expr n p) (or_expr (Suc n) p)" "\<And>p e. below (or_loop n p e) (or_loop (Suc n) p e)"
    "\<And>p. below (and_expr n p) (and_expr (Suc n) p)" "\<And>p e. below (and_loop n p e) (and_loop (Suc n) p e)"
    "\<And>p. below (unary n p) (unary (Suc n) p)" "\<And>p. below (cmp n p) (cmp (Suc n) p)"
    "\<And>p. below (primary n p) (primary (Suc n) p)" by auto
  have "below (or_expr (Suc n) p) (or_expr (Suc (Suc n)) p)" for p
    by (subst (1 2) or_expr.simps(2)) (intro below_intros ih)
  moreover have "below (and_expr (Suc n) p) (and_expr (Suc (Suc n)) p)" for p
    by (subst (1 2) and_expr.simps(2)) (intro below_intros ih)
  moreover have "below (or_loop (Suc n) p e) (or_loop (Suc (Suc n)) p e)" for p e
    by (subst (1 2) or_loop.simps(2), unfold eat_kw_case if_True if_False, cases "is_kw ''OR'' p";
      simp only: if_True if_False below_refl; intro below_intros ih)
  moreover have "below (and_loop (Suc n) p e) (and_loop (Suc (Suc n)) p e)" for p e
    by (subst (1 2) and_loop.simps(2), cases "is_kw ''AND'' p \<and> \<not> semantic_follows_and p";
      simp only: simp_thms if_True if_False below_refl; intro below_intros ih)
  moreover have "below (unary (Suc n) p) (unary (Suc (Suc n)) p)" for p
    by (subst (1 2) unary.simps(2), unfold eat_kw_case if_True if_False, cases "is_kw ''NOT'' p";
      simp only: if_True if_False; intro below_intros ih below_refl)
  moreover have "below (cmp (Suc n) p) (cmp (Suc (Suc n)) p)" for p
    unfolding cmp.simps(2) eat_kw_case if_True if_False
  proof (intro below_fbind below_deeper ih)
    fix q lhs
    show "below (if is_kw ''IN'' q then Some (rbind (expect_tok LParen (bump q)) (\<lambda>(p, _).
          rbind (in_list p []) (\<lambda>(p, xs). rbind (expect_tok RParen p) (\<lambda>(p, _). Inr (p, In lhs xs)))))
        else (case cmp_op_of (peek q) of Inl e \<Rightarrow> Some (Inl e) | Inr None \<Rightarrow> Some (Inr (q, lhs))
          | Inr (Some op) \<Rightarrow> fbind (deeper (primary n) (bump q)) (\<lambda>p rhs. Some (Inr (p, Cmp lhs op rhs)))))
      (if is_kw ''IN'' q then Some (rbind (expect_tok LParen (bump q)) (\<lambda>(p, _).
          rbind (in_list p []) (\<lambda>(p, xs). rbind (expect_tok RParen p) (\<lambda>(p, _). Inr (p, In lhs xs)))))
        else (case cmp_op_of (peek q) of Inl e \<Rightarrow> Some (Inl e) | Inr None \<Rightarrow> Some (Inr (q, lhs))
          | Inr (Some op) \<Rightarrow> fbind (deeper (primary (Suc n)) (bump q)) (\<lambda>p rhs. Some (Inr (p, Cmp lhs op rhs)))))"
    proof (cases "is_kw ''IN'' q")
      case False
      have "below (fbind (deeper (primary n) (bump q)) (\<lambda>p rhs. Some (Inr (p, Cmp lhs op rhs))))
        (fbind (deeper (primary (Suc n)) (bump q)) (\<lambda>p rhs. Some (Inr (p, Cmp lhs op rhs))))" for op
        by (intro below_fbind below_deeper ih below_refl)
      then show ?thesis using False
        by (cases "cmp_op_of (peek q)") (auto split: option.split simp del: primary.simps)
    qed simp
  qed
  moreover have "below (primary (Suc n) p) (primary (Suc (Suc n)) p)" for p
    unfolding primary.simps(2) eat_case if_True if_False
    by (rule below_if) (intro below_intros ih below_refl)
  ultimately show ?case by blast
qed simp

lemma or_expr_more: "or_expr n p = Some r \<Longrightarrow> n \<le> m \<Longrightarrow> or_expr m p = Some r"
proof (induction m)
  case (Suc m)
  show ?case
  proof (cases "n \<le> m")
    case True
    then show ?thesis using Suc below_step [of m] by (metis below_def option.distinct(1))
  next
    case False
    then have "n = Suc m" using Suc.prems(2) by simp
    then show ?thesis using Suc.prems(1) by simp
  qed
qed simp

text \<open>An answer found with little fuel is the answer.\<close>

lemma expr_eqI: "deeper (or_expr n) p = Some r \<Longrightarrow> n \<le> parse_fuel p \<Longrightarrow> expr p = Some r"
proof -
  assume r: "deeper (or_expr n) p = Some r" and n: "n \<le> parse_fuel p"
  have "below (or_expr n q) (or_expr (parse_fuel p) q)" for q
    using or_expr_more [OF _ n, of q] by (cases "or_expr n q") (simp_all add: below_def)
  then have "below (deeper (or_expr n) p) (deeper (or_expr (parse_fuel p)) p)" by (rule below_deeper)
  with r show "expr p = Some r" by (simp add: expr_def below_def)
qed

section \<open>Bounds on what is parsed\<close>

text \<open>Every \<open>IN\<close> list of an expression has at most \<open>MAX_IN_LIST\<close> elements.\<close>

fun in_lists_bounded :: "predicate \<Rightarrow> bool" where
  "in_lists_bounded (In e xs) \<longleftrightarrow> in_lists_bounded e \<and> 1 \<le> length xs \<and> length xs \<le> 1024"
| "in_lists_bounded (Cmp a _ b) \<longleftrightarrow> in_lists_bounded a \<and> in_lists_bounded b"
| "in_lists_bounded (And a b) \<longleftrightarrow> in_lists_bounded a \<and> in_lists_bounded b"
| "in_lists_bounded (Or a b) \<longleftrightarrow> in_lists_bounded a \<and> in_lists_bounded b"
| "in_lists_bounded (Not a) \<longleftrightarrow> in_lists_bounded a"
| "in_lists_bounded _ \<longleftrightarrow> True"

definition fpost :: "('a \<Rightarrow> bool) \<Rightarrow> 'a fres \<Rightarrow> bool" where
  "fpost Q m \<longleftrightarrow> (\<forall>q x. m = Some (Inr (q, x)) \<longrightarrow> Q x)"

lemma fpost_simps [simp]:
  "fpost Q None" "fpost Q (Some (Inl e))" "fpost Q (Some (Inr (q, x))) \<longleftrightarrow> Q x"
  by (auto simp: fpost_def)

lemma fpost_fbind: "fpost R m \<Longrightarrow> (\<And>q x. R x \<Longrightarrow> fpost Q (k q x)) \<Longrightarrow> fpost Q (fbind m k)"
  by (auto simp: fpost_def fbind_Inr)

lemma fpost_deeper: "(\<And>p. fpost Q (f p)) \<Longrightarrow> fpost Q (deeper f p)"
  by (auto simp: fpost_def deeper_def Let_def fbind_Inr)

lemma in_list_bounded:
  "in_list p xs = Inr (q, ys) \<Longrightarrow> length xs < length ys \<and> length ys \<le> 1024"
proof (induction "MAX_IN_LIST - length xs" arbitrary: p xs rule: less_induct)
  case less
  from less.prems have lt: "length xs < 1024"
    by (auto simp: in_list.simps [of p xs] sql_limit_defs split: if_splits)
  from less.prems obtain r l where r: "parse_literal p = Inr (r, l)"
    "(if peek r = Some Comma then in_list (bump r) (xs @ [l]) else Inr (r, xs @ [l])) = Inr (q, ys)"
    by (auto simp: in_list.simps [of p xs] eat_case rbind_Inr_iff split: if_splits)
  show ?case
  proof (cases "peek r = Some Comma")
    case True
    have "MAX_IN_LIST - length (xs @ [l]) < MAX_IN_LIST - length xs"
      using lt by (simp add: sql_limit_defs)
    then have "length (xs @ [l]) < length ys \<and> length ys \<le> 1024"
      using True r(2) by (intro less.hyps) simp_all
    then show ?thesis by simp
  next
    case False
    then show ?thesis using r(2) lt by auto
  qed
qed

lemma expr_bounded_all:
  "(\<forall>p. fpost in_lists_bounded (or_expr n p)) \<and>
   (\<forall>p lhs. in_lists_bounded lhs \<longrightarrow> fpost in_lists_bounded (or_loop n p lhs)) \<and>
   (\<forall>p. fpost in_lists_bounded (and_expr n p)) \<and>
   (\<forall>p lhs. in_lists_bounded lhs \<longrightarrow> fpost in_lists_bounded (and_loop n p lhs)) \<and>
   (\<forall>p. fpost in_lists_bounded (unary n p)) \<and> (\<forall>p. fpost in_lists_bounded (cmp n p)) \<and>
   (\<forall>p. fpost in_lists_bounded (primary n p))"
proof (induction n)
  case (Suc n)
  then have ih: "\<And>p. fpost in_lists_bounded (or_expr n p)"
    "\<And>p lhs. in_lists_bounded lhs \<Longrightarrow> fpost in_lists_bounded (or_loop n p lhs)"
    "\<And>p. fpost in_lists_bounded (and_expr n p)"
    "\<And>p lhs. in_lists_bounded lhs \<Longrightarrow> fpost in_lists_bounded (and_loop n p lhs)"
    "\<And>p. fpost in_lists_bounded (unary n p)" "\<And>p. fpost in_lists_bounded (cmp n p)"
    "\<And>p. fpost in_lists_bounded (primary n p)" by auto
  note rules = fpost_fbind [where R = in_lists_bounded] fpost_deeper
  have in_case: "fpost in_lists_bounded (Some (rbind (expect_tok LParen p) (\<lambda>(p, _).
      rbind (in_list p []) (\<lambda>(p, xs). rbind (expect_tok RParen p) (\<lambda>(p, _). Inr (p, In lhs xs))))))"
    if "in_lists_bounded lhs" for p lhs
    using that by (auto simp: fpost_def rbind_Inr_iff Suc_le_eq dest!: in_list_bounded)
  have cmp_case: "fpost in_lists_bounded (case cmp_op_of (peek p) of
       Inl e \<Rightarrow> Some (Inl e)
     | Inr None \<Rightarrow> Some (Inr (p, lhs))
     | Inr (Some op) \<Rightarrow>
         fbind (deeper (primary n) (bump p)) (\<lambda>p rhs. Some (Inr (p, Cmp lhs op rhs))))"
    if "in_lists_bounded lhs" for p lhs
    using that by (auto intro!: rules ih split: sum.split option.split)
  have prim: "fpost in_lists_bounded (primary (Suc n) p)" for p
  proof (cases "peek p = Some LParen")
    case True
    have "fpost in_lists_bounded (fbind (deeper (or_expr n) (bump p)) (\<lambda>p e.
        Some (rbind (expect_tok RParen p) (\<lambda>(p, _). Inr (p, e)))))"
      by (rule rules, rule rules, rule ih) (auto simp: fpost_def rbind_Inr_iff)
    then show ?thesis using True by (simp add: eat_case)
  next
    case False
    then show ?thesis
      by (auto simp: eat_case fpost_def rbind_Inr_iff Let_def split: option.splits tok.splits if_splits)
  qed
  have cm: "fpost in_lists_bounded (cmp (Suc n) p)" for p
    unfolding cmp.simps eat_kw_case
    by (rule rules, rule rules, rule ih) (use in_case cmp_case in simp)
  have un: "fpost in_lists_bounded (unary (Suc n) p)" for p
    unfolding unary.simps eat_kw_case by (auto intro!: rules ih)
  have "fpost in_lists_bounded (or_expr (Suc n) p)" "fpost in_lists_bounded (and_expr (Suc n) p)" for p
    unfolding or_expr.simps and_expr.simps by (auto intro!: rules ih)
  moreover have "in_lists_bounded lhs \<Longrightarrow> fpost in_lists_bounded (or_loop (Suc n) p lhs)"
    "in_lists_bounded lhs \<Longrightarrow> fpost in_lists_bounded (and_loop (Suc n) p lhs)" for p lhs
    unfolding or_loop.simps and_loop.simps eat_kw_case by (auto intro!: rules ih)
  ultimately show ?case using un cm prim by blast
qed simp

lemma expr_bounded: "fpost in_lists_bounded (expr p)"
  unfolding expr_def using expr_bounded_all by (intro fpost_deeper) blast

lemma reduce_and_bounded:
  assumes "\<forall>e \<in> set cs. in_lists_bounded e" and "reduce_and cs = Some f"
  shows "in_lists_bounded f"
proof -
  have "in_lists_bounded e \<Longrightarrow> \<forall>x \<in> set r. in_lists_bounded x \<Longrightarrow> in_lists_bounded (foldl And e r)" for e r
    by (induction r arbitrary: e) auto
  then show ?thesis using assms by (auto simp: reduce_and_def split: list.splits)
qed

text \<open>What the statement promises of a parsed \<open>WHERE\<close> clause.\<close>

definition sem_ok :: "semantic option \<Rightarrow> bool" where
  "sem_ok sem = (case sem of None \<Rightarrow> True | Some s \<Rightarrow> trim_chars (utf8_chars (sem_text s)) \<noteq> [])"

definition where_ok :: "predicate option \<times> semantic option \<Rightarrow> bool" where
  "where_ok r \<longleftrightarrow> (case fst r of None \<Rightarrow> True | Some f \<Rightarrow> in_lists_bounded f) \<and> sem_ok (snd r)"

lemma where_loop_ok:
  "\<forall>e \<in> set cs. in_lists_bounded e \<Longrightarrow> sem_ok sem \<Longrightarrow> fpost where_ok (where_loop n p sem cs)"
proof (induction n arbitrary: p sem cs)
  case (Suc n)
  let ?R = "\<lambda>(sem, cs). (\<forall>e \<in> set cs. in_lists_bounded e) \<and> sem_ok sem"
  have first: "fpost ?R
      (if is_semantic_ahead p then
          Some (case next_tok (advance 2 p) of
              (p, Some (TStr s)) \<Rightarrow>
                if sem \<noteq> None then Inl (Invalid ''two semantic predicates'')
                else if trim_chars (utf8_chars s) = [] then Inl (Invalid ''semantic text is empty'')
                else Inr (p, (Some \<lparr>sem_text = s\<rparr>, cs))
            | _ \<Rightarrow> Inl (Invalid ''similarity wants a string''))
        else fbind (expr p) (\<lambda>p e. Some (Inr (p, (sem, cs @ [e])))))"
    using Suc.prems expr_bounded [of p]
    by (auto simp: next_case fpost_def fbind_Inr sem_ok_def split: option.splits tok.splits if_splits)
  have rest: "fpost where_ok (case x of (sem, cs) \<Rightarrow> case eat_kw ''AND'' q of (p, b) \<Rightarrow>
      if b then where_loop n p sem cs else Some (Inr (p, (reduce_and cs, sem))))" if "?R x" for q x
  proof -
    obtain sem cs where x: "x = (sem, cs)" by (cases x)
    then have "fpost where_ok (where_loop n (bump q) sem cs)" using that Suc.IH by simp
    moreover have "where_ok (reduce_and cs, sem)"
      using that x reduce_and_bounded [of cs] by (auto simp: where_ok_def split: option.split)
    ultimately show ?thesis unfolding x by (simp add: eat_kw_case del: where_loop.simps)
  qed
  show ?case unfolding where_loop.simps by (rule fpost_fbind [OF first rest])
qed simp

lemma parse_items_bounded:
  "parse_items p out = Inr (q, is) \<Longrightarrow> length out < length is \<and> length is \<le> 64"
proof (induction "MAX_PROJECTIONS - length out" arbitrary: p out rule: less_induct)
  case less
  from less.prems have lt: "length out < 64"
    by (auto simp: parse_items.simps [of p out] sql_limit_defs split: if_splits)
  from less.prems obtain r l where r: "parse_item p = Inr (r, l)"
    "(if peek r = Some Comma then parse_items (bump r) (out @ [l]) else Inr (r, out @ [l])) = Inr (q, is)"
    by (auto simp: parse_items.simps [of p out] eat_case rbind_Inr_iff split: if_splits)
  show ?case
  proof (cases "peek r = Some Comma")
    case True
    have "MAX_PROJECTIONS - length (out @ [l]) < MAX_PROJECTIONS - length out"
      using lt by (simp add: sql_limit_defs)
    then have "length (out @ [l]) < length is \<and> length is \<le> 64"
      using True r(2) by (intro less.hyps) simp_all
    then show ?thesis by simp
  next
    case False
    then show ?thesis using r(2) lt by auto
  qed
qed

lemma parse_group_keys_bounded: "parse_group_keys p out = Inr (q, gs) \<Longrightarrow> length gs \<le> 16"
proof (induction "MAX_GROUP_KEYS - length out" arbitrary: p out rule: less_induct)
  case less
  from less.prems obtain c where c: "length out < 16"
    "(if peek (bump p) = Some Comma then parse_group_keys (bump (bump p)) (out @ [c])
      else Inr (bump p, out @ [c])) = Inr (q, gs)"
    by (auto simp: parse_group_keys.simps [of p out] next_case eat_case sql_limit_defs
        split: if_splits option.splits tok.splits)
  show ?case
  proof (cases "peek (bump p) = Some Comma")
    case True
    have "MAX_GROUP_KEYS - length (out @ [c]) < MAX_GROUP_KEYS - length out"
      using c(1) by (simp add: sql_limit_defs)
    then show ?thesis using True c(2) by (intro less.hyps [of "out @ [c]"]) simp_all
  next
    case False
    then show ?thesis using c by auto
  qed
qed

lemma parse_tail_bounded: "parse_tail p = Inr (g, l, c) \<Longrightarrow> length g \<le> 16"
  by (auto simp: parse_tail_def parse_group_def eat_kw_case rbind_Inr_iff split: if_splits
      dest!: parse_group_keys_bounded)

text \<open>Only \<open>deeper\<close> touches the depth.\<close>

named_theorems depth_simps \<open>operations which keep the depth\<close>

lemma expect_tok_depth [depth_simps]: "expect_tok t p = Inr (q, u) \<Longrightarrow> depth q = depth p"
  by (simp add: expect_tok_ok)

lemma expect_kw_depth [depth_simps]: "expect_kw kw p = Inr (q, u) \<Longrightarrow> depth q = depth p"
  by (auto simp: expect_kw_def eat_kw_case split: if_splits)

lemma attribute_key_depth [depth_simps]: "attribute_key p = Inr (q, k) \<Longrightarrow> depth q = depth p"
  by (auto simp: attribute_key_def rbind_Inr_iff next_case expect_tok_ok split: option.splits tok.splits)

lemma parse_agg_depth [depth_simps]: "parse_agg lower p = Inr (q, i) \<Longrightarrow> depth q = depth p"
proof -
  obtain r b where e: "(if lower = ''count'' then eat Star p else (p, False)) = (r, b)" "depth r = depth p"
    by (cases "lower = ''count''"; cases "peek p = Some Star") (auto simp: eat_def)
  assume "parse_agg lower p = Inr (q, i)"
  then show ?thesis
    unfolding parse_agg_def e(1) prod.case
    by (cases b) (auto simp: rbind_Inr_iff next_case expect_tok_ok e(2) split: option.splits tok.splits)
qed

lemma parse_item_depth [depth_simps]:
  assumes "parse_item p = Inr (q, i)"
  shows "depth q = depth p"
proof (cases "peek p")
  case None
  then show ?thesis using assms by (simp add: parse_item_def eat_case)
next
  case (Some t)
  show ?thesis
  proof (cases t)
    case (TIdent name)
    then show ?thesis
      using assms Some unfolding parse_item_def eat_case eat_kw_case next_case Let_def
      by (auto simp: rbind_Inr_iff split: if_splits option.splits tok.splits
          dest: parse_agg_depth attribute_key_depth)
  qed (use assms Some in \<open>auto simp: parse_item_def eat_case split: if_splits\<close>)
qed

lemma parse_items_depth [depth_simps]: "parse_items p out = Inr (q, is) \<Longrightarrow> depth q = depth p"
proof (induction "MAX_PROJECTIONS - length out" arbitrary: p out rule: less_induct)
  case less
  from less.prems obtain r l where r: "\<not> MAX_PROJECTIONS \<le> length out" "parse_item p = Inr (r, l)"
    "(if peek r = Some Comma then parse_items (bump r) (out @ [l]) else Inr (r, out @ [l])) = Inr (q, is)"
    by (auto simp: parse_items.simps [of p out] eat_case rbind_Inr_iff split: if_splits)
  show ?case
  proof (cases "peek r = Some Comma")
    case True
    have "MAX_PROJECTIONS - length (out @ [l]) < MAX_PROJECTIONS - length out" using r(1) by simp
    then have "depth q = depth (bump r)" using True r(3) by (intro less.hyps [of "out @ [l]"]) simp_all
    then show ?thesis using parse_item_depth [OF r(2)] by simp
  next
    case False
    then show ?thesis using r(3) parse_item_depth [OF r(2)] by auto
  qed
qed

lemma parse_from_depth [depth_simps]:
  assumes "parse_from p = Inr (q, u)"
  shows "depth q = depth p"
proof -
  from assms obtain r where r: "expect_kw ''FROM'' p = Inr (r, ())"
    by (cases "expect_kw ''FROM'' p") (auto simp: parse_from_def)
  have "q = bump r"
  proof (cases "peek r")
    case None
    then show ?thesis using assms r by (simp add: parse_from_def next_case)
  next
    case (Some t)
    then show ?thesis using assms r by (cases t) (simp_all add: parse_from_def next_case split: if_splits)
  qed
  then show ?thesis using expect_kw_depth [OF r] by simp
qed

lemma parse_head:
  assumes "rbind (expect_kw ''SELECT'' (parser_new ts)) (\<lambda>(p, _). rbind (parse_items p []) (\<lambda>(p, is).
    rbind (parse_from p) (\<lambda>(p, _). Inr (p, is)))) = Inr (q, is)"
  shows "depth q = 0 \<and> 1 \<le> length is \<and> length is \<le> 64"
proof -
  from assms obtain a b where "expect_kw ''SELECT'' (parser_new ts) = Inr (a, ())"
    and i: "parse_items a [] = Inr (b, is)" and "parse_from b = Inr (q, ())"
    by (auto simp: rbind_Inr_iff)
  then have "depth q = 0"
    using expect_kw_depth parse_items_depth [OF i] parse_from_depth by (simp add: parser_new_def)
  with parse_items_bounded [OF i] show ?thesis by (simp add: Suc_le_eq)
qed

lemma parse_where_ok: "fpost where_ok (parse_where p)"
  using where_loop_ok [of "[]" None "length (toks p) + 1" "bump p"]
  by (simp add: parse_where_def where_clause_def eat_kw_case where_ok_def sem_ok_def del: where_loop.simps)

lemma parse_where_total: "depth p = 0 \<Longrightarrow> parse_where p \<noteq> None"
  unfolding parse_where_def where_clause_def eat_kw_case
  using where_loop_total [of "bump p" "length (toks p) + 1" None "[]"] by (simp del: where_loop.simps not_None_eq)

section \<open>Properties\<close>

text \<open>
  C22. The parser always answers: the depth counter and the token positions bound the recursive
  descent, so no statement, however nested, exhausts it.
\<close>

theorem parse_total: "\<exists>r. parse u sql = Some r"
proof -
  have "parse_select (parser_new ts) \<noteq> None" for ts
    unfolding parse_select_def
    using parse_where_total parse_head [of ts]
    by (auto split: sum.splits prod.splits option.splits simp del: not_None_eq)
  then show ?thesis by (auto simp: parse_def split: sum.split)
qed

text \<open>
  C23. A parsed statement respects the declared bounds: 1 to 64 projections, at most 16 group keys,
  between 1 and 1024 elements in every \<open>IN\<close> list, and a semantic text which is not blank.
\<close>

theorem parse_bounds:
  assumes "parse u sql = Some (Inr st)"
  shows "1 \<le> length (items st) \<and> length (items st) \<le> 64 \<and> length (group_by st) \<le> 16 \<and>
    where_ok (filter_expr st, semantic_pred st)"
proof -
  obtain ts where "parse_select (parser_new ts) = Some (Inr st)"
    using assms by (auto simp: parse_def split: sum.splits)
  then obtain p its q f s g l c where
    head: "rbind (expect_kw ''SELECT'' (parser_new ts)) (\<lambda>(p, _). rbind (parse_items p []) (\<lambda>(p, is).
      rbind (parse_from p) (\<lambda>(p, _). Inr (p, is)))) = Inr (p, its)"
    and w: "parse_where p = Some (Inr (q, (f, s)))" and t: "parse_tail q = Inr (g, l, c)"
    and st: "st = \<lparr>items = its, filter_expr = f, semantic_pred = s, group_by = g, limit = l, controls_of = c\<rparr>"
    by (auto simp: parse_select_def rbind_Inr_iff split: sum.splits option.splits prod.splits)
  show ?thesis
    using parse_head [OF head] parse_where_ok [of p] w parse_tail_bounded [OF t]
    unfolding st by (simp add: fpost_def)
qed

theorem parse_bounds_witness:
  "\<exists>st. parse ascii_unicode ''SELECT *FROM events'' = Some (Inr st) \<and> length (items st) \<le> 64"
proof -
  have l: "lex ascii_unicode ''SELECT *FROM events'' = Inr [TIdent ''SELECT'', Star, TIdent ''FROM'', TIdent ''events'']"
    by (simp add: lex_def sql_limit_defs lex_step_def lex_operator_def two_char_def punct_def is_whitespace_def
        is_ascii_digit_def is_alphabetic_def is_alphanumeric_def is_ident_char_def ascii_unicode_def
        push_tok_def utf8_encode_def utf8_char_def char_of_eq_iff)
  have "parse_select (parser_new [TIdent ''SELECT'', Star, TIdent ''FROM'', TIdent ''events'']) =
    Some (Inr \<lparr>items = [ItStar], filter_expr = None, semantic_pred = None, group_by = [], limit = None,
      controls_of = controls_default\<rparr>)"
    by code_simp
  with l have "parse ascii_unicode ''SELECT *FROM events'' = Some (Inr \<lparr>items = [ItStar], filter_expr = None,
      semantic_pred = None, group_by = [], limit = None, controls_of = controls_default\<rparr>)"
    by (simp add: parse_def)
  from parse_bounds [OF this] this show ?thesis by auto
qed

end
