(* ===== verification/SqlRoundTrip.thy ===== *)
theory SqlRoundTrip
  imports SqlParser
begin

text \<open>
  Printing an expression and parsing it back. \<open>print_or\<close> writes the tokens of an expression,
  with parentheses around every operand which is not a column, attribute or literal; \<open>levels_or\<close> counts the
  levels the descent needs for it. Within the depth limit the parser returns the expression.
\<close>

section \<open>The printer\<close>

fun lit_toks :: "literal \<Rightarrow> tok list" where
  "lit_toks (LStr s) = [TStr s]"
| "lit_toks (LInt i) = [TInt i]"
| "lit_toks (LFloat f) = [TFloat f]"
| "lit_toks (LBool True) = [TIdent ''true'']"
| "lit_toks (LBool False) = [TIdent ''false'']"

fun op_tok :: "cmp_op \<Rightarrow> tok" where
  "op_tok CEq = TEq" | "op_tok CNotEq = TNotEq" | "op_tok CLt = TLt"
| "op_tok CLtEq = TLtEq" | "op_tok CGt = TGt" | "op_tok CGtEq = TGtEq"

fun lits_toks :: "literal list \<Rightarrow> tok list" where
  "lits_toks [] = []"
| "lits_toks [l] = lit_toks l"
| "lits_toks (l # ls) = lit_toks l @ Comma # lits_toks ls"

fun atomic :: "predicate \<Rightarrow> bool" where
  "atomic (Column _) = True" | "atomic (Attribute _) = True" | "atomic (Literal _) = True"
| "atomic _ = False"

fun print_or :: "predicate \<Rightarrow> tok list" where
  "print_or (Column c) = [TIdent c]"
| "print_or (Attribute k) = [TIdent ''attributes'', LBracket, TStr k, RBracket]"
| "print_or (Literal l) = lit_toks l"
| "print_or (Cmp a op b) =
     (if atomic a then print_or a else LParen # print_or a @ [RParen]) @ op_tok op #
     (if atomic b then print_or b else LParen # print_or b @ [RParen])"
| "print_or (And a b) =
     (if atomic a then print_or a else LParen # print_or a @ [RParen]) @ TIdent ''AND'' #
     (if atomic b then print_or b else LParen # print_or b @ [RParen])"
| "print_or (Or a b) =
     (if atomic a then print_or a else LParen # print_or a @ [RParen]) @ TIdent ''OR'' #
     (if atomic b then print_or b else LParen # print_or b @ [RParen])"
| "print_or (Not a) = TIdent ''NOT'' # (if atomic a then print_or a else LParen # print_or a @ [RParen])"
| "print_or (In a xs) =
     (if atomic a then print_or a else LParen # print_or a @ [RParen]) @ TIdent ''IN'' # LParen #
     lits_toks xs @ [RParen]"

definition print_operand :: "predicate \<Rightarrow> tok list" where
  "print_operand e = (if atomic e then print_or e else LParen # print_or e @ [RParen])"

text \<open>Levels below an \<open>or_expr\<close> and below a \<open>primary\<close>.\<close>

fun levels_or :: "predicate \<Rightarrow> nat" where
  "levels_or (Cmp a _ b) = 4 + max (if atomic a then 0 else Suc (levels_or a)) (if atomic b then 0 else Suc (levels_or b))"
| "levels_or (And a b) = 4 + max (if atomic a then 0 else Suc (levels_or a)) (if atomic b then 0 else Suc (levels_or b))"
| "levels_or (Or a b) = 4 + max (if atomic a then 0 else Suc (levels_or a)) (if atomic b then 0 else Suc (levels_or b))"
| "levels_or (Not a) = 5 + (if atomic a then 0 else Suc (levels_or a))"
| "levels_or (In a _) = 4 + (if atomic a then 0 else Suc (levels_or a))"
| "levels_or _ = 4"

definition levels_operand :: "predicate \<Rightarrow> nat" where
  "levels_operand e = (if atomic e then 0 else Suc (levels_or e))"

definition plain_column :: "string \<Rightarrow> bool" where
  "plain_column c \<longleftrightarrow> to_ascii_lowercase c \<notin> {''true'', ''false'', ''not'', ''attributes''}"

fun printable :: "predicate \<Rightarrow> bool" where
  "printable (Column c) \<longleftrightarrow> plain_column c"
| "printable (Cmp a _ b) \<longleftrightarrow> printable a \<and> printable b"
| "printable (And a b) \<longleftrightarrow> printable a \<and> printable b"
| "printable (Or a b) \<longleftrightarrow> printable a \<and> printable b"
| "printable (Not a) \<longleftrightarrow> printable a"
| "printable (In a xs) \<longleftrightarrow> printable a \<and> xs \<noteq> [] \<and> length xs \<le> 1024"
| "printable _ \<longleftrightarrow> True"

section \<open>Running the parser on known tokens\<close>

definition rest :: "parser \<Rightarrow> tok list" where
  "rest p = drop (pos p) (toks p)"

definition down :: "parser \<Rightarrow> parser" where
  "down p = p\<lparr>depth := depth p + 1\<rparr>"

definition runs :: "(nat \<Rightarrow> parser \<Rightarrow> predicate fres) \<Rightarrow> parser \<Rightarrow> nat \<Rightarrow> predicate \<Rightarrow> bool" where
  "runs f p k e \<longleftrightarrow> (\<exists>n0. \<forall>n \<ge> n0. f n p = Some (Inr (advance k p, e)))"

lemma advance_advance [simp]: "advance a (advance b p) = advance (b + a) p"
  by (simp add: advance_def)

lemma bump_advance [simp]: "bump (advance k p) = advance (Suc k) p" "advance 0 p = p"
  by (simp_all add: advance_def bump_def)

lemma bump_is_advance: "bump p = advance 1 p"
  by (simp add: advance_def bump_def)

lemma down_simps [simp]: "rest (down p) = rest p" "depth (down p) = Suc (depth p)" "peek (down p) = peek p"
  by (simp_all add: down_def rest_def peek_def tok_at_def)

lemma rest_advance [simp]: "rest (advance k p) = drop k (rest p)"
  by (simp add: rest_def add.commute)

lemma rest_bump [simp]: "rest (bump p) = tl (rest p)"
  by (simp add: rest_def drop_Suc tl_drop)

lemma peek_rest: "peek p = (case rest p of [] \<Rightarrow> None | t # _ \<Rightarrow> Some t)"
proof (cases "pos p < length (toks p)")
  case True
  then show ?thesis using Cons_nth_drop_Suc [OF True] by (metis list.simps(5) peek_def rest_def tok_at_def)
qed (simp add: peek_def rest_def tok_at_def)

lemma tok_at_rest: "tok_at p (pos p + i) = (if i < length (rest p) then Some (rest p ! i) else None)"
  by (auto simp: tok_at_def rest_def)

lemma runs_deeper:
  assumes "runs f (down p) k e" and "depth p < 32"
  shows "\<exists>n0. \<forall>n \<ge> n0. deeper (f n) p = Some (Inr (advance k p, e))"
proof -
  obtain n0 where n0: "\<And>n. n0 \<le> n \<Longrightarrow> f n (p\<lparr>depth := depth p + 1\<rparr>) = Some (Inr (advance k (down p), e))"
    using assms(1) by (auto simp: runs_def down_def)
  have "deeper (f n) p = Some (Inr (advance k p, e))" if "n0 \<le> n" for n
    using n0 [OF that] assms(2)
    by (simp add: deeper_def Let_def sql_limit_defs fbind_def) (simp add: advance_def down_def)
  then show ?thesis by blast
qed

lemma runsI: "(\<And>n. n0 \<le> n \<Longrightarrow> f (Suc n) p = Some (Inr (advance k p, e))) \<Longrightarrow> runs f p k e"
  unfolding runs_def
proof (intro exI [of _ "Suc n0"] allI impI)
  fix n assume "\<And>n. n0 \<le> n \<Longrightarrow> f (Suc n) p = Some (Inr (advance k p, e))" "Suc n0 \<le> n"
  then show "f n p = Some (Inr (advance k p, e))" by (cases n) auto
qed

lemma fbind_Some [simp]: "fbind (Some (Inr (q, x))) k = k q x"
  by (simp add: fbind_def)

text \<open>The token behind the phrase.\<close>

definition not_kw :: "string \<Rightarrow> tok list \<Rightarrow> bool" where
  "not_kw kw r = (case r of TIdent s # _ \<Rightarrow> \<not> eq_ignore_ascii_case s kw | _ \<Rightarrow> True)"

lemma is_kw_rest: "is_kw kw p \<longleftrightarrow> \<not> not_kw kw (rest p)"
  by (auto simp: is_kw_def ident_is_def peek_rest not_kw_def split: list.split tok.split)

lemma runs_cmp:
  assumes "runs primary (down p) k e" and "depth p < 32" and "not_kw ''IN'' (drop k (rest p))"
    and "cmp_op_of (peek (advance k p)) = Inr None"
  shows "runs cmp p k e"
proof -
  obtain n0 where n0: "\<And>n. n0 \<le> n \<Longrightarrow> deeper (primary n) p = Some (Inr (advance k p, e))"
    using runs_deeper [OF assms(1,2)] by blast
  show ?thesis
    by (rule runsI [of n0]) (simp add: n0 assms(3,4) eat_kw_case is_kw_rest)
qed

lemma runs_cmp_op:
  assumes "runs primary (down p) k a" and "depth p < 32" and "drop k (rest p) = op_tok op # r"
    and "runs primary (down (advance (Suc k) p)) j b"
  shows "runs cmp p (Suc (k + j)) (Cmp a op b)"
proof -
  obtain n0 where n0: "\<And>n. n0 \<le> n \<Longrightarrow> deeper (primary n) p = Some (Inr (advance k p, a))"
    using runs_deeper [OF assms(1,2)] by blast
  obtain n1 where n1: "\<And>n. n1 \<le> n \<Longrightarrow>
      deeper (primary n) (advance (Suc k) p) = Some (Inr (advance j (advance (Suc k) p), b))"
    using runs_deeper [OF assms(4)] assms(2) by auto
  have op: "cmp_op_of (peek (advance k p)) = Inr (Some op)" "not_kw ''IN'' (drop k (rest p))"
    using assms(3) by (cases op; simp add: peek_rest cmp_op_of_def not_kw_def)+
  show ?thesis
    by (rule runsI [of "max n0 n1"]) (simp add: n0 n1 op eat_kw_case is_kw_rest add.commute)
qed

lemma runs_unary:
  assumes "runs cmp (down p) k e" and "depth p < 32" and "not_kw ''NOT'' (rest p)"
  shows "runs unary p k e"
proof -
  obtain n0 where "\<And>n. n0 \<le> n \<Longrightarrow> deeper (cmp n) p = Some (Inr (advance k p, e))"
    using runs_deeper [OF assms(1,2)] by blast
  then show ?thesis by (intro runsI [of n0]) (simp add: assms(3) eat_kw_case is_kw_rest)
qed

lemma runs_not:
  assumes "rest p = TIdent ''NOT'' # r" and "depth p < 32" and "runs unary (down (bump p)) k e"
  shows "runs unary p (Suc k) (Not e)"
proof -
  obtain n0 where "\<And>n. n0 \<le> n \<Longrightarrow> deeper (unary n) (bump p) = Some (Inr (advance k (bump p), e))"
    using runs_deeper [OF assms(3)] assms(2) by auto
  then show ?thesis
    by (intro runsI [of n0]) (simp add: assms(1) eat_kw_case is_kw_rest not_kw_def eq_ignore_ascii_case_def bump_is_advance)
qed

lemma runs_and_stop:
  assumes "runs unary (down p) k e" and "depth p < 32"
    and "not_kw ''AND'' (drop k (rest p)) \<or> semantic_follows_and (advance k p)"
  shows "runs and_expr p k e"
proof -
  obtain n0 where n0: "\<And>n. n0 \<le> n \<Longrightarrow> deeper (unary n) p = Some (Inr (advance k p, e))"
    using runs_deeper [OF assms(1,2)] by blast
  have loop: "and_loop (Suc n) (advance k p) e = Some (Inr (advance k p, e))" for n
    using assms(3) by (auto simp: is_kw_rest)
  show ?thesis
  proof (rule runsI [of "Suc n0"])
    fix n assume "Suc n0 \<le> n"
    then show "and_expr (Suc n) p = Some (Inr (advance k p, e))" using n0 [of n] loop by (cases n) auto
  qed
qed

lemma runs_and:
  assumes "runs unary (down p) k e" and "depth p < 32" and "not_kw ''AND'' (drop k (rest p))"
  shows "runs and_expr p k e"
  using assms by (intro runs_and_stop) simp_all

lemma runs_and_two:
  assumes "runs unary (down p) k a" and "depth p < 32" and "drop k (rest p) = TIdent ''AND'' # r"
    and "\<not> semantic_follows_and (advance k p)"
    and "runs unary (down (advance (Suc k) p)) j b" and "not_kw ''AND'' (drop j r)"
  shows "runs and_expr p (Suc (k + j)) (And a b)"
proof -
  obtain n0 where n0: "\<And>n. n0 \<le> n \<Longrightarrow> deeper (unary n) p = Some (Inr (advance k p, a))"
    using runs_deeper [OF assms(1,2)] by blast
  obtain n1 where n1: "\<And>n. n1 \<le> n \<Longrightarrow>
      deeper (unary n) (advance (Suc k) p) = Some (Inr (advance j (advance (Suc k) p), b))"
    using runs_deeper [OF assms(5)] assms(2) by auto
  have "drop (Suc k) (rest p) = r" using assms(3) by (metis drop_Suc list.sel(3) tl_drop)
  then have r: "drop (Suc (k + j)) (rest p) = drop j r" by (metis add_Suc drop_drop add.commute)
  have loop2: "and_loop (Suc n) (advance (Suc (k + j)) p) e = Some (Inr (advance (Suc (k + j)) p, e))" for n e
    using assms(6) r by (simp add: is_kw_rest)
  have kw: "is_kw ''AND'' (advance k p)"
    using assms(3) by (simp add: is_kw_rest not_kw_def eq_ignore_ascii_case_def)
  show ?thesis
  proof (rule runsI [of "Suc (Suc (max n0 n1))"])
    fix n assume "Suc (Suc (max n0 n1)) \<le> n"
    then obtain m where m: "n = Suc (Suc m)" "n0 \<le> n" "n1 \<le> Suc m" by (cases n; cases "n - 1") auto
    show "and_expr (Suc n) p = Some (Inr (advance (Suc (k + j)) p, And a b))"
      using n0 [OF m(2)] n1 [OF m(3)] kw assms(4) loop2 unfolding m(1) by (simp add: add.commute)
  qed
qed

lemma runs_or:
  assumes "runs and_expr (down p) k e" and "depth p < 32" and "not_kw ''OR'' (drop k (rest p))"
  shows "runs or_expr p k e"
proof -
  obtain n0 where n0: "\<And>n. n0 \<le> n \<Longrightarrow> deeper (and_expr n) p = Some (Inr (advance k p, e))"
    using runs_deeper [OF assms(1,2)] by blast
  have loop: "or_loop (Suc n) (advance k p) e = Some (Inr (advance k p, e))" for n
    using assms(3) by (simp add: is_kw_rest eat_kw_case)
  show ?thesis
  proof (rule runsI [of "Suc n0"])
    fix n assume "Suc n0 \<le> n"
    then show "or_expr (Suc n) p = Some (Inr (advance k p, e))" using n0 [of n] loop by (cases n) auto
  qed
qed

lemma runs_or_two:
  assumes "runs and_expr (down p) k a" and "depth p < 32" and "drop k (rest p) = TIdent ''OR'' # r"
    and "runs and_expr (down (advance (Suc k) p)) j b" and "not_kw ''OR'' (drop j r)"
  shows "runs or_expr p (Suc (k + j)) (Or a b)"
proof -
  obtain n0 where n0: "\<And>n. n0 \<le> n \<Longrightarrow> deeper (and_expr n) p = Some (Inr (advance k p, a))"
    using runs_deeper [OF assms(1,2)] by blast
  obtain n1 where n1: "\<And>n. n1 \<le> n \<Longrightarrow>
      deeper (and_expr n) (advance (Suc k) p) = Some (Inr (advance j (advance (Suc k) p), b))"
    using runs_deeper [OF assms(4)] assms(2) by auto
  have "drop (Suc k) (rest p) = r" using assms(3) by (metis drop_Suc list.sel(3) tl_drop)
  then have r: "drop (Suc (k + j)) (rest p) = drop j r" by (metis add_Suc drop_drop add.commute)
  have loop2: "or_loop (Suc n) (advance (Suc (k + j)) p) e = Some (Inr (advance (Suc (k + j)) p, e))" for n e
    using assms(5) r by (simp add: is_kw_rest eat_kw_case)
  have kw: "is_kw ''OR'' (advance k p)"
    using assms(3) by (simp add: is_kw_rest not_kw_def eq_ignore_ascii_case_def)
  show ?thesis
  proof (rule runsI [of "Suc (Suc (max n0 n1))"])
    fix n assume "Suc (Suc (max n0 n1)) \<le> n"
    then obtain m where m: "n = Suc (Suc m)" "n0 \<le> n" "n1 \<le> Suc m" by (cases n; cases "n - 1") auto
    show "or_expr (Suc n) p = Some (Inr (advance (Suc (k + j)) p, Or a b))"
      using n0 [OF m(2)] n1 [OF m(3)] kw loop2 unfolding m(1) by (simp add: eat_kw_case add.commute)
  qed
qed

section \<open>Operands\<close>

definition stops :: "tok list \<Rightarrow> bool" where
  "stops r \<longleftrightarrow> r = [] \<or> hd r = RParen"

lemma stops_not_kw: "stops r \<Longrightarrow> not_kw kw r"
  by (cases r) (auto simp: stops_def not_kw_def)

lemma stops_no_op: "stops (drop k (rest p)) \<Longrightarrow> cmp_op_of (peek (advance k p)) = Inr None"
  by (cases "drop k (rest p)") (auto simp: stops_def peek_rest cmp_op_of_def)

lemma lower_consts [simp]:
  "to_ascii_lowercase ''true'' = ''true''" "to_ascii_lowercase ''false'' = ''false''"
  "to_ascii_lowercase ''attributes'' = ''attributes''" "to_ascii_lowercase ''NOT'' = ''not''"
  "to_ascii_lowercase ''embedding'' = ''embedding''"
  by code_simp+

lemma length_lit_toks [simp]: "length (lit_toks l) = 1"
  by (cases l rule: lit_toks.cases) auto

lemma parse_literal_lit: "rest p = lit_toks l @ r \<Longrightarrow> parse_literal p = Inr (bump p, l)"
  by (cases l rule: lit_toks.cases)
    (auto simp: parse_literal_def next_case peek_rest eq_ignore_ascii_case_def)

lemma in_list_lits:
  "rest p = lits_toks xs @ RParen # r \<Longrightarrow> xs \<noteq> [] \<Longrightarrow> length acc + length xs \<le> 1024 \<Longrightarrow>
   in_list p acc = Inr (advance (length (lits_toks xs)) p, acc @ xs)"
proof (induction xs arbitrary: p acc rule: lits_toks.induct)
  case (2 l)
  have lit: "parse_literal p = Inr (bump p, l)" using 2 by (intro parse_literal_lit) simp
  have "tl (rest p) = RParen # r" using 2 by (cases l rule: lit_toks.cases) auto
  then show ?case
    using 2 lit by (simp add: in_list.simps [of p] sql_limit_defs eat_case peek_rest bump_is_advance)
next
  case (3 l l' ls)
  have lit: "parse_literal p = Inr (bump p, l)" using 3 by (intro parse_literal_lit) simp
  have tl: "tl (rest p) = Comma # lits_toks (l' # ls) @ RParen # r"
    using 3 by (cases l rule: lit_toks.cases) auto
  have "in_list (bump (bump p)) (acc @ [l]) =
    Inr (advance (length (lits_toks (l' # ls))) (bump (bump p)), (acc @ [l]) @ l' # ls)"
    using 3 tl by (intro "3.IH") simp_all
  then show ?case
    using 3 lit tl
    by (simp add: in_list.simps [of p] sql_limit_defs eat_case peek_rest bump_is_advance del: lits_toks.simps)
      (simp add: bump_is_advance)
qed simp

lemma not_kw_not_lit: "not_kw ''NOT'' (lit_toks l @ r)"
  by (cases l rule: lit_toks.cases) (auto simp: not_kw_def eq_ignore_ascii_case_def)

lemma not_kw_not_operand: "printable e \<Longrightarrow> not_kw ''NOT'' (print_operand e @ r)"
proof (cases e)
  case (Literal l)
  then show ?thesis by (simp add: print_operand_def not_kw_not_lit)
qed (auto simp: print_operand_def not_kw_def plain_column_def eq_ignore_ascii_case_def)

lemma no_semantic_operand:
  assumes "rest p = TIdent ''AND'' # print_operand e @ r" and "stops r"
  shows "\<not> semantic_follows_and p"
proof -
  have at: "tok_at p (pos p + 1) = Some (hd (print_operand e @ r))"
    "tok_at p (pos p + 1 + 1) = (case tl (print_operand e @ r) of [] \<Rightarrow> None | t # _ \<Rightarrow> Some t)"
    if "print_operand e \<noteq> []"
    using that assms(1) tok_at_rest [of p 1] tok_at_rest [of p 2]
    by (cases "print_operand e @ r"; cases "tl (print_operand e @ r)"; simp)+
  have ne: "print_operand e \<noteq> []"
    by (cases e) (auto simp: print_operand_def simp flip: length_0_conv)
  have "\<not> (ident_is (Some (hd (print_operand e @ r))) ''embedding'' \<and>
     (case tl (print_operand e @ r) of [] \<Rightarrow> None | t # _ \<Rightarrow> Some t) = Some Approx)"
  proof (cases e)
    case (Column c)
    then show ?thesis using assms(2) by (cases r) (auto simp: print_operand_def stops_def)
  next
    case (Literal l)
    then show ?thesis
      using assms(2) by (cases r; cases l rule: lit_toks.cases) (auto simp: print_operand_def stops_def)
  qed (auto simp: print_operand_def ident_is_def)
  then show ?thesis using at ne by (simp add: semantic_follows_and_def is_semantic_at_def)
qed

lemma runs_atom:
  assumes "atomic e" and "printable e" and "rest p = print_or e @ r"
  shows "runs primary p (length (print_or e)) e"
proof (cases e)
  case (Column c)
  then show ?thesis
    using assms by (intro runsI [of 0]) (auto simp: eat_case peek_rest Let_def plain_column_def bump_is_advance)
next
  case (Attribute k)
  then have r: "rest p = TIdent ''attributes'' # LBracket # TStr k # RBracket # r" using assms by simp
  have "tok_at p (pos p + 1) = Some LBracket" using tok_at_rest [of p 1] r by simp
  moreover have "attribute_key (bump p) = Inr (advance 4 p, k)"
    using r by (simp add: attribute_key_def expect_tok_def next_case peek_rest bump_is_advance)
  ultimately show ?thesis
    using r Attribute by (intro runsI [of 0]) (simp add: eat_case peek_rest Let_def)
next
  case (Literal l)
  then have lit: "parse_literal p = Inr (bump p, l)" using assms by (intro parse_literal_lit) simp
  show ?thesis
    using assms Literal lit
    by (intro runsI [of 0], cases l rule: lit_toks.cases)
      (auto simp: eat_case peek_rest Let_def bump_is_advance)
qed (use assms in auto)

lemma runs_paren:
  assumes "rest p = LParen # print_or e @ RParen # r" and "depth p < 32"
    and "runs or_expr (down (bump p)) (length (print_or e)) e"
  shows "runs primary p (length (print_or e) + 2) e"
proof -
  obtain n0 where n0: "\<And>n. n0 \<le> n \<Longrightarrow>
      deeper (or_expr n) (bump p) = Some (Inr (advance (length (print_or e)) (bump p), e))"
    using runs_deeper [OF assms(3)] assms(2) by auto
  have "expect_tok RParen (advance (Suc (length (print_or e))) p) = Inr (advance (Suc (Suc (length (print_or e)))) p, ())"
    using assms(1) by (simp add: expect_tok_def peek_rest)
  then show ?thesis
    using n0 assms(1) by (intro runsI [of n0]) (simp add: eat_case peek_rest bump_is_advance)
qed

text \<open>From a comparison up to the top of the descent.\<close>

lemma runs_lift:
  assumes "runs cmp (down (down (down p))) k e" and "depth p < 30"
    and "not_kw ''NOT'' (rest p)" and "stops (drop k (rest p))"
  shows "runs or_expr p k e"
  using assms
  by (intro runs_or runs_and runs_unary) (auto intro: stops_not_kw)

lemma runs_lift_and:
  assumes "runs cmp (down (down p)) k e" and "depth p < 31"
    and "not_kw ''NOT'' (rest p)" and "not_kw ''AND'' (drop k (rest p))"
  shows "runs and_expr p k e"
  using assms by (intro runs_and runs_unary) auto

definition or_reads :: "predicate \<Rightarrow> bool" where
  "or_reads e \<longleftrightarrow> (\<forall>p r. rest p = print_or e @ r \<longrightarrow> stops r \<longrightarrow> depth p + levels_or e \<le> 32 \<longrightarrow>
     runs or_expr p (length (print_or e)) e)"

lemma or_readsD:
  "or_reads e \<Longrightarrow> rest p = print_or e @ r \<Longrightarrow> stops r \<Longrightarrow> depth p + levels_or e \<le> 32 \<Longrightarrow>
   runs or_expr p (length (print_or e)) e"
  by (simp add: or_reads_def)

lemma operand_runs:
  assumes "or_reads e" and "printable e" and "rest p = print_operand e @ r"
    and "depth p + levels_operand e \<le> 32"
  shows "runs primary p (length (print_operand e)) e"
proof (cases "atomic e")
  case True
  then show ?thesis using runs_atom [of e p r] assms by (simp add: print_operand_def)
next
  case False
  then have r: "rest p = LParen # print_or e @ RParen # r" and d: "depth p + Suc (levels_or e) \<le> 32"
    using assms(3,4) by (simp_all add: print_operand_def levels_operand_def)
  have "runs or_expr (down (bump p)) (length (print_or e)) e"
    using d r by (intro or_readsD [OF assms(1), of _ "RParen # r"]) (simp_all add: stops_def)
  then show ?thesis using runs_paren [OF r] d False by (simp add: print_operand_def)
qed

lemma not_kw_op: "not_kw kw (op_tok op # r)"
  by (cases op) (simp_all add: not_kw_def)

lemma op_of_kw: "cmp_op_of (Some (TIdent s)) = Inr None"
  by (simp add: cmp_op_of_def)

lemma eq_ignore_consts [simp]:
  "\<not> eq_ignore_ascii_case ''AND'' ''IN''" "\<not> eq_ignore_ascii_case ''OR'' ''IN''"
  "\<not> eq_ignore_ascii_case ''OR'' ''AND''" "\<not> eq_ignore_ascii_case ''AND'' ''OR''"
  by code_simp+

text \<open>An operand in front of a connective is a whole comparison.\<close>

lemma operand_cmp:
  assumes "or_reads e" and "printable e" and "rest p = print_operand e @ r"
    and "Suc (depth p) + levels_operand e \<le> 32"
    and "stops r \<or> (\<exists>s r'. r = TIdent s # r' \<and> \<not> eq_ignore_ascii_case s ''IN'')"
  shows "runs cmp p (length (print_operand e)) e"
proof -
  have "not_kw ''IN'' r" "cmp_op_of (case r of [] \<Rightarrow> None | t # _ \<Rightarrow> Some t) = Inr None"
    using assms(5) by (cases r; auto simp: stops_def not_kw_def cmp_op_of_def)+
  then show ?thesis
    using assms operand_runs [OF assms(1,2), of "down p" r]
    by (intro runs_cmp) (simp_all add: peek_rest)
qed

lemma levels_eqs:
  "levels_or (Cmp a op b) = 4 + max (levels_operand a) (levels_operand b)"
  "levels_or (And a b) = 4 + max (levels_operand a) (levels_operand b)"
  "levels_or (Or a b) = 4 + max (levels_operand a) (levels_operand b)"
  "levels_or (Not a) = 5 + levels_operand a"
  "levels_or (In a xs) = 4 + levels_operand a"
  by (simp_all add: levels_operand_def)

lemma print_eqs:
  "print_or (Cmp a op b) = print_operand a @ op_tok op # print_operand b"
  "print_or (And a b) = print_operand a @ TIdent ''AND'' # print_operand b"
  "print_or (Or a b) = print_operand a @ TIdent ''OR'' # print_operand b"
  "print_or (Not a) = TIdent ''NOT'' # print_operand a"
  "print_or (In a xs) = print_operand a @ TIdent ''IN'' # LParen # lits_toks xs @ [RParen]"
  by (simp_all add: print_operand_def)

declare print_or.simps(4-8) [simp del] print_eqs [simp]
declare levels_or.simps(1-5) [simp del] levels_eqs [simp]

lemma reads_atom: "atomic e \<Longrightarrow> printable e \<Longrightarrow> or_reads e"
  unfolding or_reads_def
proof (intro allI impI)
  fix p r
  assume e: "atomic e" "printable e" and r: "rest p = print_or e @ r" "stops r"
    and d: "depth p + levels_or e \<le> 32"
  have l: "levels_or e = 4" using e(1) by (cases e) simp_all
  have nk: "not_kw ''NOT'' (rest p)" using not_kw_not_operand [OF e(2), of r] e(1) r by (simp add: print_operand_def)
  have "runs cmp (down (down (down p))) (length (print_or e)) e"
    using runs_atom [OF e, of "down (down (down (down p)))" r] r d l
    by (intro runs_cmp) (auto intro: stops_not_kw stops_no_op simp: peek_rest stops_def cmp_op_of_def split: list.split)
  then show "runs or_expr p (length (print_or e)) e"
    using d l nk r by (intro runs_lift) simp_all
qed

lemma reads_cmp:
  assumes "or_reads a" "printable a" "or_reads b" "printable b"
  shows "or_reads (Cmp a op b)"
  unfolding or_reads_def
proof (intro allI impI)
  fix p r
  assume r: "rest p = print_or (Cmp a op b) @ r" "stops r" and d: "depth p + levels_or (Cmp a op b) \<le> 32"
  let ?q = "down (down (down p))" and ?k = "length (print_operand a)"
  have "runs primary (down ?q) ?k a"
    using r d by (intro operand_runs assms) simp_all
  moreover have "runs primary (down (advance (Suc ?k) ?q)) (length (print_operand b)) b"
    using r d by (intro operand_runs assms) simp_all
  ultimately have "runs cmp ?q (Suc (?k + length (print_operand b))) (Cmp a op b)"
    using r d by (intro runs_cmp_op) simp_all
  then show "runs or_expr p (length (print_or (Cmp a op b))) (Cmp a op b)"
    using r d not_kw_not_operand [OF assms(2)] by (intro runs_lift) simp_all
qed

lemma reads_and:
  assumes "or_reads a" "printable a" "or_reads b" "printable b"
  shows "or_reads (And a b)"
  unfolding or_reads_def
proof (intro allI impI)
  fix p r
  assume r: "rest p = print_or (And a b) @ r" "stops r" and d: "depth p + levels_or (And a b) \<le> 32"
  let ?q = "down p" and ?k = "length (print_operand a)" and ?j = "length (print_operand b)"
  have "runs cmp (down (down ?q)) ?k a"
    using r d by (intro operand_cmp assms) auto
  then have ua: "runs unary (down ?q) ?k a"
    using r d not_kw_not_operand [OF assms(2)] by (intro runs_unary) simp_all
  have "runs cmp (down (down (advance (Suc ?k) ?q))) ?j b"
    using r d by (intro operand_cmp assms) auto
  then have ub: "runs unary (down (advance (Suc ?k) ?q)) ?j b"
    using r d not_kw_not_operand [OF assms(4)] by (intro runs_unary) simp_all
  have "\<not> semantic_follows_and (advance ?k ?q)"
    using r by (intro no_semantic_operand) simp_all
  then have "runs and_expr ?q (Suc (?k + ?j)) (And a b)"
    using ua ub r d by (intro runs_and_two [where r = "print_operand b @ r"])
      (simp_all add: stops_not_kw)
  then show "runs or_expr p (length (print_or (And a b))) (And a b)"
    using r d by (intro runs_or) (simp_all add: stops_not_kw)
qed

lemma reads_or:
  assumes "or_reads a" "printable a" "or_reads b" "printable b"
  shows "or_reads (Or a b)"
  unfolding or_reads_def
proof (intro allI impI)
  fix p r
  assume r: "rest p = print_or (Or a b) @ r" "stops r" and d: "depth p + levels_or (Or a b) \<le> 32"
  let ?k = "length (print_operand a)" and ?j = "length (print_operand b)"
  have "runs cmp (down (down (down p))) ?k a"
    using r d by (intro operand_cmp assms) auto
  then have ua: "runs and_expr (down p) ?k a"
    using r d not_kw_not_operand [OF assms(2)]
    by (intro runs_lift_and) (simp_all add: not_kw_def)
  have "runs cmp (down (down (down (advance (Suc ?k) p)))) ?j b"
    using r d by (intro operand_cmp assms) auto
  then have ub: "runs and_expr (down (advance (Suc ?k) p)) ?j b"
    using r d not_kw_not_operand [OF assms(4)]
    by (intro runs_lift_and) (simp_all add: stops_not_kw)
  show "runs or_expr p (length (print_or (Or a b))) (Or a b)"
    using runs_or_two [OF ua _ _ ub, of "print_operand b @ r"] r d
    by (simp add: stops_not_kw)
qed

lemma reads_not:
  assumes "or_reads a" "printable a"
  shows "or_reads (Not a)"
  unfolding or_reads_def
proof (intro allI impI)
  fix p r
  assume r: "rest p = print_or (Not a) @ r" "stops r" and d: "depth p + levels_or (Not a) \<le> 32"
  let ?q = "down (down p)" and ?k = "length (print_operand a)"
  have "runs cmp (down (down (bump ?q))) ?k a"
    using r d by (intro operand_cmp [where r = r] assms) auto
  then have "runs unary (down (bump ?q)) ?k a"
    using r d not_kw_not_operand [OF assms(2)] by (intro runs_unary) simp_all
  then have "runs unary ?q (Suc ?k) (Not a)"
    using r d by (intro runs_not [where r = "print_operand a @ r"]) simp_all
  then show "runs or_expr p (length (print_or (Not a))) (Not a)"
    using r d by (intro runs_or runs_and) (simp_all add: stops_not_kw)
qed

lemma runs_cmp_in:
  assumes "runs primary (down p) k a" and "depth p < 32"
    and "drop k (rest p) = TIdent ''IN'' # LParen # lits_toks xs @ RParen # r"
    and "xs \<noteq> []" and "length xs \<le> 1024"
  shows "runs cmp p (k + length (lits_toks xs) + 3) (In a xs)"
proof -
  obtain n0 where n0: "\<And>n. n0 \<le> n \<Longrightarrow> deeper (primary n) p = Some (Inr (advance k p, a))"
    using runs_deeper [OF assms(1,2)] by blast
  have tail: "drop (Suc (Suc k)) (rest p) = lits_toks xs @ RParen # r"
    "drop (Suc k) (rest p) = LParen # lits_toks xs @ RParen # r"
    using assms(3) by (metis drop_Suc list.sel(3) tl_drop)+
  have l: "in_list (advance (Suc (Suc k)) p) [] = Inr (advance (length (lits_toks xs)) (advance (Suc (Suc k)) p), xs)"
    using in_list_lits [of "advance (Suc (Suc k)) p" xs r "[]"] tail assms(4,5) by simp
  have "drop (Suc (Suc (k + length (lits_toks xs)))) (rest p) = RParen # r"
    using arg_cong [OF tail(1), of "drop (length (lits_toks xs))"] by (simp add: add.commute)
  then have e: "expect_tok RParen (advance (Suc (Suc (k + length (lits_toks xs)))) p) =
      Inr (advance (Suc (Suc (Suc (k + length (lits_toks xs))))) p, ())"
    by (simp add: expect_tok_def peek_rest)
  have o: "expect_tok LParen (advance (Suc k) p) = Inr (advance (Suc (Suc k)) p, ())"
    using tail by (simp add: expect_tok_def peek_rest)
  have i: "is_kw ''IN'' (advance k p)"
    using assms(3) by (simp add: is_kw_rest not_kw_def eq_ignore_ascii_case_def)
  show ?thesis
    by (rule runsI [of n0]) (simp add: n0 eat_kw_case i o l e numeral_3_eq_3)
qed

lemma reads_in:
  assumes "or_reads a" "printable (In a xs)"
  shows "or_reads (In a xs)"
  unfolding or_reads_def
proof (intro allI impI)
  fix p r
  assume r: "rest p = print_or (In a xs) @ r" "stops r" and d: "depth p + levels_or (In a xs) \<le> 32"
  let ?q = "down (down (down p))" and ?k = "length (print_operand a)"
  have "runs primary (down ?q) ?k a"
    using r d assms(2) by (intro operand_runs assms(1)) simp_all
  then have "runs cmp ?q (?k + length (lits_toks xs) + 3) (In a xs)"
    using r d assms(2) by (intro runs_cmp_in [where r = r]) simp_all
  then show "runs or_expr p (length (print_or (In a xs))) (In a xs)"
    using r d not_kw_not_operand [of a] assms(2) by (intro runs_lift) (simp_all add: numeral_3_eq_3)
qed

lemma reads_all: "printable e \<Longrightarrow> or_reads e"
  by (induction e) (auto intro: reads_atom reads_cmp reads_and reads_or reads_not reads_in)

lemma runs_expr:
  assumes "runs or_expr (down p) k e" and "depth p \<le> 31"
  shows "expr p = Some (Inr (advance k p, e))"
proof -
  obtain n0 where n0: "\<And>n. n0 \<le> n \<Longrightarrow> deeper (or_expr n) p = Some (Inr (advance k p, e))"
    using runs_deeper [OF assms(1)] assms(2) by fastforce
  obtain r where r: "expr p = Some r" using expr_total [OF assms(2)] by auto
  let ?m = "max n0 (parse_fuel p)"
  have "below (or_expr (parse_fuel p) q) (or_expr ?m q)" for q
    using or_expr_more [of "parse_fuel p" q _ ?m] by (cases "or_expr (parse_fuel p) q") (simp_all add: below_def)
  then have "below (deeper (or_expr (parse_fuel p)) p) (deeper (or_expr ?m) p)" by (rule below_deeper)
  then show ?thesis using r n0 [of ?m] by (simp add: expr_def below_def)
qed

section \<open>A semantic predicate behind a disjunction\<close>

definition semantic_toks :: "string \<Rightarrow> tok list" where
  "semantic_toks x = [TIdent ''embedding'', Approx, TStr x]"

definition or_and_semantic :: "predicate \<Rightarrow> predicate \<Rightarrow> string \<Rightarrow> tok list" where
  "or_and_semantic a b x =
     print_operand a @ TIdent ''OR'' # print_operand b @ TIdent ''AND'' # semantic_toks x"

lemma semantic_aheadI: "rest p = semantic_toks x \<Longrightarrow> is_semantic_ahead p"
  using tok_at_rest [of p 0] tok_at_rest [of p 1]
  by (simp add: is_semantic_ahead_def is_semantic_at_def semantic_toks_def ident_is_def eq_ignore_ascii_case_def)

lemma semantic_follows_andI: "rest p = TIdent ''AND'' # semantic_toks x \<Longrightarrow> semantic_follows_and p"
  using tok_at_rest [of p 1] tok_at_rest [of p 2]
  by (simp add: semantic_follows_and_def is_semantic_at_def semantic_toks_def ident_is_def eq_ignore_ascii_case_def)

lemma operand_not_semantic:
  assumes "rest p = print_operand e @ TIdent s # r"
  shows "\<not> is_semantic_ahead p"
proof -
  have at: "tok_at p (pos p) = Some (hd (print_operand e @ TIdent s # r))"
    "tok_at p (pos p + 1) = (case tl (print_operand e @ TIdent s # r) of [] \<Rightarrow> None | t # _ \<Rightarrow> Some t)"
    using assms tok_at_rest [of p 0] tok_at_rest [of p 1]
    by (cases "print_operand e @ TIdent s # r"; cases "tl (print_operand e @ TIdent s # r)"; simp)+
  show ?thesis
  proof (cases e)
    case (Literal l)
    then show ?thesis
      using at by (cases l rule: lit_toks.cases)
        (auto simp: print_operand_def is_semantic_ahead_def is_semantic_at_def ident_is_def)
  qed (use at in \<open>auto simp: print_operand_def is_semantic_ahead_def is_semantic_at_def ident_is_def\<close>)
qed

lemma next_rest: "rest p = t # r \<Longrightarrow> next_tok p = (bump p, Some t)"
  by (simp add: next_tok_def peek_rest)

lemma expr_or_and_semantic:
  assumes "printable a" "printable b" "levels_operand a \<le> 27" "levels_operand b \<le> 27"
    and "rest p = or_and_semantic a b x" "depth p = 0"
  shows "expr p = Some (Inr (advance (Suc (length (print_operand a) + length (print_operand b))) p, Or a b))"
proof (rule runs_expr)
  let ?k = "length (print_operand a)" and ?j = "length (print_operand b)" and ?q = "down p"
  have r: "rest p = print_operand a @ TIdent ''OR'' # print_operand b @ TIdent ''AND'' # semantic_toks x"
    using assms(5) by (simp add: or_and_semantic_def)
  have "runs cmp (down (down (down ?q))) ?k a"
    using assms(1-4,6) r by (intro operand_cmp reads_all) auto
  then have ua: "runs and_expr (down ?q) ?k a"
    using assms(1-4,6) r not_kw_not_operand [OF assms(1)] by (intro runs_lift_and) (simp_all add: not_kw_def)
  have "runs cmp (down (down (down (advance (Suc ?k) ?q)))) ?j b"
    using assms(1-4,6) r by (intro operand_cmp reads_all) auto
  then have "runs unary (down (down (advance (Suc ?k) ?q))) ?j b"
    using assms(1-4,6) r not_kw_not_operand [OF assms(2)] by (intro runs_unary) simp_all
  moreover have "semantic_follows_and (advance ?j (down (advance (Suc ?k) ?q)))"
    using r by (intro semantic_follows_andI) simp
  ultimately have ub: "runs and_expr (down (advance (Suc ?k) ?q)) ?j b"
    using assms by (intro runs_and_stop) simp_all
  show "runs or_expr ?q (Suc (?k + ?j)) (Or a b)"
    using runs_or_two [OF ua _ _ ub, of "print_operand b @ TIdent ''AND'' # semantic_toks x"] assms(6) r
    by (simp add: not_kw_def)
  show "depth p \<le> 31" using assms by simp
qed

section \<open>Properties\<close>

text \<open>
  C14. Parsing inverts printing: for every expression over columns, attributes, literals, the six
  comparisons, \<open>AND\<close>, \<open>OR\<close>, \<open>NOT\<close> and \<open>IN\<close> (lists of 1 to 1024 literals) that needs at most the 32
  levels the parser allows, the parser returns that expression and consumes all of its tokens.
\<close>

theorem print_parse_roundtrip:
  assumes "printable e" and "levels_or e \<le> 31"
  shows "expr (parser_new (print_or e)) =
    Some (Inr (advance (length (print_or e)) (parser_new (print_or e)), e))"
proof (rule runs_expr)
  show "runs or_expr (down (parser_new (print_or e))) (length (print_or e)) e"
    using assms by (intro or_readsD [OF reads_all, of _ _ "[]"]) (simp_all add: stops_def rest_def parser_new_def down_def)
qed (simp add: parser_new_def)

definition sample_expr :: predicate where
  "sample_expr = And (Cmp (Column ''severity'') CGtEq (Literal (LInt 3)))
     (Not (In (Attribute ''host'') [LStr ''a'', LBool True]))"

theorem print_parse_roundtrip_witness:
  "expr (parser_new (print_or sample_expr)) =
    Some (Inr (advance (length (print_or sample_expr)) (parser_new (print_or sample_expr)), sample_expr))"
proof (rule print_parse_roundtrip)
  show "printable sample_expr" by code_simp
  show "levels_or sample_expr \<le> 31" by (simp add: sample_expr_def levels_operand_def)
qed

text \<open>
  C39. The semantic predicate is lifted out of a disjunction: the clause
  \<open>a OR b AND embedding ~~ 'x'\<close> is read as the filter \<open>a OR b\<close> beside the semantic query \<open>x\<close>, although
  \<open>AND\<close> binds tighter than \<open>OR\<close> in every other expression and the parser means to refuse a
  semantic predicate below an \<open>OR\<close>.
\<close>

theorem semantic_lifted_from_or:
  assumes "printable a" "printable b" "levels_operand a \<le> 27" "levels_operand b \<le> 27"
    and "trim_chars (utf8_chars x) \<noteq> []"
  shows "\<exists>p. where_clause (parser_new (or_and_semantic a b x)) = Some (Inr (p, (Some (Or a b), Some \<lparr>sem_text = x\<rparr>)))"
proof -
  let ?p = "parser_new (or_and_semantic a b x)" and ?k = "length (print_operand a)" and ?j = "length (print_operand b)"
  have r: "rest ?p = or_and_semantic a b x" "depth ?p = 0" by (simp_all add: parser_new_def rest_def)
  have e: "expr ?p = Some (Inr (advance (Suc (?k + ?j)) ?p, Or a b))"
    by (rule expr_or_and_semantic [OF assms(1-4) r])
  have s0: "\<not> is_semantic_ahead ?p"
    using operand_not_semantic [of ?p] r by (simp add: or_and_semantic_def)
  have kw: "is_kw ''AND'' (advance (Suc (?k + ?j)) ?p)"
    using r by (simp add: is_kw_rest or_and_semantic_def not_kw_def eq_ignore_ascii_case_def)
  have s1: "is_semantic_ahead (advance (Suc (Suc (?k + ?j))) ?p)"
    using r by (intro semantic_aheadI) (simp add: or_and_semantic_def)
  have "rest (advance (4 + (?k + ?j)) ?p) = [TStr x]"
    using r by (simp add: or_and_semantic_def semantic_toks_def drop_Cons')
  from next_rest [OF this]
  have nx: "next_tok (advance (4 + (?k + ?j)) ?p) = (advance (Suc (4 + (?k + ?j))) ?p, Some (TStr x))"
    by simp
  have stop: "\<not> is_kw ''AND'' (advance (5 + (?k + ?j)) ?p)"
    using r by (simp add: is_kw_rest or_and_semantic_def semantic_toks_def not_kw_def drop_Cons')
  obtain n where n: "length (toks ?p) + 1 = Suc (Suc n)" by (simp add: parser_new_def or_and_semantic_def)
  show ?thesis
    unfolding where_clause_def n using assms(5)
    by (simp add: s0 e kw s1 nx stop eat_kw_case reduce_and_def del: add_2_eq_Suc' add_2_eq_Suc)
qed

theorem semantic_lifted_from_or_witness:
  "\<exists>p. where_clause (parser_new (or_and_semantic (Column ''a'') (Column ''b'') ''x'')) =
    Some (Inr (p, (Some (Or (Column ''a'') (Column ''b'')), Some \<lparr>sem_text = ''x''\<rparr>)))"
  by (rule semantic_lifted_from_or)
    (simp_all add: levels_operand_def plain_column_def to_ascii_lowercase_def ascii_lower_def trim_chars_def is_whitespace_def)

end
