(* ===== verification/SqlBinder.thy ===== *)
theory SqlBinder
  imports SqlParser
begin

text \<open>
  The binder (\<open>prism-sql/src/binder.rs\<close>): a parsed statement becomes a plan which carries the
  tenant of the session. Columns are checked against the schema; the defaults of the four
  controls come from \<open>prism-types/src/query.rs\<close>.
\<close>

section \<open>Schema and plan\<close>

definition COLUMNS :: "string list" where
  "COLUMNS = [''event_id'', ''tenant_id'', ''event_time'', ''observed_time'', ''event_name'', ''cost'',
     ''error'', ''body'', ''trace_id'', ''span_id'', ''score'']"

definition NUMERIC :: "string list" where
  "NUMERIC = [''cost'', ''event_time'', ''observed_time'', ''score'']"

definition DEFAULT_NPROBE :: nat where "DEFAULT_NPROBE = 11"
definition DEFAULT_CANDIDATES :: nat where "DEFAULT_CANDIDATES = 50"
definition DEFAULT_RERANK :: nat where "DEFAULT_RERANK = 50"

record session =
  session_tenant :: string

record plan =
  p_tenant :: string
  p_filter :: "predicate option"
  p_semantic :: "string option"
  p_projections :: "item list"
  p_group_by :: "string list"
  p_limit :: nat
  p_nprobe :: nat
  p_candidates :: nat
  p_rerank :: nat

fun is_agg_item :: "item \<Rightarrow> bool" where
  "is_agg_item (ItAgg _) = True" | "is_agg_item _ = False"

fun is_column_or_star :: "item \<Rightarrow> bool" where
  "is_column_or_star (ItColumn _) = True" | "is_column_or_star ItStar = True" | "is_column_or_star _ = False"

definition is_aggregate :: "plan \<Rightarrow> bool" where
  "is_aggregate pl \<longleftrightarrow> p_group_by pl \<noteq> [] \<or> list_ex is_agg_item (p_projections pl)"

section \<open>Checks\<close>

definition check_column :: "string \<Rightarrow> unit res" where
  "check_column c = (if c \<in> set COLUMNS then Inr () else Inl (Invalid ''unknown column''))"

fun agg_column :: "agg \<Rightarrow> string option" where
  "agg_column CountStar = None"
| "agg_column (Count c) = Some c"
| "agg_column (Sum c) = Some c"
| "agg_column (Avg c) = Some c"
| "agg_column (Min c) = Some c"
| "agg_column (Max c) = Some c"

fun needs_number :: "agg \<Rightarrow> bool" where
  "needs_number (Sum _) = True" | "needs_number (Avg _) = True" | "needs_number _ = False"

definition check_agg :: "agg \<Rightarrow> unit res" where
  "check_agg a = (case agg_column a of
       None \<Rightarrow> Inr ()
     | Some col \<Rightarrow> rbind (check_column col) (\<lambda>_.
         if needs_number a \<and> col \<notin> set NUMERIC then Inl (Invalid ''not numeric'') else Inr ()))"

fun check_expr :: "predicate \<Rightarrow> unit res" where
  "check_expr (Column c) = check_column c"
| "check_expr (Attribute _) = Inr ()"
| "check_expr (Literal _) = Inr ()"
| "check_expr (Not a) = check_expr a"
| "check_expr (And a b) = rbind (check_expr a) (\<lambda>_. check_expr b)"
| "check_expr (Or a b) = rbind (check_expr a) (\<lambda>_. check_expr b)"
| "check_expr (Cmp a _ b) = rbind (check_expr a) (\<lambda>_. check_expr b)"
| "check_expr (In a _) = check_expr a"

fun check_item :: "item \<Rightarrow> unit res" where
  "check_item (ItColumn c) = check_column c"
| "check_item (ItAgg a) = check_agg a"
| "check_item ItStar = Inr ()"
| "check_item (ItAttribute _) = Inr ()"

definition check_group :: "string \<Rightarrow> unit res" where
  "check_group g = rbind (check_column g) (\<lambda>_.
     if g = ''score'' \<or> g = ''semantic_cluster'' then Inl (Invalid ''cannot GROUP BY score'') else Inr ())"

definition bind :: "select \<Rightarrow> session \<Rightarrow> plan res" where
  "bind st s =
     (if session_tenant s = [] then Inl (Invariant ''no session tenant'')
      else rbind (case filter_expr st of None \<Rightarrow> Inr () | Some f \<Rightarrow> check_expr f) (\<lambda>_.
        rbind (check_all check_item (items st)) (\<lambda>_.
        rbind (check_all check_group (group_by st)) (\<lambda>_.
          if group_by st = [] \<and> list_ex is_agg_item (items st) \<and> list_ex is_column_or_star (items st)
          then Inl (Invalid ''a column beside an aggregate without GROUP BY'')
          else Inr \<lparr>p_tenant = session_tenant s, p_filter = filter_expr st,
            p_semantic = map_option sem_text (semantic_pred st), p_projections = items st,
            p_group_by = group_by st, p_limit = (case limit st of None \<Rightarrow> 10 | Some l \<Rightarrow> l),
            p_nprobe = (case c_nprobe (controls_of st) of None \<Rightarrow> DEFAULT_NPROBE | Some v \<Rightarrow> v),
            p_candidates = (case c_candidates (controls_of st) of None \<Rightarrow> DEFAULT_CANDIDATES | Some v \<Rightarrow> v),
            p_rerank = (case c_rerank (controls_of st) of None \<Rightarrow> DEFAULT_RERANK | Some v \<Rightarrow> v)\<rparr>))))"

section \<open>What binding accepts\<close>

fun pred_columns :: "predicate \<Rightarrow> string set" where
  "pred_columns (Column c) = {c}"
| "pred_columns (Attribute _) = {}"
| "pred_columns (Literal _) = {}"
| "pred_columns (Not a) = pred_columns a"
| "pred_columns (And a b) = pred_columns a \<union> pred_columns b"
| "pred_columns (Or a b) = pred_columns a \<union> pred_columns b"
| "pred_columns (Cmp a _ b) = pred_columns a \<union> pred_columns b"
| "pred_columns (In a _) = pred_columns a"

fun item_columns :: "item \<Rightarrow> string set" where
  "item_columns (ItColumn c) = {c}"
| "item_columns (ItAgg a) = set_option (agg_column a)"
| "item_columns _ = {}"

definition numeric_ok :: "item \<Rightarrow> bool" where
  "numeric_ok i = (case i of ItAgg (Sum c) \<Rightarrow> c \<in> set NUMERIC | ItAgg (Avg c) \<Rightarrow> c \<in> set NUMERIC | _ \<Rightarrow> True)"

lemma check_column_ok [simp]: "is_ok (check_column c) \<longleftrightarrow> c \<in> set COLUMNS" "check_column c = Inr u \<longleftrightarrow> c \<in> set COLUMNS"
  by (auto simp: check_column_def is_ok_def)

lemma is_ok_rbind_unit [simp]: "is_ok (rbind (m :: 'e + unit) f) \<longleftrightarrow> is_ok m \<and> is_ok (f ())"
  by (cases m) (simp_all add: is_ok_def)

lemma is_ok_if [simp]: "is_ok (if b then Inl e else Inr x) \<longleftrightarrow> \<not> b"
  by (simp add: is_ok_def)

lemma is_ok_consts [simp]: "is_ok (Inr x)" "\<not> is_ok (Inl e)"
  by (simp_all add: is_ok_def)

lemma check_expr_ok: "is_ok (check_expr e) \<longleftrightarrow> pred_columns e \<subseteq> set COLUMNS"
  by (induction e) simp_all

lemma check_item_ok: "is_ok (check_item i) \<longleftrightarrow> item_columns i \<subseteq> set COLUMNS \<and> numeric_ok i"
proof (cases i)
  case (ItAgg a)
  then show ?thesis by (cases a) (simp_all add: check_agg_def numeric_ok_def)
qed (simp_all add: numeric_ok_def)

lemma check_group_ok: "is_ok (check_group g) \<longleftrightarrow> g \<in> set COLUMNS - {''score''}"
  by (auto simp: check_group_def COLUMNS_def)

definition bindable :: "select \<Rightarrow> session \<Rightarrow> bool" where
  "bindable st s \<longleftrightarrow> session_tenant s \<noteq> [] \<and>
     (\<forall>f. filter_expr st = Some f \<longrightarrow> pred_columns f \<subseteq> set COLUMNS) \<and>
     (\<forall>i \<in> set (items st). item_columns i \<subseteq> set COLUMNS \<and> numeric_ok i) \<and>
     set (group_by st) \<subseteq> set COLUMNS - {''score''} \<and>
     (group_by st = [] \<longrightarrow> \<not> (list_ex is_agg_item (items st) \<and> list_ex is_column_or_star (items st)))"

lemma is_ok_ex: "is_ok m \<longleftrightarrow> (\<exists>x. m = Inr x)"
  by (cases m) auto

lemma check_all_is_ok: "is_ok (check_all f xs) \<longleftrightarrow> (\<forall>x \<in> set xs. is_ok (f x))"
  by (simp add: is_ok_ex [of "check_all f xs"] check_all_ok)

section \<open>Properties\<close>

text \<open>
  C15. Binding succeeds exactly for a session with a tenant and a statement whose filter, projections
  and group keys name only columns of the schema (numeric ones under \<open>SUM\<close> and \<open>AVG\<close>, never
  \<open>score\<close> as a group key) and that puts no column or star beside an ungrouped aggregate. The plan
  then carries the session's tenant, whatever the statement says, and the statement's filter unchanged.
\<close>

theorem bind_correct:
  "is_ok (bind st s) = bindable st s \<and>
   (case bind st s of Inl _ \<Rightarrow> True | Inr pl \<Rightarrow>
      p_tenant pl = session_tenant s \<and> p_filter pl = filter_expr st \<and>
      p_projections pl = items st \<and> p_group_by pl = group_by st)"
proof
  have f: "is_ok (case filter_expr st of None \<Rightarrow> Inr () | Some f \<Rightarrow> check_expr f) \<longleftrightarrow>
    (\<forall>f. filter_expr st = Some f \<longrightarrow> pred_columns f \<subseteq> set COLUMNS)"
    by (cases "filter_expr st") (simp_all add: check_expr_ok)
  show "is_ok (bind st s) = bindable st s"
    by (auto simp: bind_def bindable_def f check_all_is_ok check_item_ok check_group_ok)
  show "case bind st s of Inl _ \<Rightarrow> True | Inr pl \<Rightarrow>
      p_tenant pl = session_tenant s \<and> p_filter pl = filter_expr st \<and>
      p_projections pl = items st \<and> p_group_by pl = group_by st"
    by (auto simp: bind_def rbind_Inr_iff split: sum.split if_splits)
qed

text \<open>
  A column which is projected beside an aggregate need not be a group key: once any \<open>GROUP BY\<close> is
  present, every known column may be projected, grouped or not.
\<close>

lemma ungrouped_column_is_bound:
  assumes "c \<in> set COLUMNS" and "g \<in> set COLUMNS" and "g \<noteq> ''score''" and "t \<noteq> []"
  shows "is_ok (bind \<lparr>items = [ItColumn c, ItAgg CountStar], filter_expr = None, semantic_pred = None,
    group_by = [g], limit = None, controls_of = controls_default\<rparr> \<lparr>session_tenant = t\<rparr>)"
  using assms by (simp add: bind_def check_agg_def check_group_def) (auto simp: COLUMNS_def)

end
