(* ===== verification/Wire.thy ===== *)
theory Wire
  imports Text
begin

unbundle bit_operations_syntax

text \<open>
  The binary reader and writer of \<open>prism-part/src/format.rs\<close>: a bounds-checked cursor over
  untrusted bytes and the writer that mirrors it. A field reader is a function from a cursor to a
  result; \<open>reads\<close> relates a reader to the bytes it accepts, and the locale \<open>codec\<close> collects what a
  field promises: reading what was written gives the value back, whatever follows.
\<close>

type_synonym u16 = "16 word"

section \<open>Little-endian integers\<close>

primrec le_bytes :: "nat \<Rightarrow> nat \<Rightarrow> byte list" where
  "le_bytes 0 x = []"
| "le_bytes (Suc n) x = of_nat (x mod 256) # le_bytes n (x div 256)"

primrec le_nat :: "byte list \<Rightarrow> nat" where
  "le_nat [] = 0"
| "le_nat (b # bs) = unat b + 256 * le_nat bs"

lemma length_le_bytes [simp]: "length (le_bytes n x) = n"
  by (induction n arbitrary: x) simp_all

lemma le_nat_le_bytes: "le_nat (le_bytes n x) = x mod 256 ^ n"
proof (induction n arbitrary: x)
  case (Suc n)
  have "unat (of_nat (x mod 256) :: byte) = x mod 256" by (simp add: unat_of_nat)
  then show ?case using Suc [of "x div 256"] by (simp add: mod_mult2_eq)
qed simp

lemma unat_byte_less: "unat (b :: byte) < 256"
  using unsigned_less [of b] by simp

lemma le_nat_less: "le_nat bs < 256 ^ length bs"
proof (induction bs)
  case (Cons b bs)
  with unat_byte_less [of b] show ?case by simp
qed simp

lemma le_bytes_le_nat: "le_bytes (length bs) (le_nat bs) = bs"
proof (induction bs)
  case (Cons b bs)
  with unat_byte_less [of b] show ?case by simp
qed simp

section \<open>Well-formed UTF-8\<close>

definition in_range :: "nat \<Rightarrow> nat \<Rightarrow> byte \<Rightarrow> bool" where
  "in_range lo hi b \<longleftrightarrow> lo \<le> unat b \<and> unat b \<le> hi"

fun valid_utf8 :: "byte list \<Rightarrow> bool" where
  "valid_utf8 [] = True"
| "valid_utf8 (a # r) =
     (if in_range 0 0x7F a then valid_utf8 r
      else if in_range 0xC2 0xDF a then
        (case r of b # r \<Rightarrow> in_range 0x80 0xBF b \<and> valid_utf8 r | _ \<Rightarrow> False)
      else if in_range 0xE0 0xEF a then
        (case r of b # c # r \<Rightarrow>
            in_range (if unat a = 0xE0 then 0xA0 else 0x80) (if unat a = 0xED then 0x9F else 0xBF) b \<and>
            in_range 0x80 0xBF c \<and> valid_utf8 r
          | _ \<Rightarrow> False)
      else if in_range 0xF0 0xF4 a then
        (case r of b # c # d # r \<Rightarrow>
            in_range (if unat a = 0xF0 then 0x90 else 0x80) (if unat a = 0xF4 then 0x8F else 0xBF) b \<and>
            in_range 0x80 0xBF c \<and> in_range 0x80 0xBF d \<and> valid_utf8 r
          | _ \<Rightarrow> False)
      else False)"

definition from_bytes :: "byte list \<Rightarrow> string" where
  "from_bytes bs = map (\<lambda>b. char_of (unat b)) bs"

section \<open>The cursor\<close>

record cursor =
  c_buf :: "byte list"
  c_pos :: nat

type_synonym 'a reader = "cursor \<Rightarrow> (cursor \<times> 'a) res"

definition cursor_new :: "byte list \<Rightarrow> cursor" where
  "cursor_new b = \<lparr>c_buf = b, c_pos = 0\<rparr>"

definition remaining :: "cursor \<Rightarrow> nat" where
  "remaining c = length (c_buf c) - c_pos c"

definition take_bytes :: "nat \<Rightarrow> byte list reader" where
  "take_bytes n c =
     (if remaining c < n then Inl (Corrupt ''truncated'')
      else Inr (c\<lparr>c_pos := c_pos c + n\<rparr>, take n (drop (c_pos c) (c_buf c))))"

definition cbind :: "'a reader \<Rightarrow> ('a \<Rightarrow> 'b reader) \<Rightarrow> 'b reader" where
  "cbind r f c = (case r c of Inl e \<Rightarrow> Inl e | Inr (c, x) \<Rightarrow> f x c)"

definition creturn :: "'a \<Rightarrow> 'a reader" where
  "creturn x c = Inr (c, x)"

definition cfail :: "prism_error \<Rightarrow> 'a reader" where
  "cfail e c = Inl e"

definition rd_u8 :: "byte reader" where
  "rd_u8 = cbind (take_bytes 1) (\<lambda>b. creturn (b ! 0))"

definition rd_u16 :: "u16 reader" where
  "rd_u16 = cbind (take_bytes 2) (\<lambda>b. creturn (of_nat (le_nat b)))"

definition rd_u32 :: "u32 reader" where
  "rd_u32 = cbind (take_bytes 4) (\<lambda>b. creturn (of_nat (le_nat b)))"

definition rd_u64 :: "u64 reader" where
  "rd_u64 = cbind (take_bytes 8) (\<lambda>b. creturn (of_nat (le_nat b)))"

definition rd_i64 :: "i64 reader" where
  "rd_i64 = cbind rd_u64 (\<lambda>w. creturn (sint w))"

definition rd_f64 :: "f64 reader" where
  "rd_f64 = cbind rd_u64 (\<lambda>v. if f64_is_finite v then creturn v else cfail (Corrupt ''non-finite float''))"

definition saturating_mul :: "nat \<Rightarrow> nat \<Rightarrow> nat" where
  "saturating_mul a b = min (a * b) (2 ^ 64 - 1)"

definition read_len :: "nat \<Rightarrow> nat reader" where
  "read_len min_elem_bytes = cbind rd_u32 (\<lambda>w c.
     let n = unat w; need = saturating_mul n (max min_elem_bytes 1) in
     if remaining c < need then Inl (Corrupt ''untrusted length'') else Inr (c, n))"

definition rd_string :: "string reader" where
  "rd_string = cbind rd_u32 (\<lambda>w c.
     if remaining c < unat w then Inl (Corrupt ''string longer than the input'')
     else cbind (take_bytes (unat w)) (\<lambda>b.
       if valid_utf8 b then creturn (from_bytes b) else cfail (Corrupt ''not utf-8'')) c)"

primrec rd_many :: "nat \<Rightarrow> 'a reader \<Rightarrow> 'a list reader" where
  "rd_many 0 r = creturn []"
| "rd_many (Suc n) r = cbind r (\<lambda>x. cbind (rd_many n r) (\<lambda>xs. creturn (x # xs)))"

section \<open>The writer\<close>

definition wr_u8 :: "byte \<Rightarrow> byte list" where
  "wr_u8 v = [v]"

definition wr_u16 :: "u16 \<Rightarrow> byte list" where
  "wr_u16 v = le_bytes 2 (unat v)"

definition wr_u32 :: "u32 \<Rightarrow> byte list" where
  "wr_u32 v = le_bytes 4 (unat v)"

definition wr_u64 :: "u64 \<Rightarrow> byte list" where
  "wr_u64 v = le_bytes 8 (unat v)"

definition wr_i64 :: "i64 \<Rightarrow> byte list" where
  "wr_i64 v = wr_u64 (of_int v)"

definition wr_f64 :: "f64 \<Rightarrow> byte list" where
  "wr_f64 v = wr_u64 v"

definition wr_len :: "nat \<Rightarrow> byte list" where
  "wr_len n = wr_u32 (of_nat n)"

definition wr_string :: "string \<Rightarrow> byte list" where
  "wr_string s = wr_u32 (of_nat (length s)) @ as_bytes s"

section \<open>What a reader accepts\<close>

definition avail :: "cursor \<Rightarrow> byte list" where
  "avail c = drop (c_pos c) (c_buf c)"

definition skip :: "nat \<Rightarrow> cursor \<Rightarrow> cursor" where
  "skip n c = c\<lparr>c_pos := c_pos c + n\<rparr>"

definition reads :: "'a reader \<Rightarrow> byte list \<Rightarrow> 'a \<Rightarrow> bool" where
  "reads r bs x \<longleftrightarrow> (\<forall>c tail. avail c = bs @ tail \<longrightarrow> r c = Inr (skip (length bs) c, x))"

lemma avail_skip [simp]: "avail (skip n c) = drop n (avail c)"
  by (simp add: avail_def skip_def add.commute)

lemma avail_new [simp]: "avail (cursor_new b) = b"
  by (simp add: avail_def cursor_new_def)

lemma skip_skip [simp]: "skip m (skip n c) = skip (n + m) c" "skip 0 c = c"
  by (simp_all add: skip_def)

lemma remaining_avail: "remaining c = length (avail c)"
  by (simp add: remaining_def avail_def)

lemma reads_take: "reads (take_bytes (length bs)) bs bs"
  by (auto simp: reads_def take_bytes_def remaining_avail skip_def simp flip: avail_def)

lemma reads_bind: "reads r a x \<Longrightarrow> reads (f x) b y \<Longrightarrow> reads (cbind r f) (a @ b) y"
  by (auto simp: reads_def cbind_def)

lemma reads_return: "reads (creturn x) [] x"
  by (simp add: reads_def creturn_def)

lemma reads_map: "reads r a x \<Longrightarrow> y = g x \<Longrightarrow> reads (cbind r (\<lambda>x. creturn (g x))) a y"
  using reads_bind [of r a x "\<lambda>x. creturn (g x)" "[]" y] reads_return [of "g x"] by simp

lemma reads_Cons_bind: "reads r [a] x \<Longrightarrow> reads (f x) b y \<Longrightarrow> reads (cbind r f) (a # b) y"
  using reads_bind [of r "[a]"] by simp

lemma reads_u8: "reads rd_u8 [v] v"
  unfolding rd_u8_def using reads_take [of "[v]"] by (intro reads_map [of _ _ "[v]"]) simp_all

lemma reads_wr_u8: "reads rd_u8 (wr_u8 v) v"
  by (simp add: wr_u8_def reads_u8)

lemma of_nat_unat_mod: "(of_nat (unat w mod 2 ^ LENGTH('a)) :: 'a::len word) = w"
  by (simp add: unsigned_less)

lemma reads_u16: "reads rd_u16 (wr_u16 v) v"
  unfolding rd_u16_def wr_u16_def
  using reads_take [of "le_bytes 2 (unat v)"] of_nat_unat_mod [of v]
  by (intro reads_map [of _ _ "le_bytes 2 (unat v)"]) (simp_all add: le_nat_le_bytes)

lemma reads_u32: "reads rd_u32 (wr_u32 v) v"
  unfolding rd_u32_def wr_u32_def
  using reads_take [of "le_bytes 4 (unat v)"] of_nat_unat_mod [of v]
  by (intro reads_map [of _ _ "le_bytes 4 (unat v)"]) (simp_all add: le_nat_le_bytes)

lemma reads_u64: "reads rd_u64 (wr_u64 v) v"
  unfolding rd_u64_def wr_u64_def
  using reads_take [of "le_bytes 8 (unat v)"] of_nat_unat_mod [of v]
  by (intro reads_map [of _ _ "le_bytes 8 (unat v)"]) (simp_all add: le_nat_le_bytes)

lemma sint_of_int_i64: "i64_range v \<Longrightarrow> sint (of_int v :: u64) = v"
  by (simp add: i64_range_def int_word_sint)

lemma reads_i64: "i64_range v \<Longrightarrow> reads rd_i64 (wr_i64 v) v"
  unfolding rd_i64_def wr_i64_def by (intro reads_map [OF reads_u64]) (simp add: sint_of_int_i64)

lemma reads_f64: "f64_is_finite v \<Longrightarrow> reads rd_f64 (wr_f64 v) v"
  unfolding rd_f64_def wr_f64_def
  using reads_bind [OF reads_u64 [of v], of _ "[]" v] reads_return [of v] by simp

lemma width_simps [simp]:
  "length (wr_u8 a) = 1" "length (wr_u16 b) = 2" "length (wr_u32 c) = 4" "length (wr_u64 d) = 8"
  "length (wr_i64 i) = 8" "length (wr_f64 f) = 8" "length (wr_len n) = 4" "length (wr_string t) = 4 + length t"
  by (simp_all add: wr_u8_def wr_u16_def wr_u32_def wr_u64_def wr_i64_def wr_f64_def wr_len_def wr_string_def)

definition string_ok :: "string \<Rightarrow> bool" where
  "string_ok s \<longleftrightarrow> length s < 2 ^ 32 \<and> valid_utf8 (as_bytes s)"

lemma from_bytes_as_bytes [simp]: "from_bytes (as_bytes s) = s"
proof -
  have "unat (of_char c :: byte) = of_char c" for c
  proof -
    have "of_char c < (256 :: nat)" by (simp add: of_char_def)
    then have "unat (of_nat (of_char c) :: byte) = of_char c" by (simp add: unat_of_nat)
    then show ?thesis by (simp only: of_nat_of_char)
  qed
  then show ?thesis by (simp add: from_bytes_def as_bytes_def comp_def)
qed

lemma reads_string: "string_ok s \<Longrightarrow> reads rd_string (wr_string s) s"
proof -
  assume s: "string_ok s"
  have u: "unat (of_nat (length s) :: u32) = length s"
    using s by (simp add: string_ok_def unat_of_nat)
  have body: "reads (cbind (take_bytes (length s)) (\<lambda>b.
       if valid_utf8 b then creturn (from_bytes b) else cfail (Corrupt ''not utf-8''))) (as_bytes s) s"
    using reads_bind [OF reads_take [of "as_bytes s"], of _ "[]" s] reads_return [of s] s
    by (simp add: string_ok_def)
  show ?thesis
    unfolding reads_def
  proof (intro allI impI)
    fix c tail assume "avail c = wr_string s @ tail"
    then have a: "avail c = wr_u32 (of_nat (length s)) @ as_bytes s @ tail" by (simp add: wr_string_def)
    then have "rd_u32 c = Inr (skip 4 c, of_nat (length s))"
      using reads_u32 [of "of_nat (length s)"] by (simp add: reads_def)
    moreover have "avail (skip 4 c) = as_bytes s @ tail" using a by simp
    ultimately show "rd_string c = Inr (skip (length (wr_string s)) c, s)"
      using body unfolding rd_string_def cbind_def [of rd_u32]
      by (simp add: u remaining_avail reads_def add.commute)
  qed
qed

text \<open>A count is believed only when the bytes behind it can hold that many elements.\<close>

lemma reads_len:
  assumes "n < 2 ^ 32" and "n * max m 1 \<le> length b" and "reads (f n) b y"
  shows "reads (cbind (read_len m) f) (wr_len n @ b) y"
  unfolding reads_def
proof (intro allI impI)
  fix c tail assume a: "avail c = (wr_len n @ b) @ tail"
  have u: "unat (of_nat n :: u32) = n" using assms(1) by (simp add: unat_of_nat)
  have "rd_u32 c = Inr (skip 4 c, of_nat n)"
    using reads_u32 [of "of_nat n"] a by (simp add: reads_def wr_len_def)
  then have "read_len m c = Inr (skip 4 c, n)"
    using a assms(2) by (simp add: read_len_def cbind_def u remaining_avail saturating_mul_def min_def Let_def)
  moreover have "avail (skip 4 c) = b @ tail" using a by simp
  ultimately show "cbind (read_len m) f c = Inr (skip (length (wr_len n @ b)) c, y)"
    using assms(3) by (simp add: cbind_def reads_def add.commute)
qed

text \<open>Introduction rules that follow the shape of a decoder: a field, then the rest; the last field; a
  guard which does not fire; the final record.\<close>

named_theorems reads_intros \<open>structural rules for readers\<close>

lemma reads_last: "reads r a x \<Longrightarrow> reads (f x) [] y \<Longrightarrow> reads (cbind r f) a y"
  using reads_bind [of r a x f "[]" y] by simp

lemma reads_guard [reads_intros]: "\<not> g \<Longrightarrow> reads r bs x \<Longrightarrow> reads (if g then cfail e else r) bs x"
  by simp

lemma reads_creturn [reads_intros]: "x = y \<Longrightarrow> reads (creturn x) [] y"
  by (simp add: reads_return)

lemma reads_take_u32:
  "length d < 2 ^ 32 \<Longrightarrow> reads (take_bytes (unat (of_nat (length d) :: u32))) d d"
  using reads_take [of d] by (simp add: unat_of_nat)

lemmas reads_fields [reads_intros] =
  reads_bind [OF reads_wr_u8] reads_last [OF reads_wr_u8] reads_bind [OF reads_u16] reads_last [OF reads_u16]
  reads_bind [OF reads_u32] reads_last [OF reads_u32] reads_bind [OF reads_u64] reads_last [OF reads_u64]
  reads_bind [OF reads_i64] reads_last [OF reads_i64] reads_bind [OF reads_f64] reads_last [OF reads_f64]
  reads_bind [OF reads_string] reads_last [OF reads_string]
  reads_bind [OF reads_take_u32] reads_last [OF reads_take_u32]

section \<open>Codecs\<close>

locale codec =
  fixes enc :: "'a \<Rightarrow> byte list" and dec :: "'a reader" and ok :: "'a \<Rightarrow> bool" and width :: nat
  assumes reads_enc: "ok x \<Longrightarrow> reads dec (enc x) x"
    and width_enc: "ok x \<Longrightarrow> width \<le> length (enc x)"
begin

lemma reads_many: "list_all ok xs \<Longrightarrow> reads (rd_many (length xs) dec) (concat (map enc xs)) xs"
proof (induction xs)
  case (Cons x xs)
  then have "reads (cbind (rd_many (length xs) dec) (\<lambda>ys. creturn (x # ys))) (concat (map enc xs)) (x # xs)"
    by (intro reads_map) simp_all
  then show ?case using Cons.prems by (auto intro: reads_bind reads_enc)
qed (simp add: reads_return)

lemma width_many: "list_all ok xs \<Longrightarrow> length xs * width \<le> length (concat (map enc xs))"
proof (induction xs)
  case (Cons x xs)
  then show ?case using width_enc [of x] by simp
qed simp

lemma reads_guarded:
  assumes "\<not> g (length xs)" and "list_all ok xs" and "length xs < 2 ^ 32" and "0 < width" and "reads (f xs) b y"
  shows "reads (cbind (read_len width) (\<lambda>n. if g n then cfail e else cbind (rd_many n dec) f))
    (wr_len (length xs) @ concat (map enc xs) @ b) y"
proof (rule reads_len)
  show "length xs * max width 1 \<le> length (concat (map enc xs) @ b)"
    using width_many [OF assms(2)] assms(4) by (simp add: max.absorb1)
  show "reads (if g (length xs) then cfail e else cbind (rd_many (length xs) dec) f) (concat (map enc xs) @ b) y"
    using reads_bind [of "rd_many (length xs) dec" _ xs f] reads_many [OF assms(2)] assms(1,5) by auto
qed (rule assms(3))

lemma reads_guarded_last:
  assumes "\<not> g (length xs)" and "list_all ok xs" and "length xs < 2 ^ 32" and "0 < width" and "reads (f xs) [] y"
  shows "reads (cbind (read_len width) (\<lambda>n. if g n then cfail e else cbind (rd_many n dec) f))
    (wr_len (length xs) @ concat (map enc xs)) y"
  using reads_guarded [of g xs f "[]" y e] assms by simp

lemma reads_counted:
  assumes "list_all ok xs" and "length xs < 2 ^ 32" and "0 < width" and "reads (f xs) b y"
  shows "reads (cbind (read_len width) (\<lambda>n. cbind (rd_many n dec) f))
    (wr_len (length xs) @ concat (map enc xs) @ b) y"
  using reads_guarded [of "\<lambda>_. False" xs f b y] assms by simp

lemma reads_counted_last:
  assumes "list_all ok xs" and "length xs < 2 ^ 32" and "0 < width" and "reads (f xs) [] y"
  shows "reads (cbind (read_len width) (\<lambda>n. cbind (rd_many n dec) f))
    (wr_len (length xs) @ concat (map enc xs)) y"
  using reads_counted [of xs f "[]" y] assms by simp

end

interpretation str: codec wr_string rd_string string_ok 4
  by unfold_locales (simp_all add: reads_string)

interpretation u8c: codec "\<lambda>b. [b]" rd_u8 "\<lambda>_. True" 1
  by unfold_locales (simp_all add: reads_u8)

interpretation u64c: codec wr_u64 rd_u64 "\<lambda>_. True" 8
  by unfold_locales (simp_all add: reads_u64)

text \<open>
  No untrusted length is believed beyond the input: when a count is accepted, the bytes that
  remain can hold that many elements of the declared minimum size, so what a decoder reserves is
  bounded by what it was given.
\<close>

lemma read_len_bounded:
  assumes "read_len m c = Inr (c', n)" and "m < 2 ^ 32"
  shows "n * max m 1 \<le> remaining c' \<and> remaining c' < remaining c"
proof -
  obtain c1 w where 1: "rd_u32 c = Inr (c1, w)" using assms(1) by (auto simp: read_len_def cbind_def split: sum.splits)
  have r: "c' = c1" "n = unat w" "\<not> remaining c1 < saturating_mul (unat w) (max m 1)"
    using assms(1) 1 by (auto simp: read_len_def cbind_def Let_def split: if_splits)
  have "remaining c1 < remaining c"
    using 1 by (auto simp: rd_u32_def cbind_def take_bytes_def creturn_def remaining_def split: if_splits)
  moreover have "unat w * max m 1 \<le> 2 ^ 64 - 1"
  proof -
    have "unat w * max m 1 \<le> (2 ^ 32 - 1) * (2 ^ 32 - 1)"
      using unat_u32_lt [of w] assms(2) by (intro mult_mono) auto
    then show ?thesis by simp
  qed
  ultimately show ?thesis using r by (simp add: saturating_mul_def)
qed

end
