(* ===== verification/Partitions.thy ===== *)
theory Partitions
  imports Wire Hashing
begin

text \<open>
  Outer partitioning (\<open>prism-part/src/partition.rs\<close>) and tenant handles
  (\<open>prism-part/src/tenant.rs\<close>): which bucket and time window a row belongs to, what the
  catalog knows of a part, and how a query decides from it alone whether to open the part.
\<close>

section \<open>Buckets and windows\<close>

definition DEFAULT_BUCKETS :: u32 where "DEFAULT_BUCKETS = 16"
definition DEFAULT_TIME_WINDOW_MS :: i64 where "DEFAULT_TIME_WINDOW_MS = 24 * 60 * 60 * 1000"

datatype bucket = Dedicated u32 | Shared u32

fun bucket_id :: "bucket \<Rightarrow> u32" where
  "bucket_id (Dedicated i) = i" | "bucket_id (Shared i) = i"

fun is_shared :: "bucket \<Rightarrow> bool" where
  "is_shared (Shared _) = True" | "is_shared (Dedicated _) = False"

fun bucket_dir :: "bucket \<Rightarrow> string" where
  "bucket_dir (Dedicated i) = ''d'' @ nat_str (unat i)"
| "bucket_dir (Shared i) = ''s'' @ nat_str (unat i)"

record partition_scheme =
  ps_buckets :: u32
  ps_time_window_ms :: i64
  ps_dedicated :: "(string \<times> u32) list"

definition default_scheme :: partition_scheme where
  "default_scheme = \<lparr>ps_buckets = DEFAULT_BUCKETS, ps_time_window_ms = DEFAULT_TIME_WINDOW_MS, ps_dedicated = []\<rparr>"

definition scheme_validate :: "partition_scheme \<Rightarrow> unit res" where
  "scheme_validate s =
     (if ps_buckets s = 0 then Inl (Invalid ''buckets must be positive'')
      else if ps_time_window_ms s \<le> 0 then Inl (Invalid ''time_window_ms must be positive'')
      else Inr ())"

definition bucket_of :: "partition_scheme \<Rightarrow> string \<Rightarrow> bucket" where
  "bucket_of s tenant = (case bt_get (ps_dedicated s) tenant of
       Some i \<Rightarrow> Dedicated i
     | None \<Rightarrow> Shared (of_nat (le_nat (take 4 (sha256 (as_bytes tenant)))) mod ps_buckets s))"

text \<open>\<open>div_euclid\<close> by a positive window is floor division; the product wraps at 64 bits.\<close>

definition window_of :: "partition_scheme \<Rightarrow> i64 \<Rightarrow> i64" where
  "window_of s event_time = wrap_i64 (event_time div ps_time_window_ms s * ps_time_window_ms s)"

record partition_key =
  pk_bucket :: bucket
  pk_window :: i64
  pk_generation :: string

definition bucket_ordinal :: "partition_scheme \<Rightarrow> bucket \<Rightarrow> u64" where
  "bucket_ordinal s b = (case b of
       Shared n \<Rightarrow> ucast n
     | Dedicated i \<Rightarrow> ucast (ps_buckets s) + ucast i)"

definition pad20 :: "i64 \<Rightarrow> string" where
  "pad20 w = (let d = nat_str (nat \<bar>w\<bar>); sign = (if w < 0 then ''-'' else []) in
     sign @ replicate (20 - (length sign + length d)) (CHR ''0'') @ d)"

definition key_dir :: "partition_key \<Rightarrow> string" where
  "key_dir k = ''b='' @ bucket_dir (pk_bucket k) @ ''/w='' @ pad20 (pk_window k) @ ''/g='' @ pk_generation k"

section \<open>Tenant handles\<close>

definition TENANT_TOKEN_BYTES :: nat where "TENANT_TOKEN_BYTES = 16"

definition TENANT_TOKEN_DOMAIN :: "byte list" where
  "TENANT_TOKEN_DOMAIN = as_bytes ''prism-tenant-token-v1'' @ [0]"

definition tenant_token :: "byte list \<Rightarrow> string \<Rightarrow> byte list" where
  "tenant_token key tenant =
     take TENANT_TOKEN_BYTES (hmac_sha256 key (TENANT_TOKEN_DOMAIN @ as_bytes tenant))"

definition hex_val :: "char \<Rightarrow> nat option" where
  "hex_val c = (let x = of_char c in
     if 48 \<le> x \<and> x \<le> 57 then Some (x - 48)
     else if 97 \<le> x \<and> x \<le> 102 then Some (x - 87)
     else if 65 \<le> x \<and> x \<le> 70 then Some (x - 55) else None)"

text \<open>\<open>u8::from_str_radix(_, 16)\<close> on a two-byte string: a leading plus sign is accepted.\<close>

definition u8_from_hex :: "char \<Rightarrow> char \<Rightarrow> byte option" where
  "u8_from_hex a b =
     (if a = CHR ''+'' then map_option of_nat (hex_val b)
      else case (hex_val a, hex_val b) of
          (Some x, Some y) \<Rightarrow> Some (of_nat (16 * x + y))
        | _ \<Rightarrow> None)"

text \<open>Slicing the text at an even byte which is inside a character panics; the loop slices pair by
  pair and stops at the first pair that does not parse.\<close>

datatype 'a outcome = Panic | Done "'a res"

fun token_loop :: "string \<Rightarrow> nat \<Rightarrow> byte list \<Rightarrow> byte list outcome" where
  "token_loop text 0 out = Done (Inr out)"
| "token_loop text (Suc n) out =
     (let i = TENANT_TOKEN_BYTES - Suc n in
      if \<not> (is_char_boundary text (2 * i) \<and> is_char_boundary text (2 * i + 2)) then Panic
      else case u8_from_hex (text ! (2 * i)) (text ! (2 * i + 1)) of
          None \<Rightarrow> Done (Inl (Corrupt ''not valid hex''))
        | Some x \<Rightarrow> token_loop text n (out @ [x]))"

definition token_from_hex :: "string \<Rightarrow> byte list outcome" where
  "token_from_hex text =
     (if length text \<noteq> TENANT_TOKEN_BYTES * 2 then Done (Inl (Corrupt ''wrong token length''))
      else token_loop text TENANT_TOKEN_BYTES [])"

definition handle_matches :: "string list \<Rightarrow> string \<Rightarrow> byte list option \<Rightarrow> bool" where
  "handle_matches handles tenant tokenizer =
     (if tenant \<in> set handles then True
      else case tokenizer of
          Some key \<Rightarrow> hex (tenant_token key tenant) \<in> set handles
        | None \<Rightarrow> False)"

section \<open>What the catalog knows of a part\<close>

record part_ref =
  pr_part_id :: string
  pr_partition :: partition_key
  pr_rows :: nat
  pr_tenants :: "string list"
  pr_time_min :: i64
  pr_time_max :: i64

definition in_window :: "i64 \<Rightarrow> i64 \<Rightarrow> i64 option \<Rightarrow> i64 option \<Rightarrow> bool" where
  "in_window lo hi from until =
     (if (case from of Some f \<Rightarrow> hi < f | None \<Rightarrow> False) then False
      else if (case until of Some t \<Rightarrow> t < lo | None \<Rightarrow> False) then False
      else True)"

definition ref_may_match :: "part_ref \<Rightarrow> string \<Rightarrow> i64 option \<Rightarrow> i64 option \<Rightarrow> byte list option \<Rightarrow> bool" where
  "ref_may_match r tenant from until tokenizer =
     (if \<not> handle_matches (pr_tenants r) tenant tokenizer then False
      else in_window (pr_time_min r) (pr_time_max r) from until)"

definition ref_validate :: "part_ref \<Rightarrow> unit res" where
  "ref_validate r =
     (if pr_part_id r = [] then Inl (Corrupt ''no part id'')
      else if pr_time_min r > pr_time_max r then Inl (Corrupt ''time_min over time_max'')
      else if pr_tenants r = [] then Inl (Corrupt ''names no tenants'')
      else if (case pk_bucket (pr_partition r) of Dedicated _ \<Rightarrow> True | Shared _ \<Rightarrow> False) \<and> 1 < length (pr_tenants r)
        then Inl (Corrupt ''dedicated bucket with several tenants'')
      else Inr ())"

section \<open>Windows, buckets and tokens\<close>

lemma window_of_tiles:
  assumes "scheme_validate s = Inr ()" and "- (2 ^ 63) + ps_time_window_ms s \<le> t" and "t < 2 ^ 63"
  shows "window_of s t \<le> t \<and> t < window_of s t + ps_time_window_ms s \<and> ps_time_window_ms s dvd window_of s t"
proof -
  let ?w = "ps_time_window_ms s"
  have w: "0 < ?w" using assms(1) by (auto simp: scheme_validate_def split: if_splits)
  have m: "t div ?w * ?w = t - t mod ?w" by (simp add: minus_mod_eq_div_mult)
  have "0 \<le> t mod ?w" "t mod ?w < ?w" using w by simp_all
  then have "i64_range (t div ?w * ?w)" using assms(2,3) unfolding m by (simp add: i64_range_def)
  then have "window_of s t = t - t mod ?w" by (simp add: window_of_def m)
  then show ?thesis using w \<open>0 \<le> t mod ?w\<close> \<open>t mod ?w < ?w\<close> m by (simp add: dvd_def) (metis mult.commute)
qed

lemma unat_ucast_u64: "unat (ucast (a :: u32) :: u64) = unat a"
  by (simp add: unsigned_ucast_eq take_bit_nat_eq_self unat_u32_lt [THEN less_trans])

lemma unat_add_u64: "unat (ucast (a :: u32) + ucast (b :: u32) :: u64) = unat a + unat b"
proof -
  have "unat a + unat b < 2 ^ 64" using unat_u32_lt [of a] unat_u32_lt [of b] by simp
  then show ?thesis by (simp add: unat_word_ariths unat_ucast_u64)
qed

lemma hex_digit_facts:
  assumes "d < 16"
  shows "hex_val (hex_digit d) = Some d" "hex_digit d \<noteq> CHR ''+''" "of_char (hex_digit d) < (0x80 :: nat)"
proof -
  have "\<forall>d \<in> set [0..<16]. hex_val (hex_digit d) = Some d \<and> hex_digit d \<noteq> CHR ''+'' \<and> of_char (hex_digit d) < (0x80 :: nat)"
    by code_simp
  then show "hex_val (hex_digit d) = Some d" "hex_digit d \<noteq> CHR ''+''" "of_char (hex_digit d) < (0x80 :: nat)"
    using assms by auto
qed

lemma u8_from_hex_byte: "u8_from_hex (hex_digit (unat b div 16)) (hex_digit (unat b mod 16)) = Some b"
proof -
  have "unat b div 16 < 16" "unat b mod 16 < 16" using unat_byte_lt [of b] by (simp_all add: less_mult_imp_div_less)
  then show ?thesis by (simp add: u8_from_hex_def hex_digit_facts)
qed

lemma hex_nth:
  "i < length bs \<Longrightarrow> hex bs ! (2 * i) = hex_digit (unat (bs ! i) div 16) \<and>
     hex bs ! (2 * i + 1) = hex_digit (unat (bs ! i) mod 16)"
proof (induction bs arbitrary: i)
  case (Cons b bs)
  then show ?case by (cases i) (simp_all add: hex_Cons hex_byte_def)
qed simp

lemma hex_boundary: "k \<le> 2 * length bs \<Longrightarrow> is_char_boundary (hex bs) k"
proof -
  assume k: "k \<le> 2 * length bs"
  have "of_char (hex bs ! k) < (0x80 :: nat)" if "k < length (hex bs)"
  proof -
    have i: "k div 2 < length bs" using that by simp
    have "unat (bs ! (k div 2)) div 16 < 16" "unat (bs ! (k div 2)) mod 16 < 16"
      using unat_byte_lt [of "bs ! (k div 2)"] by (simp_all add: less_mult_imp_div_less)
    moreover have "k = 2 * (k div 2) \<or> k = 2 * (k div 2) + 1" by presburger
    ultimately show ?thesis using hex_nth [OF i] hex_digit_facts(3) by metis
  qed
  then show ?thesis using k by (auto simp: is_char_boundary_def Let_def)
qed

lemma token_loop_hex:
  "length t = 16 \<Longrightarrow> n \<le> 16 \<Longrightarrow> token_loop (hex t) n (take (16 - n) t) = Done (Inr t)"
proof (induction n)
  case (Suc n)
  let ?i = "16 - Suc n"
  have i: "?i < length t" "Suc ?i = 16 - n" using Suc.prems by simp_all
  have "is_char_boundary (hex t) (2 * ?i)" "is_char_boundary (hex t) (2 * ?i + 2)"
    using i by (simp_all add: hex_boundary)
  moreover have "u8_from_hex (hex t ! (2 * ?i)) (hex t ! (2 * ?i + 1)) = Some (t ! ?i)"
    using hex_nth [OF i(1)] u8_from_hex_byte by simp
  moreover have "take ?i t @ [t ! ?i] = take (16 - n) t"
    using i by (metis take_Suc_conv_app_nth)
  ultimately show ?case using Suc by (simp add: TENANT_TOKEN_BYTES_def Let_def)
qed simp

lemma token_hex_roundtrip: "length t = 16 \<Longrightarrow> token_from_hex (hex t) = Done (Inr t)"
  using token_loop_hex [of t 16] by (simp add: token_from_hex_def TENANT_TOKEN_BYTES_def)

text \<open>
  Routing, restore and encryption agree on a bucket because its ordinal identifies it: two
  tenants placed by the same scheme have the same ordinal exactly when they share a bucket, so a
  dedicated bucket never collides with a shared one.
\<close>

lemma bucket_ordinal_inj:
  assumes "scheme_validate s = Inr ()"
  shows "bucket_ordinal s (bucket_of s a) = bucket_ordinal s (bucket_of s b) \<longleftrightarrow> bucket_of s a = bucket_of s b"
proof -
  have n: "ps_buckets s \<noteq> 0" using assms by (auto simp: scheme_validate_def)
  have shared: "unat n < unat (ps_buckets s)" if "bucket_of s t = Shared n" for t n
  proof -
    have "n = of_nat (le_nat (take 4 (sha256 (as_bytes t)))) mod ps_buckets s"
      using that by (auto simp: bucket_of_def split: option.splits)
    then show ?thesis using n by (simp add: unat_mod_distrib unat_gt_0 )
  qed
  have sh: "case bucket_of s t of Shared n \<Rightarrow> unat n < unat (ps_buckets s) | Dedicated _ \<Rightarrow> True" for t
    using shared by (cases "bucket_of s t") simp_all
  have ord: "unat (bucket_ordinal s (Shared n)) = unat n" "unat (bucket_ordinal s (Dedicated n)) = unat (ps_buckets s) + unat n" for n
    by (simp_all add: bucket_ordinal_def unat_ucast_u64 unat_add_u64)
  show ?thesis
    unfolding word_unat_eq_iff [of "bucket_ordinal s (bucket_of s a)"]
    using sh [of a] sh [of b] by (cases "bucket_of s a"; cases "bucket_of s b") (simp_all add: ord word_unat_eq_iff)
qed

end
