(* ===== verification/Half.thy ===== *)
theory Half
  imports Floats
begin

unbundle bit_operations_syntax

text \<open>
  Half precision (\<open>prism-types/src/half.rs\<close>): the two bit conversions between \<open>f32\<close> and \<open>f16\<close>.
  The loop that normalises a subnormal half is a partial function; that it returns is proved.
\<close>

type_synonym f16 = "16 word"

definition f32_to_f16_bits :: "f32 \<Rightarrow> f16" where
  "f32_to_f16_bits bits =
     (let sign = ucast (drop_bit 16 bits AND 0x8000) :: f16;
          ex = uint (drop_bit 23 bits AND 0xff);
          mant = bits AND 0x7fffff;
          e = ex - 127 + 15 in
      if ex = 0xff then sign OR 0x7c00 OR (if mant \<noteq> 0 then 0x0200 else 0)
      else if e \<ge> 0x1f then sign OR 0x7c00
      else if e \<le> 0 then
        if e < -10 then sign
        else
          (let m = mant OR 0x800000;
               shift = nat (14 - e);
               half = drop_bit shift m;
               rem_mask = push_bit shift 1 - 1;
               rem = m AND rem_mask;
               halfway = push_bit (shift - 1) 1;
               round_up = (halfway < rem \<or> (rem = halfway \<and> half AND 1 = 1)) in
           sign OR ucast (half + (if round_up then 1 else 0)))
      else
        (let m10 = ucast (drop_bit 13 mant) :: f16;
             rem = mant AND 0x1fff;
             halfway = 0x1000 in
         if halfway < rem \<or> (rem = halfway \<and> m10 AND 1 = 1) then
           if m10 + 1 = 0x0400 then
             if e + 1 \<ge> 0x1f then sign OR 0x7c00
             else sign OR push_bit 10 (of_int (e + 1)) OR 0
           else sign OR push_bit 10 (of_int e) OR (m10 + 1)
         else sign OR push_bit 10 (of_int e) OR m10))"

partial_function (option) normalise_loop :: "u32 \<Rightarrow> int \<Rightarrow> (u32 \<times> int) option" where
  "normalise_loop m e = (if m AND 0x0400 = 0 then normalise_loop (push_bit 1 m) (e - 1) else Some (m, e))"

definition f16_bits_to_f32 :: "f16 \<Rightarrow> f32 option" where
  "f16_bits_to_f32 h =
     (let sign = push_bit 16 (ucast (h AND 0x8000)) :: u32;
          ex = ucast (drop_bit 10 h AND 0x1f) :: u32;
          mant = ucast (h AND 0x03ff) :: u32 in
      if ex = 0 then
        if mant = 0 then Some sign
        else (case normalise_loop mant (-1) of
            None \<Rightarrow> None
          | Some (m, e) \<Rightarrow>
              Some (sign OR push_bit 23 (of_int (e + 1 - 15 + 127)) OR push_bit 13 (m AND 0x03ff)))
      else if ex = 0x1f then Some (sign OR 0x7f800000 OR push_bit 13 mant)
      else Some (sign OR push_bit 23 (ex + 127 - 15) OR push_bit 13 mant))"

definition round_trip_f16 :: "f32 \<Rightarrow> f32 option" where
  "round_trip_f16 x = f16_bits_to_f32 (f32_to_f16_bits x)"

section \<open>Fields and values\<close>

definition exp16 :: "f16 \<Rightarrow> nat" where "exp16 h = unat (take_bit 5 (drop_bit 10 h))"
definition man16 :: "f16 \<Rightarrow> nat" where "man16 h = unat (take_bit 10 h)"
definition exp32 :: "f32 \<Rightarrow> nat" where "exp32 w = unat (take_bit 8 (drop_bit 23 w))"
definition man32 :: "f32 \<Rightarrow> nat" where "man32 w = unat (take_bit 23 w)"

text \<open>Magnitudes of finite numbers, as multiples of the smallest subnormal of each format
  (\<open>2^-24\<close> for a half, \<open>2^-149\<close> for a single).\<close>

definition mag16 :: "f16 \<Rightarrow> nat" where
  "mag16 h = (if exp16 h = 0 then man16 h else (2 ^ 10 + man16 h) * 2 ^ (exp16 h - 1))"

definition mag32 :: "f32 \<Rightarrow> nat" where
  "mag32 w = (if exp32 w = 0 then man32 w else (2 ^ 23 + man32 w) * 2 ^ (exp32 w - 1))"

lemma mask_consts:
  "(w :: u32) AND 0x3ff = take_bit 10 w" "(h :: f16) AND 0x3ff = take_bit 10 h"
  "(h :: f16) AND 0x1f = take_bit 5 h"
  by (simp_all add: take_bit_eq_mask mask_eq_exp_minus_1)

lemma bit_sign_word: "bit (push_bit 16 (ucast ((h :: f16) AND 0x8000)) :: u32) n \<longleftrightarrow> n = 31 \<and> bit h 15"
proof -
  have b: "bit (0x8000 :: f16) k \<longleftrightarrow> k = 15" for k
  proof -
    have "(0x8000 :: f16) = 2 ^ 15" by simp
    then show ?thesis by (simp only: bit_exp_iff) auto
  qed
  have "bit (push_bit 16 (ucast (h AND 0x8000)) :: u32) n \<longleftrightarrow> 16 \<le> n \<and> n < 32 \<and> n - 16 = 15 \<and> bit h (n - 16)"
    by (simp only: bit_push_bit_iff bit_unsigned_iff bit_and_iff b) auto
  then show ?thesis by auto
qed

lemma joined_fields:
  fixes S E M :: u32
  assumes "\<And>n. bit S n \<longleftrightarrow> n = 31 \<and> s" and "take_bit 8 E = E" and "take_bit 10 M = M"
  shows "take_bit 8 (drop_bit 23 (S OR push_bit 23 E OR push_bit 13 M)) = E"
    and "take_bit 23 (S OR push_bit 23 E OR push_bit 13 M) = push_bit 13 M"
    and "bit (S OR push_bit 23 E OR push_bit 13 M) 31 = s"
proof -
  have e: "\<not> bit E n" if "8 \<le> n" for n
  proof -
    have "\<not> bit (take_bit 8 E) n" using that by (simp add: bit_take_bit_iff)
    then show ?thesis using assms(2) by simp
  qed
  have m: "\<not> bit M n" if "10 \<le> n" for n
  proof -
    have "\<not> bit (take_bit 10 M) n" using that by (simp add: bit_take_bit_iff)
    then show ?thesis using assms(3) by simp
  qed
  show "take_bit 8 (drop_bit 23 (S OR push_bit 23 E OR push_bit 13 M)) = E"
  proof (rule bit_word_eqI)
    fix n assume "n < LENGTH(32)"
    then show "bit (take_bit 8 (drop_bit 23 (S OR push_bit 23 E OR push_bit 13 M))) n = bit E n"
      using e [of n] m [of "n + 10"]
      by (cases "n < 8") (simp_all add: bit_take_bit_iff bit_drop_bit_eq bit_or_iff bit_push_bit_iff assms(1) add.commute)
  qed
  show "take_bit 23 (S OR push_bit 23 E OR push_bit 13 M) = push_bit 13 M"
  proof (rule bit_word_eqI)
    fix n assume "n < LENGTH(32)"
    then show "bit (take_bit 23 (S OR push_bit 23 E OR push_bit 13 M)) n = bit (push_bit 13 M) n"
      using m [of "n - 13"]
      by (cases "n < 23") (simp_all add: bit_take_bit_iff bit_or_iff bit_push_bit_iff assms(1))
  qed
  show "bit (S OR push_bit 23 E OR push_bit 13 M) 31 = s"
    using e [of 8] m [of 18] by (simp add: bit_or_iff bit_push_bit_iff assms(1))
qed

section \<open>The normalising loop returns\<close>

lemma bit10: "k < 2048 \<Longrightarrow> (of_nat k :: u32) AND 0x400 = 0 \<longleftrightarrow> k < 1024"
proof -
  assume k: "k < 2048"
  have b: "bit (0x400 :: u32) n \<longleftrightarrow> n = 10" for n
  proof -
    have "(0x400 :: u32) = 2 ^ 10" by simp
    then show ?thesis by (simp only: bit_exp_iff) auto
  qed
  have "bit (of_nat k :: u32) 10 \<longleftrightarrow> odd (k div 2 ^ 10)"
    by (simp only: bit_of_nat_iff) (simp add: bit_iff_odd)
  moreover have "(of_nat k :: u32) AND 0x400 = 0 \<longleftrightarrow> \<not> bit (of_nat k :: u32) 10"
  proof
    assume "(of_nat k :: u32) AND 0x400 = 0"
    then have "\<not> bit ((of_nat k :: u32) AND 0x400) 10" by simp
    then show "\<not> bit (of_nat k :: u32) 10" by (simp only: bit_and_iff b) simp
  next
    assume n: "\<not> bit (of_nat k :: u32) 10"
    show "(of_nat k :: u32) AND 0x400 = 0"
      by (rule bit_word_eqI) (use n in \<open>auto simp only: bit_and_iff b bit_0_eq bot_apply bot_bool_def\<close>)
  qed
  moreover have "odd (k div 2 ^ 10) \<longleftrightarrow> \<not> k < 1024"
  proof (cases "k < 1024")
    case False
    then have "k div 1024 = 1" using k by (simp add: div_nat_eqI)
    then show ?thesis using False by simp
  qed simp
  ultimately show ?thesis by simp
qed

lemma normalise_loop_returns:
  "1024 \<le> k * 2 ^ j \<Longrightarrow> k * 2 ^ j < 2048 \<Longrightarrow> normalise_loop (of_nat k) e = Some (of_nat (k * 2 ^ j), e - int j)"
proof (induction j arbitrary: k e)
  case 0
  then show ?case by (subst normalise_loop.simps) (simp add: bit10)
next
  case (Suc j)
  have "2 * k \<le> k * 2 ^ Suc j" by simp
  then have "k < 1024" using Suc.prems(2) by linarith
  moreover have "push_bit 1 (of_nat k :: u32) = of_nat (2 * k)" by (simp add: push_bit_eq_mult)
  moreover have "normalise_loop (of_nat (2 * k)) (e - 1) = Some (of_nat (2 * k * 2 ^ j), e - 1 - int j)"
    using Suc.prems by (intro Suc.IH) (simp_all add: mult.assoc mult.left_commute)
  ultimately show ?case by (subst normalise_loop.simps) (simp add: bit10 algebra_simps)
qed

lemma shift_exists: "0 < k \<Longrightarrow> k < 1024 \<Longrightarrow> \<exists>j. 0 < j \<and> j \<le> 10 \<and> 1024 \<le> k * 2 ^ j \<and> k * 2 ^ j < (2048 :: nat)"
proof -
  assume k: "0 < k" "k < 1024"
  have "\<exists>i. 2 ^ i \<le> k \<and> k < 2 ^ Suc i \<and> i < 10"
  proof (rule ccontr)
    assume n: "\<nexists>i. 2 ^ i \<le> k \<and> k < 2 ^ Suc i \<and> i < 10"
    have "i \<le> 10 \<Longrightarrow> 2 ^ i \<le> k" for i
    proof (induction i)
      case (Suc i)
      then show ?case using n by (metis Suc_le_lessD leI less_or_eq_imp_le)
    qed (use k in simp)
    from this [of 10] show False using k by simp
  qed
  then obtain i where i: "2 ^ i \<le> k" "k < 2 ^ Suc i" "i < 10" by blast
  have p: "(2 :: nat) ^ i * 2 ^ (10 - i) = 1024" "(2 :: nat) ^ Suc i * 2 ^ (10 - i) = 2048"
    using i(3) by (simp_all flip: power_add)
  have "2 ^ i * 2 ^ (10 - i) \<le> k * 2 ^ (10 - i)" using i(1) by (intro mult_right_mono) auto
  moreover have "k * 2 ^ (10 - i) < 2 ^ Suc i * 2 ^ (10 - i)" using i(2) by (intro mult_strict_right_mono) auto
  ultimately have "1024 \<le> k * 2 ^ (10 - i) \<and> k * 2 ^ (10 - i) < 2048" unfolding p by simp
  then show ?thesis using i(3) by (intro exI [of _ "10 - i"]) auto
qed

section \<open>Widening\<close>

lemma unat_small: "k < 2 ^ 32 \<Longrightarrow> unat (of_nat k :: u32) = k"
  by (simp add: unat_of_nat)

lemma take_bit_of_nat_u32: "k < 2 ^ n \<Longrightarrow> take_bit n (of_nat k :: u32) = of_nat k"
  by (metis take_bit_nat_eq_self take_bit_of_nat)

lemma ucast_fields:
  "(ucast (drop_bit 10 h AND 0x1f) :: u32) = of_nat (exp16 h)" "(ucast (h AND 0x3ff) :: u32) = of_nat (man16 h)"
  by (simp_all add: mask_consts exp16_def man16_def)

lemma field_bounds: "exp16 h < 32" "man16 h < 1024"
proof -
  have "unat (take_bit n (w :: f16)) < 2 ^ n" for n w
    by (simp add: unsigned_take_bit_eq)
  from this [of 5 "drop_bit 10 h"] this [of 10 h] show "exp16 h < 32" "man16 h < 1024"
    by (simp_all add: exp16_def man16_def)
qed

lemma joined_mag:
  assumes "\<And>n. bit S n \<longleftrightarrow> n = 31 \<and> s" and "0 < e" and "e < 256" and "m < 1024"
  shows "mag32 (S OR push_bit 23 (of_nat e) OR push_bit 13 (of_nat m)) = (1024 + m) * 2 ^ (e + 12)"
    and "bit (S OR push_bit 23 (of_nat e) OR push_bit 13 (of_nat m)) 31 = s"
proof -
  let ?w = "S OR push_bit 23 (of_nat e) OR push_bit 13 (of_nat m) :: u32"
  have f: "take_bit 8 (of_nat e :: u32) = of_nat e" "take_bit 10 (of_nat m :: u32) = of_nat m"
    using assms by (simp_all add: take_bit_of_nat_u32)
  note j = joined_fields [OF assms(1) f]
  show "bit ?w 31 = s" by (rule j)
  have "exp32 ?w = e" using assms by (simp only: exp32_def j(1)) (simp add: unat_small)
  moreover have "man32 ?w = m * 2 ^ 13"
  proof -
    have "push_bit 13 (of_nat m :: u32) = of_nat (m * 2 ^ 13)" by (simp add: push_bit_eq_mult)
    then have "unat (push_bit 13 (of_nat m :: u32)) = m * 2 ^ 13"
      using assms unat_small [of "m * 2 ^ 13"] by simp
    then show ?thesis by (simp only: man32_def j(2))
  qed
  moreover have "(2 :: nat) ^ (e + 12) = 2 ^ 13 * 2 ^ (e - 1)"
    using assms(2) by (simp only: flip: power_add) simp
  ultimately show "mag32 ?w = (1024 + m) * 2 ^ (e + 12)" using assms(2) by (simp add: mag32_def algebra_simps)
qed

text \<open>
  C36. Widening a finite half always returns, keeps the sign, and is exact for zero and for every
  normal half. For every subnormal half the result is exactly half of the value it should be.
\<close>

theorem f16_widening:
  assumes "exp16 h < 31"
  shows "\<exists>w. f16_bits_to_f32 h = Some w \<and> bit w 31 = bit h 15 \<and>
    (if exp16 h = 0 then 2 * mag32 w = mag16 h * 2 ^ 125 else mag32 w = mag16 h * 2 ^ 125)"
proof -
  let ?S = "push_bit 16 (ucast (h AND 0x8000)) :: u32" and ?k = "man16 h"
  have e0: "(of_nat (exp16 h) :: u32) = 0 \<longleftrightarrow> exp16 h = 0" "(of_nat (man16 h) :: u32) = 0 \<longleftrightarrow> man16 h = 0"
    "(of_nat (exp16 h) :: u32) = 0x1f \<longleftrightarrow> exp16 h = 31"
    using field_bounds [of h] unat_small [of "exp16 h"] unat_small [of "man16 h"] by (auto simp: word_unat_eq_iff)
  consider (zero) "exp16 h = 0" "?k = 0" | (sub) "exp16 h = 0" "0 < ?k" | (norm) "0 < exp16 h" by auto
  then show ?thesis
  proof cases
    case zero
    have "mag32 ?S = 0"
      using joined_fields [OF bit_sign_word, of 0 0 h] by (simp add: mag32_def exp32_def man32_def)
    then show ?thesis
      using zero by (simp add: f16_bits_to_f32_def Let_def ucast_fields mag16_def bit_sign_word)
  next
    case sub
    obtain j where j: "0 < j" "j \<le> 10" "1024 \<le> ?k * 2 ^ j" "?k * 2 ^ j < 2048"
      using shift_exists [OF sub(2)] field_bounds(2) [of h] by blast
    define m where "m = ?k * 2 ^ j - 1024"
    have m: "?k * 2 ^ j = 1024 + m" "m < 1024" using j by (simp_all add: m_def)
    have tb: "(of_nat (?k * 2 ^ j) :: u32) AND 0x3ff = of_nat m"
      using m by (simp add: mask_consts take_bit_of_nat take_bit_nat_def flip: of_nat_add)
    have "- 1 - int j + 1 - 15 + 127 = int (112 - j)" using j by simp
    then have ee: "(of_int (- 1 - int j + 1 - 15 + 127) :: u32) = of_nat (112 - j)" by (metis of_int_of_nat_eq)
    let ?w = "?S OR push_bit 23 (of_nat (112 - j)) OR push_bit 13 (of_nat m) :: u32"
    have w: "f16_bits_to_f32 h = Some ?w"
    proof -
      have z: "(of_nat (exp16 h) :: u32) = 0" "(of_nat ?k = (0 :: u32)) = False" using sub e0 by simp_all
      show ?thesis
        unfolding f16_bits_to_f32_def Let_def ucast_fields
        by (simp only: z refl if_True if_False normalise_loop_returns [OF j(3,4)] option.case prod.case tb ee)
    qed
    have "(2 :: nat) ^ j * 2 ^ (112 - j + 12) = 2 ^ 124" using j by (simp flip: power_add)
    then have "(1024 + m) * 2 ^ (112 - j + 12) = ?k * 2 ^ 124"
      unfolding m(1) [symmetric] by (simp only: mult.assoc)
    then have "2 * mag32 ?w = ?k * 2 ^ 125" and "bit ?w 31 = bit h 15"
      using joined_mag [OF bit_sign_word, of "112 - j" m h] j m(2) by simp_all
    then show ?thesis using w sub by (simp add: mag16_def)
  next
    case norm
    let ?e = "exp16 h + 112"
    have ee: "(of_nat (exp16 h) + 127 - 15 :: u32) = of_nat ?e" by simp
    let ?w = "?S OR push_bit 23 (of_nat ?e) OR push_bit 13 (of_nat ?k) :: u32"
    have w: "f16_bits_to_f32 h = Some ?w"
      using norm e0 assms ee by (simp add: f16_bits_to_f32_def Let_def ucast_fields add.commute)
    have "(2 :: nat) ^ (?e + 12) = 2 ^ (exp16 h - 1) * 2 ^ 125"
      using norm by (simp only: flip: power_add) simp
    then have "mag32 ?w = mag16 h * 2 ^ 125" and "bit ?w 31 = bit h 15"
      using joined_mag [OF bit_sign_word, of ?e ?k h] field_bounds [of h] norm
      by (simp_all only: mag16_def) simp_all
    then show ?thesis using w norm by auto
  qed
qed

theorem f16_widening_witness:
  "\<exists>w. f16_bits_to_f32 0x0200 = Some w \<and> bit w 31 = bit (0x0200 :: f16) 15 \<and>
    (if exp16 0x0200 = 0 then 2 * mag32 w = mag16 0x0200 * 2 ^ 125 else mag32 w = mag16 0x0200 * 2 ^ 125)"
  by (rule f16_widening) (simp add: exp16_def)

end
