(* ===== verification/PartFormat.thy ===== *)
theory PartFormat
  imports Wire Hashing Half
begin

unbundle bit_operations_syntax

text \<open>
  The binary part format (\<open>prism-part/src/format.rs\<close>) and the block cipher around it
  (\<open>prism-part/src/crypto.rs\<close>): the versioned header with its checksum, the rerank descriptor,
  and the framing of a column into checksummed, optionally sealed blocks. The AEAD
  (\<open>chacha20poly1305\<close>) and the nonces drawn from the operating system are parameters.
\<close>

section \<open>Constants\<close>

definition MAGIC :: "byte list" where "MAGIC = as_bytes ''PRSMPART''"
definition FORMAT_VERSION :: u32 where "FORMAT_VERSION = 4"
definition SUPPORTED_BINARY_VERSIONS :: "u32 list" where "SUPPORTED_BINARY_VERSIONS = [2, 3, 4]"
definition BYTE_ORDER_LITTLE :: byte where "BYTE_ORDER_LITTLE = 0"
definition BLOCK_SIZE :: u32 where "BLOCK_SIZE = 64 * 1024"
definition BLOCK_MAGIC :: u32 where "BLOCK_MAGIC = 0x4B4C4250"
definition SEALED_BLOCK_MAGIC :: u32 where "SEALED_BLOCK_MAGIC = 0x4B4C5350"
definition FRAME_HEADER_BYTES :: nat where "FRAME_HEADER_BYTES = 4 + 4 + 8 + 4 + 4"

definition FEATURE_BLOCK_FRAMING :: u64 where "FEATURE_BLOCK_FRAMING = push_bit 0 1"
definition FEATURE_ATTRIBUTES :: u64 where "FEATURE_ATTRIBUTES = push_bit 1 1"
definition FEATURE_TRACE_CONTEXT :: u64 where "FEATURE_TRACE_CONTEXT = push_bit 2 1"
definition FEATURE_PROMOTED_COLUMNS :: u64 where "FEATURE_PROMOTED_COLUMNS = push_bit 3 1"
definition FEATURE_PARTITION_META :: u64 where "FEATURE_PARTITION_META = push_bit 4 1"
definition FEATURE_ENCRYPTION :: u64 where "FEATURE_ENCRYPTION = push_bit 6 1"
definition FEATURE_TENANT_TOKENS :: u64 where "FEATURE_TENANT_TOKENS = push_bit 7 1"

definition SUPPORTED_FEATURES :: u64 where
  "SUPPORTED_FEATURES = FEATURE_BLOCK_FRAMING OR FEATURE_ATTRIBUTES OR FEATURE_TRACE_CONTEXT OR
     FEATURE_PARTITION_META OR FEATURE_PROMOTED_COLUMNS OR FEATURE_TENANT_TOKENS OR FEATURE_ENCRYPTION"

lemmas feature_defs = FEATURE_BLOCK_FRAMING_def FEATURE_ATTRIBUTES_def FEATURE_TRACE_CONTEXT_def
  FEATURE_PROMOTED_COLUMNS_def FEATURE_PARTITION_META_def FEATURE_ENCRYPTION_def FEATURE_TENANT_TOKENS_def
  SUPPORTED_FEATURES_def

definition RESERVED_WORDS :: nat where "RESERVED_WORDS = 4"
definition CODEC_RAW :: u16 where "CODEC_RAW = 1"
definition RERANK_ENCODING_FLOAT32 :: u16 where "RERANK_ENCODING_FLOAT32 = 1"
definition RERANK_ENCODING_FLOAT16 :: u16 where "RERANK_ENCODING_FLOAT16 = 2"
definition RERANK_CONTRACT_EXACT :: u16 where "RERANK_CONTRACT_EXACT = 1"
definition RERANK_CONTRACT_FP16_COSINE :: u16 where "RERANK_CONTRACT_FP16_COSINE = 2"
definition HEADER_BYTES :: nat where "HEADER_BYTES = 8 + 4 + 1 + 3 + 8 + 4 + 4 + 4"

section \<open>The rerank descriptor\<close>

record rerank_descriptor =
  encoding_id :: u16
  accuracy_contract_id :: u16

definition bytes_per_vector :: "rerank_descriptor \<Rightarrow> nat \<Rightarrow> nat res" where
  "bytes_per_vector d dm =
     (if encoding_id d = RERANK_ENCODING_FLOAT32 then Inr (dm * 4)
      else if encoding_id d = RERANK_ENCODING_FLOAT16 then Inr (dm * 2)
      else Inl (Corrupt ''unknown rerank encoding''))"

text \<open>Widening a half may not return in the model (the partial loop), so decoding is optional; it
  always returns, as the half widening theorem shows for finite halves.\<close>

definition decode_vector :: "rerank_descriptor \<Rightarrow> byte list \<Rightarrow> nat \<Rightarrow> f32 option list res" where
  "decode_vector d bytes dm =
     (if encoding_id d = RERANK_ENCODING_FLOAT32 then
        if length bytes \<noteq> dm * 4 then Inl (Corrupt ''rerank vector length'')
        else Inr (map (\<lambda>c. Some (of_nat (le_nat c))) (chunks_exact 4 bytes))
      else if encoding_id d = RERANK_ENCODING_FLOAT16 then
        if length bytes \<noteq> dm * 2 then Inl (Corrupt ''rerank vector length'')
        else Inr (map (\<lambda>c. f16_bits_to_f32 (of_nat (le_nat c))) (chunks_exact 2 bytes))
      else Inl (Corrupt ''unknown rerank encoding''))"

definition encode_vector :: "rerank_descriptor \<Rightarrow> f32 list \<Rightarrow> byte list res" where
  "encode_vector d v =
     (if encoding_id d = RERANK_ENCODING_FLOAT32 then Inr (concat (map wr_u32 v))
      else if encoding_id d = RERANK_ENCODING_FLOAT16 then
        Inr (concat (map (\<lambda>x. wr_u16 (f32_to_f16_bits x)) v))
      else Inl (Invariant ''cannot write this rerank encoding''))"

definition rerank_validate :: "rerank_descriptor \<Rightarrow> unit res" where
  "rerank_validate d =
     (if (encoding_id d = RERANK_ENCODING_FLOAT32 \<and> accuracy_contract_id d = RERANK_CONTRACT_EXACT) \<or>
         (encoding_id d = RERANK_ENCODING_FLOAT16 \<and> accuracy_contract_id d = RERANK_CONTRACT_FP16_COSINE)
      then Inr () else Inl (Corrupt ''unknown rerank pairing''))"

section \<open>The header\<close>

record header =
  h_format_version :: u32
  h_byte_order :: byte
  h_feature_flags :: u64
  h_body_len :: u32
  h_body_crc32 :: u32

definition header_prefix :: "header \<Rightarrow> byte list" where
  "header_prefix h = MAGIC @ wr_u32 (h_format_version h) @ wr_u8 (h_byte_order h) @ [0, 0, 0] @
     wr_u64 (h_feature_flags h) @ wr_u32 (h_body_len h) @ wr_u32 (h_body_crc32 h)"

definition header_encode :: "header \<Rightarrow> byte list" where
  "header_encode h = header_prefix h @ wr_u32 (crc32 (header_prefix h))"

definition header_fields :: "header reader" where
  "header_fields =
     cbind rd_u32 (\<lambda>v. cbind rd_u8 (\<lambda>bo. cbind (take_bytes 3) (\<lambda>_. cbind rd_u64 (\<lambda>f.
     cbind rd_u32 (\<lambda>l. cbind rd_u32 (\<lambda>k.
       creturn \<lparr>h_format_version = v, h_byte_order = bo, h_feature_flags = f, h_body_len = l, h_body_crc32 = k\<rparr>))))))"

definition header_check :: "header \<Rightarrow> header res" where
  "header_check h =
     (if h_format_version h \<notin> set SUPPORTED_BINARY_VERSIONS then Inl (Corrupt ''format version'')
      else if h_byte_order h \<noteq> BYTE_ORDER_LITTLE then Inl (Corrupt ''byte order'')
      else if h_feature_flags h AND NOT SUPPORTED_FEATURES \<noteq> 0 then Inl (Corrupt ''unknown feature bits'')
      else if h_feature_flags h AND FEATURE_BLOCK_FRAMING = 0 then Inl (Corrupt ''no block framing'')
      else Inr h)"

definition header_decode :: "byte list \<Rightarrow> header res" where
  "header_decode bytes =
     (if length bytes < HEADER_BYTES then Inl (Corrupt ''shorter than the header'')
      else if take 8 bytes \<noteq> MAGIC then Inl (Corrupt ''bad magic'')
      else
        let stated = of_nat (le_nat (take 4 (drop (HEADER_BYTES - 4) bytes)));
            actual = crc32 (take (HEADER_BYTES - 4) bytes) in
        if stated \<noteq> actual then Inl (Corrupt ''header checksum'')
        else rbind (header_fields (cursor_new (drop 8 (take (HEADER_BYTES - 4) bytes)))) (\<lambda>(_, h). header_check h))"

definition split_manifest :: "byte list \<Rightarrow> (header \<times> byte list) res" where
  "split_manifest bytes = rbind (header_decode bytes) (\<lambda>h.
     let end = HEADER_BYTES + unat (h_body_len h) in
     if length bytes < end then Inl (Corrupt ''body is truncated'')
     else let body = drop HEADER_BYTES (take end bytes) in
       if crc32 body \<noteq> h_body_crc32 h then Inl (Corrupt ''body checksum'') else Inr (h, body))"

section \<open>The block cipher\<close>

definition NONCE_BYTES :: nat where "NONCE_BYTES = 24"
definition TAG_BYTES :: nat where "TAG_BYTES = 16"
definition SEAL_OVERHEAD :: nat where "SEAL_OVERHEAD = NONCE_BYTES + TAG_BYTES"

text \<open>The AEAD of the crate: key, nonce, associated data and message to ciphertext with tag, and back.\<close>

record aead =
  ae_encrypt :: "byte list \<Rightarrow> byte list \<Rightarrow> byte list \<Rightarrow> byte list \<Rightarrow> byte list option"
  ae_decrypt :: "byte list \<Rightarrow> byte list \<Rightarrow> byte list \<Rightarrow> byte list \<Rightarrow> byte list option"

record block_cipher =
  bc_aead :: aead
  bc_key :: "byte list"
  bc_key_id :: string

definition aad_field :: "string \<Rightarrow> byte list" where
  "aad_field f = le_bytes 8 (length f) @ as_bytes f"

definition aad :: "string \<Rightarrow> string \<Rightarrow> nat \<Rightarrow> string \<Rightarrow> byte list" where
  "aad part_id column block_index key_id =
     concat (map aad_field [part_id, column, key_id]) @ le_bytes 8 block_index"

definition seal :: "block_cipher \<Rightarrow> byte list \<Rightarrow> string \<Rightarrow> string \<Rightarrow> nat \<Rightarrow> byte list \<Rightarrow> byte list res" where
  "seal c nonce part_id column i plaintext =
     (case ae_encrypt (bc_aead c) (bc_key c) nonce (aad part_id column i (bc_key_id c)) plaintext of
        None \<Rightarrow> Inl (Invariant ''sealing failed'')
      | Some sealed \<Rightarrow> Inr (nonce @ sealed))"

definition open_block :: "block_cipher \<Rightarrow> string \<Rightarrow> string \<Rightarrow> nat \<Rightarrow> byte list \<Rightarrow> byte list res" where
  "open_block c part_id column i sealed =
     (if length sealed < SEAL_OVERHEAD then Inl (Corrupt ''sealed block is truncated'')
      else case ae_decrypt (bc_aead c) (bc_key c) (take NONCE_BYTES sealed)
             (aad part_id column i (bc_key_id c)) (drop NONCE_BYTES sealed) of
        None \<Rightarrow> Inl (Corrupt ''authenticated decryption failed'')
      | Some m \<Rightarrow> Inr m)"

section \<open>Block framing\<close>

record block_ref =
  file_offset :: u64
  payload_len :: u32
  b_crc32 :: u32

fun chunks :: "nat \<Rightarrow> 'a list \<Rightarrow> 'a list list" where
  "chunks n [] = []"
| "chunks n (x # xs) = (if n = 0 then [] else take n (x # xs) # chunks n (drop n (x # xs)))"

definition column_chunks :: "byte list \<Rightarrow> nat \<Rightarrow> byte list list" where
  "column_chunks logical bs = (if logical = [] then [[]] else chunks bs logical)"

primrec plain_refs :: "nat \<Rightarrow> byte list list \<Rightarrow> block_ref list" where
  "plain_refs offset [] = []"
| "plain_refs offset (p # ps) =
     \<lparr>file_offset = of_nat offset, payload_len = of_nat (length p), b_crc32 = crc32 p\<rparr> #
     plain_refs (offset + (FRAME_HEADER_BYTES + length p)) ps"

definition plain_block_refs :: "byte list \<Rightarrow> u32 \<Rightarrow> block_ref list" where
  "plain_block_refs logical block_size = plain_refs 0 (column_chunks logical (unat block_size))"

record framed_column =
  fc_file :: "byte list"
  fc_blocks :: "block_ref list"
  fc_plain_blocks :: "block_ref list"

definition frame_head :: "bool \<Rightarrow> nat \<Rightarrow> nat \<Rightarrow> byte list \<Rightarrow> byte list" where
  "frame_head is_sealed i bs stored =
     wr_u32 (if is_sealed then SEALED_BLOCK_MAGIC else BLOCK_MAGIC) @ wr_u32 (of_nat i) @
     wr_u64 (of_nat (i * bs)) @ wr_u32 (of_nat (length stored)) @ wr_u32 (crc32 stored)"

definition store_block :: "(block_cipher \<times> (nat \<Rightarrow> byte list)) option \<Rightarrow> string \<Rightarrow> string \<Rightarrow> nat \<Rightarrow> byte list \<Rightarrow> byte list res" where
  "store_block cipher part_id column i plain =
     (case cipher of None \<Rightarrow> Inr plain | Some (c, nonce) \<Rightarrow> seal c (nonce i) part_id column i plain)"

primrec frame_loop :: "(block_cipher \<times> (nat \<Rightarrow> byte list)) option \<Rightarrow> string \<Rightarrow> string \<Rightarrow> nat \<Rightarrow>
    byte list list \<Rightarrow> nat \<Rightarrow> nat \<Rightarrow> framed_column \<Rightarrow> framed_column res" where
  "frame_loop cipher part_id column bs [] i plain_offset fc = Inr fc"
| "frame_loop cipher part_id column bs (plain # ps) i plain_offset fc =
     rbind (store_block cipher part_id column i plain) (\<lambda>stored.
       frame_loop cipher part_id column bs ps (Suc i) (plain_offset + (FRAME_HEADER_BYTES + length plain))
         (fc\<lparr>fc_file := fc_file fc @ frame_head (cipher \<noteq> None) i bs stored @ stored,
            fc_blocks := fc_blocks fc @ [\<lparr>file_offset = of_nat (length (fc_file fc)),
              payload_len = of_nat (length stored), b_crc32 = crc32 stored\<rparr>],
            fc_plain_blocks := fc_plain_blocks fc @ [\<lparr>file_offset = of_nat plain_offset,
              payload_len = of_nat (length plain),
              b_crc32 = (case cipher of None \<Rightarrow> crc32 stored | Some _ \<Rightarrow> crc32 plain)\<rparr>]\<rparr>))"

definition frame_column_sealed :: "byte list \<Rightarrow> u32 \<Rightarrow> (block_cipher \<times> (nat \<Rightarrow> byte list)) option \<Rightarrow>
    string \<Rightarrow> string \<Rightarrow> framed_column res" where
  "frame_column_sealed logical block_size cipher part_id column =
     frame_loop cipher part_id column (unat block_size) (column_chunks logical (unat block_size)) 0 0
       \<lparr>fc_file = [], fc_blocks = [], fc_plain_blocks = []\<rparr>"

definition read_block_sealed :: "byte list \<Rightarrow> nat \<Rightarrow> block_ref \<Rightarrow> string \<Rightarrow> string \<Rightarrow> u32 \<Rightarrow>
    block_cipher option \<Rightarrow> byte list res" where
  "read_block_sealed raw index expect column part_id block_size cipher =
     rbind (rd_u32 (cursor_new raw)) (\<lambda>(c, magic).
     rbind (if (magic = BLOCK_MAGIC \<and> cipher = None) \<or> (magic = SEALED_BLOCK_MAGIC \<and> cipher \<noteq> None) then Inr ()
            else if magic = SEALED_BLOCK_MAGIC then Inl (Policy ''sealed block and no key'')
            else if magic = BLOCK_MAGIC then Inl (Corrupt ''block is not sealed'')
            else Inl (Corrupt ''bad frame magic'')) (\<lambda>_.
     rbind (rd_u32 c) (\<lambda>(c, idx).
     if unat idx \<noteq> index then Inl (Corrupt ''frame says another block'')
     else rbind (rd_u64 c) (\<lambda>(c, logical_offset).
     if logical_offset \<noteq> of_nat index * ucast block_size then Inl (Corrupt ''frame offset'')
     else rbind (rd_u32 c) (\<lambda>(c, plen).
     if plen \<noteq> payload_len expect then Inl (Corrupt ''frame length'')
     else rbind (rd_u32 c) (\<lambda>(c, stated_crc).
     if stated_crc \<noteq> b_crc32 expect then Inl (Corrupt ''frame checksum'')
     else if remaining c < unat plen then Inl (Corrupt ''truncated block'')
     else let payload = take (unat plen) (drop (c_pos c) raw) in
       if crc32 payload \<noteq> b_crc32 expect then Inl (Corrupt ''block checksum'')
       else case cipher of
           Some bc \<Rightarrow> open_block bc part_id column index payload
         | None \<Rightarrow> Inr payload))))))"

definition blocks_for_range :: "nat \<Rightarrow> nat \<Rightarrow> u32 \<Rightarrow> nat \<times> nat" where
  "blocks_for_range offset len block_size =
     (if len = 0 then (offset div unat block_size, offset div unat block_size)
      else (offset div unat block_size, (offset + len - 1) div unat block_size))"

section \<open>The header round trip\<close>

lemma length_MAGIC [simp]: "length MAGIC = 8"
  by (simp add: MAGIC_def)

lemma header_prefix_length [simp]: "length (header_prefix h) = 32"
  by (simp add: header_prefix_def)

lemma header_encode_length [simp]: "length (header_encode h) = 36"
  by (simp add: header_encode_def)

lemma reads_header: "reads header_fields (drop 8 (header_prefix h)) h"
proof -
  have "drop 8 (header_prefix h) = wr_u32 (h_format_version h) @ wr_u8 (h_byte_order h) @ [0, 0, 0] @
     wr_u64 (h_feature_flags h) @ wr_u32 (h_body_len h) @ wr_u32 (h_body_crc32 h)"
    by (simp add: header_prefix_def)
  moreover have r: "reads (take_bytes 3) [0, 0, 0] [0, 0, 0]"
    using reads_take [of "[0, 0, 0]"] by (simp add: numeral_3_eq_3)
  have "reads header_fields (wr_u32 (h_format_version h) @ wr_u8 (h_byte_order h) @ [0, 0, 0] @
     wr_u64 (h_feature_flags h) @ wr_u32 (h_body_len h) @ wr_u32 (h_body_crc32 h)) h"
    unfolding header_fields_def
    by (rule reads_bind [OF reads_u32] reads_bind [OF reads_wr_u8] reads_bind [OF r] reads_bind [OF reads_u64]
        reads_map [OF reads_u32])+ simp
  ultimately show ?thesis by simp
qed

lemma u32_bytes [simp]: "of_nat (le_nat (wr_u32 v)) = v"
  by (simp add: wr_u32_def le_nat_le_bytes of_nat_unat_mod [where 'a = 32, simplified])

lemma header_decode_encode:
  assumes "header_check h = Inr h"
  shows "header_decode (header_encode h @ tail) = Inr h"
proof -
  have f: "header_fields (cursor_new (drop 8 (header_prefix h))) = Inr (skip 24 (cursor_new (drop 8 (header_prefix h))), h)"
    using reads_header [of h] by (simp add: reads_def)
  have "take 8 (header_prefix h) = MAGIC" by (simp add: header_prefix_def)
  then show ?thesis
    using assms f by (simp add: header_decode_def header_encode_def HEADER_BYTES_def Let_def)
qed

definition manifest_file :: "header \<Rightarrow> byte list \<Rightarrow> byte list" where
  "manifest_file h body = header_encode h @ body"

definition seals_body :: "header \<Rightarrow> byte list \<Rightarrow> bool" where
  "seals_body h body \<longleftrightarrow> header_check h = Inr h \<and> unat (h_body_len h) = length body \<and> h_body_crc32 h = crc32 body"

lemma split_manifest_file:
  "seals_body h body \<Longrightarrow> split_manifest (manifest_file h body) = Inr (h, body)"
  by (simp add: split_manifest_def manifest_file_def seals_body_def header_decode_encode HEADER_BYTES_def Let_def)

section \<open>Damage to a manifest\<close>

lemma le_nat_inj: "length a = length b \<Longrightarrow> le_nat a = le_nat b \<Longrightarrow> a = b"
  by (metis le_bytes_le_nat)

lemma u32_of_bytes_inj:
  assumes "length a = 4" "length b = 4" and "(of_nat (le_nat a) :: u32) = of_nat (le_nat b)"
  shows "a = b"
proof -
  have "le_nat a < 2 ^ 32" "le_nat b < 2 ^ 32" using le_nat_less [of a] le_nat_less [of b] assms by simp_all
  then have "le_nat a = le_nat b"
    using arg_cong [OF assms(3), of unat] by (simp add: unat_of_nat)
  then show ?thesis using assms le_nat_inj by simp
qed

lemma header_damage:
  assumes "k < 36" and "b \<noteq> header_encode h ! k"
  shows "\<exists>e. header_decode ((header_encode h)[k := b] @ body) = Inl e"
proof (cases "k < 32")
  case True
  have enc: "(header_encode h)[k := b] = (header_prefix h)[k := b] @ wr_u32 (crc32 (header_prefix h))"
    using True by (simp add: header_encode_def list_update_append)
  have "b \<noteq> header_prefix h ! k" using assms(2) True by (simp add: header_encode_def nth_append)
  then have "crc32 ((header_prefix h)[k := b]) \<noteq> crc32 (header_prefix h)" using True by (intro crc32_update_neq) simp_all
  then show ?thesis unfolding enc by (simp add: header_decode_def HEADER_BYTES_def Let_def)
next
  case False
  let ?c = "wr_u32 (crc32 (header_prefix h))"
  have enc: "(header_encode h)[k := b] = header_prefix h @ ?c[k - 32 := b]"
    using False by (simp add: header_encode_def list_update_append)
  have "?c[k - 32 := b] ! (k - 32) = b" using assms(1) False by simp
  moreover have "?c ! (k - 32) \<noteq> b" using assms(2) False by (simp add: header_encode_def nth_append)
  ultimately have "?c[k - 32 := b] \<noteq> ?c" by metis
  then have "(of_nat (le_nat (?c[k - 32 := b])) :: u32) \<noteq> of_nat (le_nat ?c)"
    using u32_of_bytes_inj [of "?c[k - 32 := b]" ?c] by auto
  then show ?thesis unfolding enc by (simp add: header_decode_def HEADER_BYTES_def Let_def)
qed

section \<open>Reading back a framed block\<close>

lemma length_frame_head [simp]: "length (frame_head s i bs stored) = 24"
  by (simp add: frame_head_def)

lemma read_frame:
  assumes "n < 2 ^ 32" and "length stored < 2 ^ 32" and "s = (cipher \<noteq> None)"
    and "payload_len expect = of_nat (length stored)" and "b_crc32 expect = crc32 stored"
  shows "read_block_sealed (frame_head s n (unat bs) stored @ stored @ rest) n expect col part bs cipher =
    (case cipher of None \<Rightarrow> Inr stored | Some bc \<Rightarrow> open_block bc part col n stored)"
proof -
  let ?raw = "frame_head s n (unat bs) stored @ stored @ rest" and ?c = "cursor_new (frame_head s n (unat bs) stored @ stored @ rest)"
  let ?m = "if s then SEALED_BLOCK_MAGIC else BLOCK_MAGIC"
  have a: "avail ?c = wr_u32 ?m @ wr_u32 (of_nat n) @ wr_u64 (of_nat (n * unat bs)) @
     wr_u32 (of_nat (length stored)) @ wr_u32 (crc32 stored) @ stored @ rest"
    by (simp add: frame_head_def)
  have r: "rd_u32 c = Inr (skip 4 c, v)" if "avail c = wr_u32 v @ tl" for c v tl
    using reads_u32 [of v] that by (simp add: reads_def)
  have r8: "rd_u64 c = Inr (skip 8 c, v)" if "avail c = wr_u64 v @ tl" for c v tl
    using reads_u64 [of v] that by (simp add: reads_def)
  have 1: "rd_u32 ?c = Inr (skip 4 ?c, ?m)" using a by (intro r)
  have 2: "rd_u32 (skip 4 ?c) = Inr (skip 8 ?c, of_nat n)" using r [of "skip 4 ?c" "of_nat n"] a by simp
  have 3: "rd_u64 (skip 8 ?c) = Inr (skip 16 ?c, of_nat (n * unat bs))"
    using r8 [of "skip 8 ?c" "of_nat (n * unat bs)"] a by simp
  have 4: "rd_u32 (skip 16 ?c) = Inr (skip 20 ?c, of_nat (length stored))"
    using r [of "skip 16 ?c" "of_nat (length stored)"] a by simp
  have 5: "rd_u32 (skip 20 ?c) = Inr (skip 24 ?c, crc32 stored)"
    using r [of "skip 20 ?c" "crc32 stored"] a by simp
  have off: "(of_nat (n * unat bs) :: u64) = of_nat n * ucast bs" by simp
  have un: "unat (of_nat n :: u32) = n" "unat (of_nat (length stored) :: u32) = length stored"
    using assms(1,2) by (simp_all add: unat_of_nat)
  have pos: "c_pos (skip 24 ?c) = 24" "remaining (skip 24 ?c) = length stored + length rest"
    by (simp add: skip_def cursor_new_def) (simp add: remaining_avail)
  have cond: "((?m = BLOCK_MAGIC \<and> cipher = None) \<or> (?m = SEALED_BLOCK_MAGIC \<and> cipher \<noteq> None)) = True"
    using assms(3) by (cases cipher) simp_all
  have len: "\<not> length stored + length rest < length stored" by simp
  have pay: "take (length stored) (drop 24 ?raw) = stored" by simp
  show ?thesis
    unfolding read_block_sealed_def Let_def
    by (simp only: 1 2 3 4 5 rbind_simps case_prod_conv cond if_True if_False un off assms(4,5) pos len pay
        not_True_eq_False not_False_eq_True simp_thms)
qed

section \<open>Framing a column\<close>

definition block_at :: "(block_cipher \<times> (nat \<Rightarrow> byte list)) option \<Rightarrow> string \<Rightarrow> string \<Rightarrow> nat \<Rightarrow>
    byte list list \<Rightarrow> framed_column \<Rightarrow> nat \<Rightarrow> bool" where
  "block_at cipher part col bs cs fc n \<longleftrightarrow> (\<exists>stored rest.
     store_block cipher part col n (cs ! n) = Inr stored \<and>
     drop (unat (file_offset (fc_blocks fc ! n))) (fc_file fc) =
       frame_head (cipher \<noteq> None) n bs stored @ stored @ rest \<and>
     payload_len (fc_blocks fc ! n) = of_nat (length stored) \<and> b_crc32 (fc_blocks fc ! n) = crc32 stored)"

lemma frame_loop_grows:
  "frame_loop cipher part col bs ps i po fc = Inr fc' \<Longrightarrow> length (fc_file fc) \<le> length (fc_file fc')"
  by (induction ps arbitrary: i po fc) (fastforce simp: rbind_Inr_iff)+

lemma frame_loop_blocks:
  assumes "frame_loop cipher part col bs ps i po fc = Inr fc'" and "cs = done @ ps" and "i = length done"
    and "length (fc_blocks fc) = i" and "\<And>n. n < i \<Longrightarrow> block_at cipher part col bs cs fc n"
    and "length (fc_file fc') < 2 ^ 64"
  shows "length (fc_blocks fc') = length cs \<and> (\<forall>n < length cs. block_at cipher part col bs cs fc' n)"
  using assms
proof (induction ps arbitrary: i po fc "done")
  case (Cons p ps)
  obtain stored where st: "store_block cipher part col i p = Inr stored"
    and fl: "frame_loop cipher part col bs ps (Suc i) (po + (FRAME_HEADER_BYTES + length p))
       (fc\<lparr>fc_file := fc_file fc @ frame_head (cipher \<noteq> None) i bs stored @ stored,
          fc_blocks := fc_blocks fc @ [\<lparr>file_offset = of_nat (length (fc_file fc)),
            payload_len = of_nat (length stored), b_crc32 = crc32 stored\<rparr>],
          fc_plain_blocks := fc_plain_blocks fc @ [\<lparr>file_offset = of_nat po, payload_len = of_nat (length p),
            b_crc32 = (case cipher of None \<Rightarrow> crc32 stored | Some _ \<Rightarrow> crc32 p)\<rparr>]\<rparr>) = Inr fc'"
    (is "frame_loop _ _ _ _ _ _ _ ?fc = _")
    using Cons.prems(1) by (auto simp: rbind_Inr_iff)
  have size: "length (fc_file fc) < 2 ^ 64" using frame_loop_grows [OF fl] Cons.prems(6) by simp
  show ?case
  proof (rule Cons.IH [OF fl, of "done @ [p]"])
    fix n assume n: "n < Suc i"
    show "block_at cipher part col bs cs ?fc n"
    proof (cases "n < i")
      case True
      then obtain stored' rest where b: "store_block cipher part col n (cs ! n) = Inr stored'"
        "drop (unat (file_offset (fc_blocks fc ! n))) (fc_file fc) = frame_head (cipher \<noteq> None) n bs stored' @ stored' @ rest"
        "payload_len (fc_blocks fc ! n) = of_nat (length stored')" "b_crc32 (fc_blocks fc ! n) = crc32 stored'"
        using Cons.prems(5) [OF True] unfolding block_at_def by blast
      have "unat (file_offset (fc_blocks fc ! n)) \<le> length (fc_file fc)"
        using arg_cong [OF b(2), of length] by simp
      then show ?thesis
        using b True Cons.prems(4) unfolding block_at_def
        by (intro exI [of _ stored'] exI [of _ "rest @ frame_head (cipher \<noteq> None) i bs stored @ stored"])
          (simp add: nth_append)
    next
      case False
      then have "n = i" using n by simp
      moreover have "unat (of_nat (length (fc_file fc)) :: u64) = length (fc_file fc)"
        using size by (simp add: unat_of_nat)
      ultimately show ?thesis
        using st Cons.prems(2-4) unfolding block_at_def
        by (intro exI [of _ stored] exI [of _ "[]"]) (simp add: nth_append)
    qed
  qed (use Cons.prems in simp_all)
qed auto

lemma chunks_facts:
  assumes "0 < n"
  shows "concat (chunks n xs) = xs \<and> (\<forall>c \<in> set (chunks n xs). length c \<le> n)"
  using assms by (induction n xs rule: chunks.induct) auto

lemma column_chunks_concat: "0 < n \<Longrightarrow> concat (column_chunks xs n) = xs"
  using chunks_facts [of n xs] by (simp add: column_chunks_def)

lemma column_chunks_length: "0 < n \<Longrightarrow> c \<in> set (column_chunks xs n) \<Longrightarrow> length c \<le> n"
  using chunks_facts [of n xs] by (auto simp: column_chunks_def split: if_splits)

text \<open>What the AEAD crate documents: the tag adds 16 bytes, and decryption under the same key,
  nonce and associated data returns the message.\<close>

definition aead_ok :: "aead \<Rightarrow> bool" where
  "aead_ok A \<longleftrightarrow> (\<forall>k n a m s. ae_encrypt A k n a m = Some s \<longrightarrow>
     length s = length m + TAG_BYTES \<and> ae_decrypt A k n a s = Some m)"

definition cipher_ok :: "(block_cipher \<times> (nat \<Rightarrow> byte list)) option \<Rightarrow> bool" where
  "cipher_ok cipher \<longleftrightarrow> (case cipher of None \<Rightarrow> True
     | Some (c, nonce) \<Rightarrow> aead_ok (bc_aead c) \<and> (\<forall>i. length (nonce i) = NONCE_BYTES))"

lemma open_seal:
  assumes "aead_ok (bc_aead c)" "length nonce = NONCE_BYTES" "seal c nonce part col i m = Inr s"
  shows "open_block c part col i s = Inr m \<and> length s = length m + SEAL_OVERHEAD"
proof -
  obtain t where t: "ae_encrypt (bc_aead c) (bc_key c) nonce (aad part col i (bc_key_id c)) m = Some t" "s = nonce @ t"
    using assms(3) by (auto simp: seal_def split: option.splits)
  then show ?thesis
    using assms(1,2) by (auto simp: aead_ok_def open_block_def SEAL_OVERHEAD_def)
qed

lemma store_block_ok:
  assumes "cipher_ok cipher" "store_block cipher part col i m = Inr s"
  shows "(case map_option fst cipher of None \<Rightarrow> Inr s | Some bc \<Rightarrow> open_block bc part col i s) = Inr m \<and>
    length s \<le> length m + SEAL_OVERHEAD"
proof (cases cipher)
  case (Some cn)
  obtain c nonce where cn: "cn = (c, nonce)" by fastforce
  then have "open_block c part col i s = Inr m \<and> length s = length m + SEAL_OVERHEAD"
    using assms Some by (intro open_seal [of c "nonce i"]) (auto simp: cipher_ok_def store_block_def)
  then show ?thesis using Some cn by simp
qed (use assms in \<open>simp add: store_block_def\<close>)

lemma frame_plain_blocks:
  "frame_loop cipher part col bs ps i po fc = Inr fc' \<Longrightarrow>
   fc_plain_blocks fc' = fc_plain_blocks fc @ plain_refs po ps"
proof (induction ps arbitrary: i po fc)
  case (Cons p ps)
  then show ?case
    by (cases cipher) (auto simp: rbind_Inr_iff store_block_def)
qed simp

section \<open>What a block that reads back looks like\<close>

lemma le_bytes_of_u32: "length bs = 4 \<Longrightarrow> wr_u32 (of_nat (le_nat bs)) = bs"
  using le_bytes_le_nat [of bs] le_nat_less [of bs] by (simp add: wr_u32_def unat_of_nat)

lemma le_bytes_of_u64: "length bs = 8 \<Longrightarrow> wr_u64 (of_nat (le_nat bs)) = bs"
  using le_bytes_le_nat [of bs] le_nat_less [of bs] by (simp add: wr_u64_def unat_of_nat)

lemma rd_u32_Inr: "rd_u32 c = Inr (c', v) \<longleftrightarrow> 4 \<le> length (avail c) \<and> c' = skip 4 c \<and> take 4 (avail c) = wr_u32 v"
proof -
  have "take 4 (avail c) = wr_u32 v \<longleftrightarrow> v = of_nat (le_nat (take 4 (avail c)))" if "4 \<le> length (avail c)"
    using that le_bytes_of_u32 [of "take 4 (avail c)"] by auto
  then show ?thesis
    by (auto simp: rd_u32_def cbind_def take_bytes_def remaining_avail creturn_def skip_def avail_def [symmetric])
qed

lemma rd_u64_Inr: "rd_u64 c = Inr (c', v) \<longleftrightarrow> 8 \<le> length (avail c) \<and> c' = skip 8 c \<and> take 8 (avail c) = wr_u64 v"
proof -
  have w: "of_nat (le_nat (wr_u64 v)) = v" for v :: u64
    by (simp add: wr_u64_def le_nat_le_bytes of_nat_unat_mod [where 'a = 64, simplified])
  have "take 8 (avail c) = wr_u64 v \<longleftrightarrow> v = of_nat (le_nat (take 8 (avail c)))" if "8 \<le> length (avail c)"
    using that le_bytes_of_u64 [of "take 8 (avail c)"] w [of v] by auto
  then show ?thesis
    by (auto simp: rd_u64_def cbind_def take_bytes_def remaining_avail creturn_def skip_def avail_def [symmetric])
qed

definition expected_head :: "bool \<Rightarrow> nat \<Rightarrow> u32 \<Rightarrow> block_ref \<Rightarrow> byte list" where
  "expected_head is_sealed i bs e =
     wr_u32 (if is_sealed then SEALED_BLOCK_MAGIC else BLOCK_MAGIC) @ wr_u32 (of_nat i) @
     wr_u64 (of_nat i * ucast bs) @ wr_u32 (payload_len e) @ wr_u32 (b_crc32 e)"

lemma length_expected_head [simp]: "length (expected_head s i bs e) = 24"
  by (simp add: expected_head_def)

lemma read_block_shape:
  assumes "read_block_sealed raw i e col part bs cipher = Inr x"
  shows "take 24 raw = expected_head (cipher \<noteq> None) i bs e" and "24 + unat (payload_len e) \<le> length raw"
    and "crc32 (take (unat (payload_len e)) (drop 24 raw)) = b_crc32 e"
proof -
  have split: "take 24 raw = take 4 raw @ take 4 (drop 4 raw) @ take 8 (drop 8 raw) @
      take 4 (drop 16 raw) @ take 4 (drop 20 raw)"
    using take_add [of 4 20 raw] take_add [of 4 16 "drop 4 raw"] take_add [of 8 8 "drop 8 raw"]
      take_add [of 4 4 "drop 16 raw"] by simp
  obtain magic idx off len crc where
    c1: "rd_u32 (cursor_new raw) = Inr (skip 4 (cursor_new raw), magic)"
    and m: "magic = (if cipher \<noteq> None then SEALED_BLOCK_MAGIC else BLOCK_MAGIC)"
    and c2: "rd_u32 (skip 4 (cursor_new raw)) = Inr (skip 8 (cursor_new raw), idx)" "unat idx = i"
    and c3: "rd_u64 (skip 8 (cursor_new raw)) = Inr (skip 16 (cursor_new raw), off)" "off = of_nat i * ucast bs"
    and c4: "rd_u32 (skip 16 (cursor_new raw)) = Inr (skip 20 (cursor_new raw), len)" "len = payload_len e"
    and c5: "rd_u32 (skip 20 (cursor_new raw)) = Inr (skip 24 (cursor_new raw), crc)" "crc = b_crc32 e"
    and r: "\<not> remaining (skip 24 (cursor_new raw)) < unat len"
    and p: "crc32 (take (unat len) (drop (c_pos (skip 24 (cursor_new raw))) raw)) = b_crc32 e"
  proof -
    obtain ca magic where 1: "rd_u32 (cursor_new raw) = Inr (ca, magic)"
      using assms by (auto simp: read_block_sealed_def rbind_Inr_iff)
    have ca: "ca = skip 4 (cursor_new raw)" using 1 by (simp add: rd_u32_Inr)
    have m: "magic = (if cipher \<noteq> None then SEALED_BLOCK_MAGIC else BLOCK_MAGIC)"
      using assms 1 by (auto simp: read_block_sealed_def split: if_splits)
    obtain cb idx where 2: "rd_u32 ca = Inr (cb, idx)" "unat idx = i"
      using assms 1 by (auto simp: read_block_sealed_def rbind_Inr_iff split: if_splits)
    have cb: "cb = skip 8 (cursor_new raw)" using 2 ca by (simp add: rd_u32_Inr)
    obtain cc off where 3: "rd_u64 cb = Inr (cc, off)" "off = of_nat i * ucast bs"
      using assms 1 2 by (auto simp: read_block_sealed_def rbind_Inr_iff split: if_splits)
    have cc: "cc = skip 16 (cursor_new raw)" using 3 cb by (simp add: rd_u64_Inr)
    obtain cd len where 4: "rd_u32 cc = Inr (cd, len)" "len = payload_len e"
      using assms 1 2 3 by (auto simp: read_block_sealed_def rbind_Inr_iff split: if_splits)
    have cd: "cd = skip 20 (cursor_new raw)" using 4 cc by (simp add: rd_u32_Inr)
    obtain ce crc where 5: "rd_u32 cd = Inr (ce, crc)" "crc = b_crc32 e"
      using assms 1 2 3 4 by (auto simp: read_block_sealed_def rbind_Inr_iff split: if_splits)
    have ce: "ce = skip 24 (cursor_new raw)" using 5 cd by (simp add: rd_u32_Inr)
    have "\<not> remaining ce < unat len" "crc32 (take (unat len) (drop (c_pos ce) raw)) = b_crc32 e"
      using assms 1 2 3 4 5 by (auto simp: read_block_sealed_def rbind_Inr_iff Let_def split: if_splits)
    then show thesis using that 1 2 3 4 5 m unfolding ca cb cc cd ce by blast
  qed
  have i: "of_nat i = idx" unfolding c2(2) [symmetric] by simp
  show "take 24 raw = expected_head (cipher \<noteq> None) i bs e"
    using c1 c2 c3 c4 c5 m i unfolding split expected_head_def by (auto simp: rd_u32_Inr rd_u64_Inr)
  have pos: "c_pos (skip 24 (cursor_new raw)) = 24" by (simp add: skip_def cursor_new_def)
  show "24 + unat (payload_len e) \<le> length raw"
    using r c5(1) c4(2) by (simp add: remaining_avail rd_u32_Inr) linarith
  show "crc32 (take (unat (payload_len e)) (drop 24 raw)) = b_crc32 e" using p c4(2) by (simp add: pos)
qed

section \<open>Properties\<close>

lemma manifest_refused:
  assumes "seals_body h body" and "k < length (manifest_file h body)" and "b \<noteq> manifest_file h body ! k"
  shows "\<exists>e. split_manifest ((manifest_file h body)[k := b]) = Inl e"
proof (cases "k < 36")
  case True
  then have "(manifest_file h body)[k := b] = (header_encode h)[k := b] @ body"
    by (simp add: manifest_file_def list_update_append)
  moreover have "b \<noteq> header_encode h ! k" using assms(3) True by (simp add: manifest_file_def nth_append)
  moreover obtain e where "header_decode ((header_encode h)[k := b] @ body) = Inl e"
    using header_damage [OF True calculation(2)] by blast
  ultimately show ?thesis by (simp add: split_manifest_def)
next
  case False
  have f: "(manifest_file h body)[k := b] = header_encode h @ body[k - 36 := b]"
    using False by (simp add: manifest_file_def list_update_append)
  have "crc32 (body[k - 36 := b]) \<noteq> crc32 body"
    using assms(2,3) False by (intro crc32_update_neq) (simp_all add: manifest_file_def nth_append)
  then show ?thesis
    using assms(1) unfolding f
    by (simp add: split_manifest_def seals_body_def header_decode_encode HEADER_BYTES_def Let_def)
qed

text \<open>
  C24. A manifest survives the disk: a file written with a valid header over its body splits into that
  header and body again, and after changing any one byte of the file, header or body, to any other
  value, reading it is refused.
\<close>

theorem manifest_damage:
  assumes "seals_body h body" and "k < length (manifest_file h body)" and "b \<noteq> manifest_file h body ! k"
  shows "split_manifest (manifest_file h body) = Inr (h, body) \<and>
    (\<exists>e. split_manifest ((manifest_file h body)[k := b]) = Inl e)"
  using split_manifest_file [OF assms(1)] manifest_refused [OF assms] by simp

definition sample_header :: "byte list \<Rightarrow> header" where
  "sample_header body = \<lparr>h_format_version = 4, h_byte_order = 0, h_feature_flags = 1,
     h_body_len = of_nat (length body), h_body_crc32 = crc32 body\<rparr>"

theorem manifest_damage_witness:
  "split_manifest (manifest_file (sample_header [7, 8]) [7, 8]) = Inr (sample_header [7, 8], [7, 8]) \<and>
   (\<exists>e. split_manifest ((manifest_file (sample_header [7, 8]) [7, 8])[37 := 9]) = Inl e)"
proof (rule manifest_damage)
  show "seals_body (sample_header [7, 8]) [7, 8]"
    by (simp add: seals_body_def sample_header_def header_check_def SUPPORTED_BINARY_VERSIONS_def
        BYTE_ORDER_LITTLE_def feature_defs)
  show "37 < length (manifest_file (sample_header [7, 8]) [7, 8])" by (simp add: manifest_file_def)
  show "9 \<noteq> manifest_file (sample_header [7, 8]) [7, 8] ! 37" by (simp add: manifest_file_def nth_append)
qed

text \<open>
  C25. Damage is localised: once a block reads back, changing any single byte of its frame header or
  of its stored payload makes the read fail. The checksum is verified before a cipher is consulted.
\<close>

theorem block_damage:
  assumes "read_block_sealed raw i e col part bs cipher = Inr x"
    and "k < 24 + unat (payload_len e)" and "b \<noteq> raw ! k"
  shows "\<exists>err. read_block_sealed (raw[k := b]) i e col part bs cipher = Inl err"
proof (rule ccontr)
  let ?raw = "raw[k := b]" and ?n = "unat (payload_len e)"
  assume "\<nexists>err. read_block_sealed ?raw i e col part bs cipher = Inl err"
  then obtain y where y: "read_block_sealed ?raw i e col part bs cipher = Inr y"
    by (cases "read_block_sealed ?raw i e col part bs cipher") auto
  note a = read_block_shape [OF assms(1)] and b = read_block_shape [OF y]
  have k: "k < length raw" using a(2) assms(2) by simp
  have "24 \<le> k"
  proof (rule ccontr)
    assume "\<not> 24 \<le> k"
    then have "take 24 ?raw ! k = b" "take 24 raw ! k = raw ! k" using k by simp_all
    then show False using a(1) b(1) assms(3) by simp
  qed
  let ?p = "take ?n (drop 24 raw)"
  have "take ?n (drop 24 ?raw) = ?p[k - 24 := b]"
    using \<open>24 \<le> k\<close> by (simp add: drop_update_swap take_update_swap)
  moreover have "crc32 (?p[k - 24 := b]) \<noteq> crc32 ?p"
    using \<open>24 \<le> k\<close> assms(2,3) a(2) by (intro crc32_update_neq) simp_all
  ultimately show False using a(3) b(3) by simp
qed

theorem block_damage_witness:
  "\<exists>err. read_block_sealed ((frame_head False 0 16 [5, 6] @ [5, 6])[25 := 7]) 0
     \<lparr>file_offset = 0, payload_len = 2, b_crc32 = crc32 [5, 6]\<rparr> ''body'' ''p'' 16 None = Inl err"
proof (rule block_damage)
  show "read_block_sealed (frame_head False 0 16 [5, 6] @ [5, 6]) 0
     \<lparr>file_offset = 0, payload_len = 2, b_crc32 = crc32 [5, 6]\<rparr> ''body'' ''p'' 16 None = Inr [5, 6]"
    using read_frame [of 0 "[5, 6]" False None "\<lparr>file_offset = 0, payload_len = 2, b_crc32 = crc32 [5, 6]\<rparr>" 16 "[]"]
    by simp
qed (simp_all add: nth_append)

text \<open>
  C13. Framing and reading back are inverse: the blocks of a framed column, sealed or not, read back
  to the block-sized pieces of the column, in order and complete, and the plaintext block
  references (which name the part) do not depend on the cipher.
\<close>

theorem frame_roundtrip:
  assumes "frame_column_sealed logical bs cipher part col = Inr fc" and "cipher_ok cipher"
    and "0 < unat bs" and "unat bs + SEAL_OVERHEAD < 2 ^ 32"
    and "length (fc_file fc) < 2 ^ 64" and "length (fc_blocks fc) \<le> 2 ^ 32"
  shows "map (\<lambda>n. read_block_sealed (drop (unat (file_offset (fc_blocks fc ! n))) (fc_file fc)) n
       (fc_blocks fc ! n) col part bs (map_option fst cipher)) [0..<length (fc_blocks fc)] =
     map Inr (column_chunks logical (unat bs)) \<and>
     concat (column_chunks logical (unat bs)) = logical \<and> fc_plain_blocks fc = plain_block_refs logical bs"
proof -
  let ?cs = "column_chunks logical (unat bs)"
  have loop: "frame_loop cipher part col (unat bs) ?cs 0 0 \<lparr>fc_file = [], fc_blocks = [], fc_plain_blocks = []\<rparr> = Inr fc"
    using assms(1) by (simp add: frame_column_sealed_def)
  have b: "length (fc_blocks fc) = length ?cs" "\<And>n. n < length ?cs \<Longrightarrow> block_at cipher part col (unat bs) ?cs fc n"
    using frame_loop_blocks [OF loop, of ?cs "[]"] assms(5) by auto
  have "read_block_sealed (drop (unat (file_offset (fc_blocks fc ! n))) (fc_file fc)) n (fc_blocks fc ! n)
      col part bs (map_option fst cipher) = Inr (?cs ! n)" if n: "n < length ?cs" for n
  proof -
    obtain stored rest where s: "store_block cipher part col n (?cs ! n) = Inr stored"
      "drop (unat (file_offset (fc_blocks fc ! n))) (fc_file fc) = frame_head (cipher \<noteq> None) n (unat bs) stored @ stored @ rest"
      "payload_len (fc_blocks fc ! n) = of_nat (length stored)" "b_crc32 (fc_blocks fc ! n) = crc32 stored"
      using b(2) [OF n] unfolding block_at_def by blast
    have "length (?cs ! n) \<le> unat bs" using n assms(3) by (intro column_chunks_length [of _ _ logical]) simp_all
    then have "length stored < 2 ^ 32" using store_block_ok [OF assms(2) s(1)] assms(4) by simp
    moreover have "n < 2 ^ 32" using n b(1) assms(6) by simp
    ultimately show ?thesis
      unfolding s(2)
      using read_frame [of n stored "cipher \<noteq> None" "map_option fst cipher" "fc_blocks fc ! n" bs rest col part]
        s(3,4) store_block_ok [OF assms(2) s(1)]
      by (simp del: not_None_eq)
  qed
  then have "map (\<lambda>n. read_block_sealed (drop (unat (file_offset (fc_blocks fc ! n))) (fc_file fc)) n
       (fc_blocks fc ! n) col part bs (map_option fst cipher)) [0..<length (fc_blocks fc)] = map Inr ?cs"
    by (intro nth_equalityI) (simp_all add: b(1))
  moreover have "fc_plain_blocks fc = plain_block_refs logical bs"
    using frame_plain_blocks [OF loop] by (simp add: plain_block_refs_def)
  ultimately show ?thesis using column_chunks_concat assms(3) by simp
qed

definition toy_aead :: aead where
  "toy_aead = \<lparr>ae_encrypt = (\<lambda>k n a m. Some (map (\<lambda>b. b XOR 0x5A) m @ replicate 16 0)),
     ae_decrypt = (\<lambda>k n a s. Some (map (\<lambda>b. b XOR 0x5A) (take (length s - 16) s)))\<rparr>"

definition toy_cipher :: "block_cipher \<times> (nat \<Rightarrow> byte list)" where
  "toy_cipher = (\<lparr>bc_aead = toy_aead, bc_key = [1], bc_key_id = ''k''\<rparr>, \<lambda>i. replicate 24 (of_nat i))"

theorem frame_roundtrip_witness:
  "\<exists>fc. frame_column_sealed [1, 2, 3] 2 (Some toy_cipher) ''p'' ''c'' = Inr fc \<and>
     map (\<lambda>n. read_block_sealed (drop (unat (file_offset (fc_blocks fc ! n))) (fc_file fc)) n
       (fc_blocks fc ! n) ''c'' ''p'' 2 (map_option fst (Some toy_cipher))) [0..<length (fc_blocks fc)] =
     map Inr [[1, 2], [3]]"
proof -
  obtain fc where fc: "frame_column_sealed [1, 2, 3] 2 (Some toy_cipher) ''p'' ''c'' = Inr fc"
    "length (fc_file fc) < 2 ^ 64" "length (fc_blocks fc) \<le> 2 ^ 32"
    by (simp add: frame_column_sealed_def column_chunks_def toy_cipher_def store_block_def seal_def toy_aead_def)
  have "cipher_ok (Some toy_cipher)"
    by (simp add: cipher_ok_def aead_ok_def toy_cipher_def toy_aead_def TAG_BYTES_def NONCE_BYTES_def comp_def xor.assoc)
  from frame_roundtrip [OF fc(1) this] fc show ?thesis
    by (auto simp: SEAL_OVERHEAD_def NONCE_BYTES_def TAG_BYTES_def column_chunks_def)
qed

text \<open>
  Ciphertext is never returned as data: a block framed under a cipher and read without a key is
  refused by policy, whatever the manifest says about it, and a plaintext block read with a
  key is refused as corrupt.
\<close>

lemma sealed_block_needs_key:
  "read_block_sealed (frame_head True n (unat bs) stored @ tail) i e col part bs None =
     Inl (Policy ''sealed block and no key'') \<and>
   read_block_sealed (frame_head False n (unat bs) stored @ tail) i e col part bs (Some bc) =
     Inl (Corrupt ''block is not sealed'')"
proof -
  have "rd_u32 (cursor_new (frame_head s n (unat bs) stored @ tail)) =
      Inr (skip 4 (cursor_new (frame_head s n (unat bs) stored @ tail)), if s then SEALED_BLOCK_MAGIC else BLOCK_MAGIC)" for s
    by (simp add: rd_u32_Inr frame_head_def)
  from this [of True] this [of False] show ?thesis
    by (simp add: read_block_sealed_def SEALED_BLOCK_MAGIC_def BLOCK_MAGIC_def)
qed

end
