(* ===== verification/PartExt.thy ===== *)
theory PartExt
  imports Partitions PartFormat Limits
begin

unbundle bit_operations_syntax

text \<open>
  The manifest extensions (\<open>prism-part/src/ext.rs\<close>): the encryption envelope, lineage and
  retention, and the partition section with per-tenant statistics and promoted columns. Each is
  an encoder and a decoder over the wire reader; the codec locale gives their round trips.
\<close>

definition EXT_REQUIRED :: u16 where "EXT_REQUIRED = 0x8000"
definition EXT_S4_PARTITION :: u16 where "EXT_S4_PARTITION = 0x8001 OR EXT_REQUIRED"
definition EXT_S5_LINEAGE :: u16 where "EXT_S5_LINEAGE = 0x8002 OR EXT_REQUIRED"
definition EXT_S14_ENCRYPTION :: u16 where "EXT_S14_ENCRYPTION = 0x8003 OR EXT_REQUIRED"
definition MAX_WRAPPED_DEK_BYTES :: nat where "MAX_WRAPPED_DEK_BYTES = 4096"
definition MAX_TENANTS_PER_PART :: nat where "MAX_TENANTS_PER_PART = 4096"

section \<open>The encryption envelope\<close>

record s14_ext =
  s14_algorithm :: u16
  s14_wrapping_key_id :: string
  s14_dek_epoch :: u64
  s14_wrapped_dek :: "byte list"
  s14_bucket_ordinal :: u64

definition s14_encode :: "s14_ext \<Rightarrow> byte list" where
  "s14_encode e = wr_u16 (s14_algorithm e) @ wr_string (s14_wrapping_key_id e) @ wr_u64 (s14_dek_epoch e) @
     wr_u32 (of_nat (length (s14_wrapped_dek e))) @ s14_wrapped_dek e @ wr_u64 (s14_bucket_ordinal e)"

definition s14_read :: "s14_ext reader" where
  "s14_read = cbind rd_u16 (\<lambda>a. cbind rd_string (\<lambda>k. cbind rd_u64 (\<lambda>ep. cbind rd_u32 (\<lambda>len.
     if unat len > MAX_WRAPPED_DEK_BYTES then cfail (Corrupt ''wrapped DEK over the bound'')
     else cbind (take_bytes (unat len)) (\<lambda>d. cbind rd_u64 (\<lambda>b.
       if k = [] then cfail (Corrupt ''names no wrapping key'')
       else if d = [] then cfail (Corrupt ''no wrapped DEK'')
       else creturn \<lparr>s14_algorithm = a, s14_wrapping_key_id = k, s14_dek_epoch = ep, s14_wrapped_dek = d,
         s14_bucket_ordinal = b\<rparr>))))))"

definition s14_decode :: "byte list \<Rightarrow> s14_ext res" where
  "s14_decode bytes = rbind (s14_read (cursor_new bytes)) (\<lambda>(_, e). Inr e)"

section \<open>Lineage and retention\<close>

record s5_ext =
  s5_reembedded_from :: "string option"
  s5_bodies_redacted :: bool
  s5_redacted_at_ms :: i64
  s5_redaction_reason :: string

definition s5_default :: s5_ext where
  "s5_default = \<lparr>s5_reembedded_from = None, s5_bodies_redacted = False, s5_redacted_at_ms = 0, s5_redaction_reason = []\<rparr>"

definition s5_encode :: "s5_ext \<Rightarrow> byte list" where
  "s5_encode e = (case s5_reembedded_from e of None \<Rightarrow> wr_u8 0 | Some g \<Rightarrow> wr_u8 1 @ wr_string g) @
     wr_u8 (of_bool (s5_bodies_redacted e)) @ wr_i64 (s5_redacted_at_ms e) @ wr_string (s5_redaction_reason e)"

definition rd_opt :: "'a reader \<Rightarrow> 'a option reader" where
  "rd_opt r = cbind rd_u8 (\<lambda>b. if b = 1 then cbind r (\<lambda>x. creturn (Some x)) else creturn None)"

definition s5_read :: "s5_ext reader" where
  "s5_read = cbind (rd_opt rd_string) (\<lambda>g. cbind rd_u8 (\<lambda>b. cbind rd_i64 (\<lambda>t. cbind rd_string (\<lambda>r.
     if b \<noteq> 0 \<and> r = [] then cfail (Corrupt ''redacted without a reason'')
     else creturn \<lparr>s5_reembedded_from = g, s5_bodies_redacted = (b \<noteq> 0), s5_redacted_at_ms = t, s5_redaction_reason = r\<rparr>))))"

definition s5_decode :: "byte list \<Rightarrow> s5_ext res" where
  "s5_decode bytes = rbind (s5_read (cursor_new bytes)) (\<lambda>(_, e). Inr e)"

section \<open>Partition metadata\<close>

record tenant_stats =
  ts_tenant :: string
  ts_rows :: nat
  ts_time_min :: i64
  ts_time_max :: i64
  ts_cost_min :: f64
  ts_cost_max :: f64
  ts_has_error :: bool
  ts_has_success :: bool
  ts_attribute_keys :: "string list"

definition has_key :: "tenant_stats \<Rightarrow> string \<Rightarrow> bool" where
  "has_key t k = list_ex (\<lambda>x. x = k) (ts_attribute_keys t)"

definition stats_may_match :: "tenant_stats \<Rightarrow> i64 option \<Rightarrow> i64 option \<Rightarrow> bool" where
  "stats_may_match t from until = in_window (ts_time_min t) (ts_time_max t) from until"

record promoted_column =
  pc_key :: string
  pc_column :: string
  pc_type_tag :: byte

definition column_for :: "string \<Rightarrow> string" where
  "column_for key = ''attr.'' @ key"

record s4_ext =
  s4_partition :: "partition_key option"
  s4_tenant_stats :: "tenant_stats list"
  s4_promoted :: "promoted_column list"

definition s4_default :: s4_ext where
  "s4_default = \<lparr>s4_partition = None, s4_tenant_stats = [], s4_promoted = []\<rparr>"

definition stats_for :: "s4_ext \<Rightarrow> string \<Rightarrow> tenant_stats option" where
  "stats_for e tenant = find (\<lambda>t. ts_tenant t = tenant) (s4_tenant_stats e)"

definition promoted_for :: "s4_ext \<Rightarrow> string \<Rightarrow> promoted_column option" where
  "promoted_for e key = find (\<lambda>p. pc_key p = key) (s4_promoted e)"

definition wr_bucket :: "bucket \<Rightarrow> byte list" where
  "wr_bucket b = (case b of Shared i \<Rightarrow> wr_u8 0 @ wr_u32 i | Dedicated i \<Rightarrow> wr_u8 1 @ wr_u32 i)"

definition wr_key :: "partition_key \<Rightarrow> byte list" where
  "wr_key p = wr_bucket (pk_bucket p) @ wr_i64 (pk_window p) @ wr_string (pk_generation p)"

definition flag_byte :: "bool \<Rightarrow> bool \<Rightarrow> byte" where
  "flag_byte e s = of_bool e OR push_bit 1 (of_bool s)"

definition wr_stats :: "tenant_stats \<Rightarrow> byte list" where
  "wr_stats t = wr_string (ts_tenant t) @ wr_u64 (of_nat (ts_rows t)) @ wr_i64 (ts_time_min t) @ wr_i64 (ts_time_max t) @
     wr_f64 (ts_cost_min t) @ wr_f64 (ts_cost_max t) @ wr_u8 (flag_byte (ts_has_error t) (ts_has_success t)) @
     wr_len (length (ts_attribute_keys t)) @ concat (map wr_string (ts_attribute_keys t))"

definition wr_promoted :: "promoted_column \<Rightarrow> byte list" where
  "wr_promoted p = wr_string (pc_key p) @ wr_string (pc_column p) @ wr_u8 (pc_type_tag p)"

definition s4_encode :: "s4_ext \<Rightarrow> byte list" where
  "s4_encode e = (case s4_partition e of None \<Rightarrow> wr_u8 0 | Some p \<Rightarrow> wr_u8 1 @ wr_key p) @
     wr_len (length (s4_tenant_stats e)) @ concat (map wr_stats (s4_tenant_stats e)) @
     wr_len (length (s4_promoted e)) @ concat (map wr_promoted (s4_promoted e))"

definition rd_bucket :: "bucket reader" where
  "rd_bucket = cbind rd_u8 (\<lambda>k.
     if k = 0 then cbind rd_u32 (\<lambda>i. creturn (Shared i))
     else if k = 1 then cbind rd_u32 (\<lambda>i. creturn (Dedicated i))
     else cfail (Corrupt ''unknown bucket kind''))"

definition rd_key :: "partition_key reader" where
  "rd_key = cbind rd_bucket (\<lambda>b. cbind rd_i64 (\<lambda>w. cbind rd_string (\<lambda>g.
     creturn \<lparr>pk_bucket = b, pk_window = w, pk_generation = g\<rparr>)))"

definition rd_stats :: "tenant_stats reader" where
  "rd_stats = cbind rd_string (\<lambda>t. cbind rd_u64 (\<lambda>n. cbind rd_i64 (\<lambda>lo. cbind rd_i64 (\<lambda>hi.
     cbind rd_f64 (\<lambda>cl. cbind rd_f64 (\<lambda>ch. cbind rd_u8 (\<lambda>fl. cbind (read_len 4) (\<lambda>nk.
     if nk > MAX_ATTRIBUTE_KEY_CARDINALITY then cfail (Corrupt ''too many attribute keys'')
     else cbind (rd_many nk rd_string) (\<lambda>ks.
       if lo > hi then cfail (Corrupt ''time_min over time_max'')
       else creturn \<lparr>ts_tenant = t, ts_rows = unat n, ts_time_min = lo, ts_time_max = hi, ts_cost_min = cl,
         ts_cost_max = ch, ts_has_error = (fl AND 1 \<noteq> 0), ts_has_success = (fl AND 2 \<noteq> 0),
         ts_attribute_keys = ks\<rparr>)))))))))"

definition rd_promoted :: "promoted_column reader" where
  "rd_promoted = cbind rd_string (\<lambda>k. cbind rd_string (\<lambda>c. cbind rd_u8 (\<lambda>t.
     creturn \<lparr>pc_key = k, pc_column = c, pc_type_tag = t\<rparr>)))"

definition s4_read :: "s4_ext reader" where
  "s4_read = cbind (rd_opt rd_key) (\<lambda>p. cbind (read_len 49) (\<lambda>nt.
     if nt > MAX_TENANTS_PER_PART then cfail (Corrupt ''too many tenant sections'')
     else cbind (rd_many nt rd_stats) (\<lambda>ts. cbind (read_len 9) (\<lambda>np. cbind (rd_many np rd_promoted) (\<lambda>ps.
       creturn \<lparr>s4_partition = p, s4_tenant_stats = ts, s4_promoted = ps\<rparr>)))))"

definition s4_decode :: "byte list \<Rightarrow> s4_ext res" where
  "s4_decode bytes = rbind (s4_read (cursor_new bytes)) (\<lambda>(_, e). Inr e)"

section \<open>Round trips\<close>

definition s14_ok :: "s14_ext \<Rightarrow> bool" where
  "s14_ok e \<longleftrightarrow> string_ok (s14_wrapping_key_id e) \<and> s14_wrapping_key_id e \<noteq> [] \<and>
     s14_wrapped_dek e \<noteq> [] \<and> length (s14_wrapped_dek e) \<le> MAX_WRAPPED_DEK_BYTES"

definition s5_ok :: "s5_ext \<Rightarrow> bool" where
  "s5_ok e \<longleftrightarrow> pred_option string_ok (s5_reembedded_from e) \<and> i64_range (s5_redacted_at_ms e) \<and>
     string_ok (s5_redaction_reason e) \<and> (s5_bodies_redacted e \<longrightarrow> s5_redaction_reason e \<noteq> [])"

definition key_ok :: "partition_key \<Rightarrow> bool" where
  "key_ok p \<longleftrightarrow> i64_range (pk_window p) \<and> string_ok (pk_generation p)"

definition stats_ok :: "tenant_stats \<Rightarrow> bool" where
  "stats_ok t \<longleftrightarrow> string_ok (ts_tenant t) \<and> ts_rows t < 2 ^ 64 \<and> i64_range (ts_time_min t) \<and> i64_range (ts_time_max t) \<and>
     ts_time_min t \<le> ts_time_max t \<and> f64_is_finite (ts_cost_min t) \<and> f64_is_finite (ts_cost_max t) \<and>
     list_all string_ok (ts_attribute_keys t) \<and> length (ts_attribute_keys t) \<le> MAX_ATTRIBUTE_KEY_CARDINALITY"

definition promoted_ok :: "promoted_column \<Rightarrow> bool" where
  "promoted_ok p \<longleftrightarrow> string_ok (pc_key p) \<and> string_ok (pc_column p)"

definition s4_ok :: "s4_ext \<Rightarrow> bool" where
  "s4_ok e \<longleftrightarrow> pred_option key_ok (s4_partition e) \<and> list_all stats_ok (s4_tenant_stats e) \<and>
     length (s4_tenant_stats e) \<le> MAX_TENANTS_PER_PART \<and> list_all promoted_ok (s4_promoted e) \<and> length (s4_promoted e) < 2 ^ 32"

lemma reads_s14: "s14_ok e \<Longrightarrow> reads s14_read (s14_encode e) e"
  unfolding s14_read_def s14_encode_def
  by (intro reads_intros) (auto simp: s14_ok_def MAX_WRAPPED_DEK_BYTES_def unat_of_nat)

lemma reads_opt:
  assumes "\<And>x. v = Some x \<Longrightarrow> reads r (enc x) x"
  shows "reads (rd_opt r) (case v of None \<Rightarrow> wr_u8 0 | Some x \<Rightarrow> wr_u8 1 @ enc x) v"
  unfolding rd_opt_def
  by (cases v) (auto intro!: reads_intros reads_last [OF assms])

lemma reads_s5: "s5_ok e \<Longrightarrow> reads s5_read (s5_encode e) e"
  unfolding s5_read_def s5_encode_def
  by (intro reads_intros reads_bind [OF reads_opt] reads_string) (auto simp: s5_ok_def)

lemma reads_bucket: "reads rd_bucket (wr_bucket b) b"
  unfolding rd_bucket_def wr_bucket_def by (cases b) (auto intro!: reads_intros)

lemma reads_key: "key_ok p \<Longrightarrow> reads rd_key (wr_key p) p"
  unfolding rd_key_def wr_key_def
  by (intro reads_intros reads_bind [OF reads_bucket]) (auto simp: key_ok_def)

lemma flag_byte_bits: "(flag_byte e s AND 1 \<noteq> 0) = e" "(flag_byte e s AND 2 \<noteq> 0) = s"
  by (cases e; cases s; simp add: flag_byte_def)+

lemma reads_stats: "stats_ok t \<Longrightarrow> reads rd_stats (wr_stats t) t"
  unfolding rd_stats_def wr_stats_def
  by (intro reads_intros str.reads_guarded_last)
    (auto simp: stats_ok_def MAX_ATTRIBUTE_KEY_CARDINALITY_def flag_byte_bits unat_of_nat)

interpretation stats: codec wr_stats rd_stats stats_ok 49
  by unfold_locales (erule reads_stats, simp add: wr_stats_def)

lemma reads_promoted: "promoted_ok p \<Longrightarrow> reads rd_promoted (wr_promoted p) p"
  unfolding rd_promoted_def wr_promoted_def by (intro reads_intros) (auto simp: promoted_ok_def)

interpretation promo: codec wr_promoted rd_promoted promoted_ok 9
  by unfold_locales (erule reads_promoted, simp add: wr_promoted_def)

lemma reads_s4: "s4_ok e \<Longrightarrow> reads s4_read (s4_encode e) e"
  unfolding s4_read_def s4_encode_def
  by (intro reads_intros reads_bind [OF reads_opt] reads_key stats.reads_guarded promo.reads_counted_last)
    (auto simp: s4_ok_def MAX_TENANTS_PER_PART_def)

lemma decode_of_reads: "reads r bs x \<Longrightarrow> rbind (r (cursor_new bs)) (\<lambda>(_, e). Inr e) = Inr x"
  by (simp add: reads_def)

text \<open>
  C31. The manifest extensions survive encoding: the encryption envelope, lineage and partition
  sections decode to what was encoded, for every section within the declared bounds.
\<close>

theorem extensions_roundtrip:
  "(s14_ok a \<longrightarrow> s14_decode (s14_encode a) = Inr a) \<and> (s5_ok b \<longrightarrow> s5_decode (s5_encode b) = Inr b) \<and>
   (s4_ok c \<longrightarrow> s4_decode (s4_encode c) = Inr c)"
  by (simp add: s14_decode_def s5_decode_def s4_decode_def decode_of_reads reads_s14 reads_s5 reads_s4)

definition sample_s14 :: s14_ext where
  "sample_s14 = \<lparr>s14_algorithm = 1, s14_wrapping_key_id = ''key-a'', s14_dek_epoch = 3, s14_wrapped_dek = [9, 8],
     s14_bucket_ordinal = 5\<rparr>"

definition sample_s5 :: s5_ext where
  "sample_s5 = \<lparr>s5_reembedded_from = Some ''g1'', s5_bodies_redacted = True, s5_redacted_at_ms = 77,
     s5_redaction_reason = ''ttl''\<rparr>"

definition sample_s4 :: s4_ext where
  "sample_s4 = \<lparr>s4_partition = Some \<lparr>pk_bucket = Shared 3, pk_window = -86400000, pk_generation = ''g1''\<rparr>,
     s4_tenant_stats = [\<lparr>ts_tenant = ''acme'', ts_rows = 2, ts_time_min = 1, ts_time_max = 9, ts_cost_min = 0,
       ts_cost_max = 0, ts_has_error = True, ts_has_success = False, ts_attribute_keys = [''k'']\<rparr>],
     s4_promoted = [\<lparr>pc_key = ''k'', pc_column = ''attr.k'', pc_type_tag = 1\<rparr>]\<rparr>"

lemma unat_of_char_byte: "unat (of_char c :: byte) = of_char c"
proof -
  have "of_char c < (256 :: nat)" by (simp add: of_char_def)
  then have "unat (of_nat (of_char c) :: byte) = of_char c" by (simp add: unat_of_nat)
  then show ?thesis by (simp only: of_nat_of_char)
qed

lemma ascii_string_ok: "length s < 2 ^ 32 \<Longrightarrow> list_all (\<lambda>c. of_char c < (0x80 :: nat)) s \<Longrightarrow> string_ok s"
proof -
  assume a: "length s < 2 ^ 32" "list_all (\<lambda>c. of_char c < (0x80 :: nat)) s"
  have "valid_utf8 (as_bytes s)"
    using a(2) by (induction s) (auto simp: as_bytes_def in_range_def unat_of_char_byte)
  then show ?thesis using a(1) by (simp add: string_ok_def)
qed

theorem extensions_roundtrip_witness:
  "s14_decode (s14_encode sample_s14) = Inr sample_s14 \<and> s5_decode (s5_encode sample_s5) = Inr sample_s5 \<and>
   s4_decode (s4_encode sample_s4) = Inr sample_s4"
proof -
  have "s14_ok sample_s14"
    by (simp add: s14_ok_def sample_s14_def ascii_string_ok MAX_WRAPPED_DEK_BYTES_def)
  moreover have "s5_ok sample_s5" by (simp add: s5_ok_def sample_s5_def ascii_string_ok i64_range_def)
  moreover have "s4_ok sample_s4"
    by (simp add: s4_ok_def sample_s4_def ascii_string_ok i64_range_def key_ok_def stats_ok_def promoted_ok_def
        MAX_TENANTS_PER_PART_def MAX_ATTRIBUTE_KEY_CARDINALITY_def f64_is_finite_def f64_mag_def f64_inf_mag_def)
  ultimately show ?thesis using extensions_roundtrip by blast
qed

end
