(* ===== verification/Manifest.thy ===== *)
theory Manifest
  imports PartExt
begin

unbundle bit_operations_syntax

text \<open>
  The part manifest (\<open>PartManifest\<close> in \<open>prism-part/src/part.rs\<close>): its record, the binary encoding
  and the decoder that dispatches on the format version, the structural validation which runs on
  every open, and the pruning test.
\<close>

section \<open>Data\<close>

record centroid_range =
  cr_centroid :: u32
  cr_first_row :: nat
  cr_row_count :: nat
  cr_pq_offset :: u64
  cr_pq_len :: nat
  cr_rerank_offset :: u64
  cr_rerank_len :: nat
  cr_time_min :: i64
  cr_time_max :: i64

datatype column_storage =
    Unframed nat u32
  | Framed u64 u32 "block_ref list"

fun logical_bytes :: "column_storage \<Rightarrow> u64" where
  "logical_bytes (Unframed n _) = of_nat n"
| "logical_bytes (Framed n _ _) = n"

fun storage_block_size :: "column_storage \<Rightarrow> u32" where
  "storage_block_size (Unframed _ _) = BLOCK_SIZE"
| "storage_block_size (Framed _ bs _) = bs"

record column_meta =
  cm_name :: string
  cm_file :: string
  cm_codec_id :: u16
  cm_storage :: column_storage

record extension =
  ext_id :: u16
  ext_bytes :: "byte list"

definition ext_is_required :: "extension \<Rightarrow> bool" where
  "ext_is_required e \<longleftrightarrow> ext_id e AND EXT_REQUIRED \<noteq> 0"

definition SUPPORTED_EXTENSIONS :: "u16 list" where
  "SUPPORTED_EXTENSIONS = [EXT_S4_PARTITION, EXT_S5_LINEAGE, EXT_S14_ENCRYPTION]"

record part_manifest =
  m_format_version :: u32
  m_part_id :: string
  m_generation_id :: string
  m_model_id :: string
  m_model_version :: string
  m_row_count :: nat
  m_dim :: nat
  m_pq_m :: nat
  m_rerank :: rerank_descriptor
  m_time_min :: i64
  m_time_max :: i64
  m_tenants :: "string list"
  m_cost_min :: f64
  m_cost_max :: f64
  m_has_error :: bool
  m_has_success :: bool
  m_centroid_ranges :: "centroid_range list"
  m_columns :: "column_meta list"
  m_created_at_ms :: i64
  m_feature_flags :: u64
  m_attribute_keys :: "string list"
  m_extensions :: "extension list"
  m_reserved :: "u64 list"

section \<open>Lookups and pruning\<close>

definition m_column :: "part_manifest \<Rightarrow> string \<Rightarrow> column_meta res" where
  "m_column m name = (case find (\<lambda>c. cm_name c = name) (m_columns m) of
       None \<Rightarrow> Inl (Corrupt ''no such column'') | Some c \<Rightarrow> Inr c)"

definition m_may_match :: "part_manifest \<Rightarrow> string option \<Rightarrow> i64 option \<Rightarrow> i64 option \<Rightarrow> byte list option \<Rightarrow> bool" where
  "m_may_match m tenant from until tokenizer =
     (if (case tenant of Some t \<Rightarrow> \<not> handle_matches (m_tenants m) t tokenizer | None \<Rightarrow> False) then False
      else in_window (m_time_min m) (m_time_max m) from until)"

definition has_column :: "part_manifest \<Rightarrow> string \<Rightarrow> bool" where
  "has_column m name = list_ex (\<lambda>c. cm_name c = name) (m_columns m)"

definition has_attributes :: "part_manifest \<Rightarrow> bool" where
  "has_attributes m \<longleftrightarrow> m_feature_flags m AND FEATURE_ATTRIBUTES \<noteq> 0 \<and> has_column m ''attributes.data''"

definition has_trace_context :: "part_manifest \<Rightarrow> bool" where
  "has_trace_context m \<longleftrightarrow> m_feature_flags m AND FEATURE_TRACE_CONTEXT \<noteq> 0 \<and> has_column m ''trace_id.data''"

definition m_s5 :: "part_manifest \<Rightarrow> s5_ext res" where
  "m_s5 m = (case find (\<lambda>e. ext_id e = EXT_S5_LINEAGE) (m_extensions m) of
       Some e \<Rightarrow> s5_decode (ext_bytes e) | None \<Rightarrow> Inr s5_default)"

definition m_s4 :: "part_manifest \<Rightarrow> s4_ext res" where
  "m_s4 m = (case find (\<lambda>e. ext_id e = EXT_S4_PARTITION) (m_extensions m) of
       Some e \<Rightarrow> s4_decode (ext_bytes e) | None \<Rightarrow> Inr s4_default)"

section \<open>Encoding\<close>

definition wr_range :: "centroid_range \<Rightarrow> byte list" where
  "wr_range r = wr_u32 (cr_centroid r) @ wr_u64 (of_nat (cr_first_row r)) @ wr_u64 (of_nat (cr_row_count r)) @
     wr_u64 (cr_pq_offset r) @ wr_u64 (of_nat (cr_pq_len r)) @ wr_u64 (cr_rerank_offset r) @
     wr_u64 (of_nat (cr_rerank_len r)) @ wr_i64 (cr_time_min r) @ wr_i64 (cr_time_max r)"

definition wr_block_ref :: "block_ref \<Rightarrow> byte list" where
  "wr_block_ref b = wr_u64 (file_offset b) @ wr_u32 (payload_len b) @ wr_u32 (b_crc32 b)"

definition wr_column :: "column_meta \<Rightarrow> byte list" where
  "wr_column c = wr_string (cm_name c) @ wr_string (cm_file c) @ wr_u16 (cm_codec_id c) @
     (case cm_storage c of
        Framed n bs blocks \<Rightarrow> wr_u64 n @ wr_u32 bs @ wr_len (length blocks) @ concat (map wr_block_ref blocks)
      | Unframed _ _ \<Rightarrow> [])"

definition is_framed :: "column_meta \<Rightarrow> bool" where
  "is_framed c = (case cm_storage c of Framed _ _ _ \<Rightarrow> True | Unframed _ _ \<Rightarrow> False)"

definition wr_extension :: "extension \<Rightarrow> byte list" where
  "wr_extension e = wr_u16 (ext_id e) @ wr_len (length (ext_bytes e)) @ ext_bytes e"

definition manifest_body :: "part_manifest \<Rightarrow> byte list" where
  "manifest_body m =
     wr_string (m_part_id m) @ wr_string (m_generation_id m) @ wr_string (m_model_id m) @ wr_string (m_model_version m) @
     wr_u64 (of_nat (m_row_count m)) @ wr_u32 (of_nat (m_dim m)) @ wr_u32 (of_nat (m_pq_m m)) @
     wr_u16 (encoding_id (m_rerank m)) @ wr_u16 (accuracy_contract_id (m_rerank m)) @
     wr_i64 (m_time_min m) @ wr_i64 (m_time_max m) @ wr_f64 (m_cost_min m) @ wr_f64 (m_cost_max m) @
     wr_u8 (flag_byte (m_has_error m) (m_has_success m)) @ wr_i64 (m_created_at_ms m) @
     wr_len (length (m_tenants m)) @ concat (map wr_string (m_tenants m)) @
     wr_len (length (m_centroid_ranges m)) @ concat (map wr_range (m_centroid_ranges m)) @
     wr_len (length (m_columns m)) @ concat (map wr_column (m_columns m)) @
     wr_len (length (m_attribute_keys m)) @ concat (map wr_string (m_attribute_keys m)) @
     concat (map wr_u64 (m_reserved m)) @
     wr_len (length (m_extensions m)) @ concat (map wr_extension (m_extensions m))"

definition manifest_encode :: "part_manifest \<Rightarrow> byte list res" where
  "manifest_encode m =
     (if \<not> list_all is_framed (m_columns m) then Inl (Invariant ''refusing to write an unframed column'')
      else let body = manifest_body m in
        Inr (header_encode \<lparr>h_format_version = FORMAT_VERSION, h_byte_order = BYTE_ORDER_LITTLE,
          h_feature_flags = m_feature_flags m, h_body_len = of_nat (length body), h_body_crc32 = crc32 body\<rparr> @ body))"

section \<open>Decoding\<close>

definition rd_range :: "centroid_range reader" where
  "rd_range = cbind rd_u32 (\<lambda>c. cbind rd_u64 (\<lambda>f. cbind rd_u64 (\<lambda>n. cbind rd_u64 (\<lambda>po. cbind rd_u64 (\<lambda>pl.
     cbind rd_u64 (\<lambda>ro. cbind rd_u64 (\<lambda>rl. cbind rd_i64 (\<lambda>lo. cbind rd_i64 (\<lambda>hi.
       creturn \<lparr>cr_centroid = c, cr_first_row = unat f, cr_row_count = unat n, cr_pq_offset = po, cr_pq_len = unat pl,
         cr_rerank_offset = ro, cr_rerank_len = unat rl, cr_time_min = lo, cr_time_max = hi\<rparr>)))))))))"

definition rd_block_ref :: "block_ref reader" where
  "rd_block_ref = cbind rd_u64 (\<lambda>fo. cbind rd_u32 (\<lambda>l. cbind rd_u32 (\<lambda>k.
     creturn \<lparr>file_offset = fo, payload_len = l, b_crc32 = k\<rparr>)))"

definition is_power_of_two :: "u32 \<Rightarrow> bool" where
  "is_power_of_two w = list_ex (\<lambda>k. unat w = 2 ^ k) [0..<32]"

definition rd_column :: "u32 \<Rightarrow> column_meta reader" where
  "rd_column version = cbind rd_string (\<lambda>name. cbind rd_string (\<lambda>file. cbind rd_u16 (\<lambda>codec. cbind rd_u64 (\<lambda>n.
     cbind (if 3 \<le> version then rd_u32 else creturn BLOCK_SIZE) (\<lambda>bs.
     if bs = 0 \<or> \<not> is_power_of_two bs then cfail (Corrupt ''block size'')
     else cbind (read_len 16) (\<lambda>nb. cbind (rd_many nb rd_block_ref) (\<lambda>blocks.
       creturn \<lparr>cm_name = name, cm_file = file, cm_codec_id = codec, cm_storage = Framed n bs blocks\<rparr>)))))))"

definition rd_extension :: "extension reader" where
  "rd_extension = cbind rd_u16 (\<lambda>i. cbind (read_len 1) (\<lambda>n. cbind (rd_many n rd_u8) (\<lambda>bytes.
     let e = \<lparr>ext_id = i, ext_bytes = bytes\<rparr> in
     if ext_is_required e \<and> i \<notin> set SUPPORTED_EXTENSIONS then cfail (Corrupt ''unknown required extension'')
     else creturn e)))"

definition rd_v3 :: "(string list \<times> u64 list \<times> extension list) reader" where
  "rd_v3 = cbind (read_len 4) (\<lambda>nk. if nk > MAX_ATTRIBUTE_KEY_CARDINALITY then cfail (Corrupt ''attribute keys'')
     else cbind (rd_many nk rd_string) (\<lambda>keys. cbind (rd_many RESERVED_WORDS rd_u64) (\<lambda>reserved.
       if list_ex (\<lambda>w. w \<noteq> 0) reserved then cfail (Corrupt ''reserved word'')
       else cbind (read_len 6) (\<lambda>ne. cbind (rd_many ne rd_extension) (\<lambda>exts.
         creturn (keys, reserved, exts))))))"

definition rd_manifest :: "header \<Rightarrow> part_manifest reader" where
  "rd_manifest h =
     cbind rd_string (\<lambda>part_id. cbind rd_string (\<lambda>generation_id. cbind rd_string (\<lambda>model_id. cbind rd_string (\<lambda>model_version.
     cbind rd_u64 (\<lambda>row_count. cbind rd_u32 (\<lambda>dm. cbind rd_u32 (\<lambda>pq_m. cbind rd_u16 (\<lambda>enc. cbind rd_u16 (\<lambda>contract.
     cbind rd_i64 (\<lambda>time_min. cbind rd_i64 (\<lambda>time_max. cbind rd_f64 (\<lambda>cost_min. cbind rd_f64 (\<lambda>cost_max.
     cbind rd_u8 (\<lambda>flags. cbind rd_i64 (\<lambda>created_at_ms.
     cbind (read_len 4) (\<lambda>nt. cbind (rd_many nt rd_string) (\<lambda>tenants.
     cbind (read_len 68) (\<lambda>nr. cbind (rd_many nr rd_range) (\<lambda>ranges.
     cbind (read_len (4 + 4 + 2 + 8 + 4)) (\<lambda>nc. cbind (rd_many nc (rd_column (h_format_version h))) (\<lambda>cols.
     cbind (if 3 \<le> h_format_version h then rd_v3 else creturn ([], replicate RESERVED_WORDS 0, [])) (\<lambda>(keys, reserved, exts).
       creturn \<lparr>m_format_version = h_format_version h, m_part_id = part_id, m_generation_id = generation_id,
         m_model_id = model_id, m_model_version = model_version, m_row_count = unat row_count, m_dim = unat dm,
         m_pq_m = unat pq_m, m_rerank = \<lparr>encoding_id = enc, accuracy_contract_id = contract\<rparr>,
         m_time_min = time_min, m_time_max = time_max, m_tenants = tenants, m_cost_min = cost_min,
         m_cost_max = cost_max, m_has_error = (flags AND 1 \<noteq> 0), m_has_success = (flags AND 2 \<noteq> 0),
         m_centroid_ranges = ranges, m_columns = cols, m_created_at_ms = created_at_ms,
         m_feature_flags = h_feature_flags h, m_attribute_keys = keys, m_extensions = exts,
         m_reserved = reserved\<rparr>))))))))))))))))))))))"

definition manifest_decode :: "byte list \<Rightarrow> part_manifest res" where
  "manifest_decode bytes = rbind (split_manifest bytes) (\<lambda>(h, body).
     rbind (rd_manifest h (cursor_new body)) (\<lambda>(_, m). Inr m))"

section \<open>The round trip\<close>

definition range_ok :: "centroid_range \<Rightarrow> bool" where
  "range_ok r \<longleftrightarrow> cr_first_row r < 2 ^ 64 \<and> cr_row_count r < 2 ^ 64 \<and> cr_pq_len r < 2 ^ 64 \<and>
     cr_rerank_len r < 2 ^ 64 \<and> i64_range (cr_time_min r) \<and> i64_range (cr_time_max r)"

definition column_ok :: "column_meta \<Rightarrow> bool" where
  "column_ok c \<longleftrightarrow> string_ok (cm_name c) \<and> string_ok (cm_file c) \<and>
     (case cm_storage c of Framed _ bs blocks \<Rightarrow> bs \<noteq> 0 \<and> is_power_of_two bs \<and> length blocks < 2 ^ 32
        | Unframed _ _ \<Rightarrow> False)"

definition extension_ok :: "extension \<Rightarrow> bool" where
  "extension_ok e \<longleftrightarrow> length (ext_bytes e) < 2 ^ 32 \<and> (ext_is_required e \<longrightarrow> ext_id e \<in> set SUPPORTED_EXTENSIONS)"

definition manifest_ok :: "part_manifest \<Rightarrow> bool" where
  "manifest_ok m \<longleftrightarrow> m_format_version m = FORMAT_VERSION \<and> string_ok (m_part_id m) \<and> string_ok (m_generation_id m) \<and>
     string_ok (m_model_id m) \<and> string_ok (m_model_version m) \<and> m_row_count m < 2 ^ 64 \<and> m_dim m < 2 ^ 32 \<and>
     m_pq_m m < 2 ^ 32 \<and> i64_range (m_time_min m) \<and> i64_range (m_time_max m) \<and> f64_is_finite (m_cost_min m) \<and>
     f64_is_finite (m_cost_max m) \<and> i64_range (m_created_at_ms m) \<and> list_all string_ok (m_tenants m) \<and>
     length (m_tenants m) < 2 ^ 32 \<and> list_all range_ok (m_centroid_ranges m) \<and> length (m_centroid_ranges m) < 2 ^ 32 \<and>
     list_all column_ok (m_columns m) \<and> length (m_columns m) < 2 ^ 32 \<and> list_all string_ok (m_attribute_keys m) \<and>
     length (m_attribute_keys m) \<le> MAX_ATTRIBUTE_KEY_CARDINALITY \<and> m_reserved m = replicate RESERVED_WORDS 0 \<and>
     list_all extension_ok (m_extensions m) \<and> length (m_extensions m) < 2 ^ 32 \<and>
     m_feature_flags m AND NOT SUPPORTED_FEATURES = 0 \<and> m_feature_flags m AND FEATURE_BLOCK_FRAMING \<noteq> 0 \<and>
     length (manifest_body m) < 2 ^ 32"

lemma reads_range: "range_ok r \<Longrightarrow> reads rd_range (wr_range r) r"
  unfolding rd_range_def wr_range_def
  by (intro reads_intros) (auto simp: range_ok_def unat_of_nat)

interpretation rng: codec wr_range rd_range range_ok 68
  by unfold_locales (erule reads_range, simp add: wr_range_def)

interpretation blk: codec wr_block_ref rd_block_ref "\<lambda>_. True" 16
  by unfold_locales (auto simp: rd_block_ref_def wr_block_ref_def intro!: reads_intros)

lemma reads_column: "column_ok c \<Longrightarrow> reads (rd_column FORMAT_VERSION) (wr_column c) c"
proof (cases "cm_storage c")
  case (Framed n bs blocks)
  assume ok: "column_ok c"
  have v: "3 \<le> FORMAT_VERSION" by (simp add: FORMAT_VERSION_def)
  show ?thesis
    unfolding rd_column_def wr_column_def Framed if_P [OF v] column_storage.case
    by (intro reads_intros blk.reads_counted_last) (use ok Framed in \<open>auto simp: column_ok_def list_all_iff\<close>)
qed (simp add: column_ok_def)

interpretation clm: codec wr_column "rd_column FORMAT_VERSION" column_ok 22
proof unfold_locales
  fix c assume c: "column_ok c"
  then show "reads (rd_column FORMAT_VERSION) (wr_column c) c" by (rule reads_column)
  show "22 \<le> length (wr_column c)" using c by (auto simp: column_ok_def wr_column_def split: column_storage.splits)
qed

lemma reads_blob:
  assumes "length bs < 2 ^ 32" and "reads (f bs) [] y"
  shows "reads (cbind (read_len 1) (\<lambda>n. cbind (rd_many n rd_u8) f)) (wr_len (length bs) @ bs) y"
  using u8c.reads_counted_last [of bs f y] assms by (simp add: list_all_iff)

lemma reads_extension: "extension_ok e \<Longrightarrow> reads rd_extension (wr_extension e) e"
  unfolding rd_extension_def wr_extension_def Let_def
  by (intro reads_intros reads_blob) (auto simp: extension_ok_def ext_is_required_def)

interpretation extn: codec wr_extension rd_extension extension_ok 6
  by unfold_locales (erule reads_extension, simp add: wr_extension_def)

lemma reads_reserved: "reads (rd_many RESERVED_WORDS rd_u64) (concat (map wr_u64 (replicate RESERVED_WORDS 0))) (replicate RESERVED_WORDS 0)"
  using u64c.reads_many [of "replicate RESERVED_WORDS 0"] by (simp add: list_all_iff)

lemma reads_v3:
  assumes "manifest_ok m"
  shows "reads rd_v3 (wr_len (length (m_attribute_keys m)) @ concat (map wr_string (m_attribute_keys m)) @
     concat (map wr_u64 (m_reserved m)) @ wr_len (length (m_extensions m)) @ concat (map wr_extension (m_extensions m)))
     (m_attribute_keys m, m_reserved m, m_extensions m)"
proof -
  have r: "m_reserved m = replicate RESERVED_WORDS 0" using assms by (simp add: manifest_ok_def)
  show ?thesis
    unfolding rd_v3_def r
    by (intro reads_intros str.reads_guarded reads_bind [OF reads_reserved] extn.reads_counted_last)
      (use assms in \<open>auto simp: manifest_ok_def MAX_ATTRIBUTE_KEY_CARDINALITY_def list_ex_iff\<close>)
qed

lemma reads_manifest:
  assumes "manifest_ok m" and "h_format_version h = FORMAT_VERSION" and "h_feature_flags h = m_feature_flags m"
  shows "reads (rd_manifest h) (manifest_body m) m"
proof -
  have v: "3 \<le> FORMAT_VERSION" by (simp add: FORMAT_VERSION_def)
  have n: "(4 + 4 + 2 + 8 + 4 :: nat) = 22" by simp
  show ?thesis
    unfolding rd_manifest_def manifest_body_def assms(2) if_P [OF v] n
    by (intro reads_intros str.reads_counted rng.reads_counted clm.reads_counted reads_last [OF reads_v3 [OF assms(1)]])
      (use assms in \<open>auto simp: manifest_ok_def unat_of_nat flag_byte_bits intro!: reads_intros\<close>)
qed

lemma column_ok_framed: "column_ok c \<Longrightarrow> is_framed c"
  by (auto simp: column_ok_def is_framed_def split: column_storage.splits)

text \<open>
  C12. A manifest survives the disk: every manifest the writer may produce (current version, known
  features and required extensions, framed columns with power-of-two block sizes, lists and
  strings within the format's counts) encodes, and decoding the bytes returns the same manifest.
\<close>

theorem manifest_roundtrip:
  assumes "manifest_ok m"
  shows "\<exists>bytes. manifest_encode m = Inr bytes \<and> manifest_decode bytes = Inr m"
proof -
  let ?b = "manifest_body m"
  let ?h = "\<lparr>h_format_version = FORMAT_VERSION, h_byte_order = BYTE_ORDER_LITTLE, h_feature_flags = m_feature_flags m,
      h_body_len = of_nat (length ?b), h_body_crc32 = crc32 ?b\<rparr>"
  have framed: "list_all is_framed (m_columns m)"
    using assms column_ok_framed by (auto simp: manifest_ok_def list_all_iff)
  have "header_check ?h = Inr ?h"
    using assms by (simp add: header_check_def manifest_ok_def FORMAT_VERSION_def SUPPORTED_BINARY_VERSIONS_def)
  then have "seals_body ?h ?b" using assms by (simp add: seals_body_def manifest_ok_def unat_of_nat)
  then have s: "split_manifest (header_encode ?h @ ?b) = Inr (?h, ?b)"
    using split_manifest_file [of ?h ?b] by (simp add: manifest_file_def)
  have "rd_manifest ?h (cursor_new ?b) = Inr (skip (length ?b) (cursor_new ?b), m)"
    using reads_manifest [OF assms, of ?h] by (simp add: reads_def)
  then have "manifest_decode (header_encode ?h @ ?b) = Inr m" by (simp add: manifest_decode_def s)
  then show ?thesis using framed by (simp add: manifest_encode_def Let_def)
qed

definition sample_manifest :: part_manifest where
  "sample_manifest = \<lparr>m_format_version = 4, m_part_id = ''p1'', m_generation_id = ''g1'', m_model_id = ''hash'',
     m_model_version = ''1'', m_row_count = 2, m_dim = 4, m_pq_m = 2,
     m_rerank = \<lparr>encoding_id = 1, accuracy_contract_id = 1\<rparr>, m_time_min = 5, m_time_max = 9, m_tenants = [''acme''],
     m_cost_min = 0, m_cost_max = 0, m_has_error = False, m_has_success = True,
     m_centroid_ranges = [\<lparr>cr_centroid = 3, cr_first_row = 0, cr_row_count = 2, cr_pq_offset = 0, cr_pq_len = 4,
       cr_rerank_offset = 0, cr_rerank_len = 32, cr_time_min = 5, cr_time_max = 9\<rparr>],
     m_columns = [\<lparr>cm_name = ''error'', cm_file = ''error.col'', cm_codec_id = 1,
       cm_storage = Framed 2 16384 [\<lparr>file_offset = 0, payload_len = 2, b_crc32 = 7\<rparr>]\<rparr>],
     m_created_at_ms = 1, m_feature_flags = 1, m_attribute_keys = [''k''],
     m_extensions = [\<lparr>ext_id = EXT_S5_LINEAGE, ext_bytes = [0]\<rparr>], m_reserved = [0, 0, 0, 0]\<rparr>"

theorem manifest_roundtrip_witness:
  "\<exists>bytes. manifest_encode sample_manifest = Inr bytes \<and> manifest_decode bytes = Inr sample_manifest"
proof (rule manifest_roundtrip)
  have p: "is_power_of_two 16384" by (simp add: is_power_of_two_def upt_rec)
  have r: "replicate RESERVED_WORDS (0 :: u64) = [0, 0, 0, 0]" by (simp add: RESERVED_WORDS_def numeral_eq_Suc)
  have "length (manifest_body sample_manifest) < 2 ^ 32"
    by (simp add: manifest_body_def sample_manifest_def wr_column_def wr_range_def wr_extension_def wr_block_ref_def)
  then show "manifest_ok sample_manifest"
    using p r
    by (simp add: manifest_ok_def sample_manifest_def FORMAT_VERSION_def ascii_string_ok i64_range_def f64_is_finite_def f64_mag_def f64_inf_mag_def
        range_ok_def column_ok_def extension_ok_def SUPPORTED_EXTENSIONS_def MAX_ATTRIBUTE_KEY_CARDINALITY_def feature_defs)
qed

end
