(* ===== verification/Structure.thy ===== *)
theory Structure
  imports Manifest
begin

text \<open>
  \<open>PartManifest::validate_structure\<close> of \<open>prism-part/src/part.rs\<close>: the self-consistency check of a decoded
  manifest that runs on every open. Sums and products are those of a release build; decoding has
  already refused a block size that is not a power of two, so the ceiling division never divides by zero.
\<close>

section \<open>Structural validation\<close>

definition u64_sum :: "u64 list \<Rightarrow> u64" where
  "u64_sum xs = foldl (+) 0 xs"

definition usize_mul :: "nat \<Rightarrow> nat \<Rightarrow> nat" where
  "usize_mul a b = a * b mod 2 ^ 64"

definition validate_blocks :: "bool \<Rightarrow> u64 \<Rightarrow> u32 \<Rightarrow> block_ref list \<Rightarrow> unit res" where
  "validate_blocks encrypted logical bs blocks =
     (let seal_overhead = (if encrypted then of_nat (usize_mul (length blocks) SEAL_OVERHEAD) else 0) :: u64;
          covered = u64_sum (map (\<lambda>b. ucast (payload_len b)) blocks);
          expected_blocks = (if logical = 0 then 1 else (unat logical + unat bs - 1) div unat bs);
          full = bs + (if 0 < seal_overhead then of_nat SEAL_OVERHEAD else 0) in
      if covered \<noteq> logical + seal_overhead then Inl (Corrupt ''blocks do not cover the column'')
      else if length blocks \<noteq> expected_blocks then Inl (Corrupt ''wrong number of blocks'')
      else check_all (\<lambda>i.
         if i + 1 \<noteq> length blocks \<and> payload_len (blocks ! i) \<noteq> full then Inl (Corrupt ''short block'')
         else if full < payload_len (blocks ! i) then Inl (Corrupt ''block over the block size'')
         else Inr ()) [0..<length blocks])"

definition validate_column :: "part_manifest \<Rightarrow> column_meta \<Rightarrow> unit res" where
  "validate_column m c =
     (if cm_codec_id c \<noteq> CODEC_RAW then Inl (Corrupt ''unknown codec'')
      else case cm_storage c of
          Framed n bs blocks \<Rightarrow> validate_blocks (m_feature_flags m AND FEATURE_ENCRYPTION \<noteq> 0) n bs blocks
        | Unframed _ _ \<Rightarrow> Inr ())"

definition expect_bytes :: "part_manifest \<Rightarrow> string \<Rightarrow> u64 \<Rightarrow> unit res" where
  "expect_bytes m name want = rbind (m_column m name) (\<lambda>c.
     if logical_bytes (cm_storage c) \<noteq> want then Inl (Corrupt ''column size'') else Inr ())"

definition checked_size :: "nat \<Rightarrow> nat \<Rightarrow> u64 res" where
  "checked_size a b = (if 2 ^ 64 \<le> a * b then Inl (Corrupt ''row count overflows'') else Inr (of_nat (a * b)))"

definition expect_sized :: "part_manifest \<Rightarrow> string \<Rightarrow> nat \<Rightarrow> unit res" where
  "expect_sized m name per_row = rbind (checked_size (m_row_count m) per_row) (expect_bytes m name)"

fun tile_loop :: "part_manifest \<Rightarrow> nat \<Rightarrow> nat \<Rightarrow> nat \<Rightarrow> u32 option \<Rightarrow> centroid_range list \<Rightarrow> nat res" where
  "tile_loop m bpv next_row total_rows prev [] = Inr total_rows"
| "tile_loop m bpv next_row total_rows prev (r # rs) =
     (if cr_first_row r \<noteq> next_row then Inl (Corrupt ''marks do not tile the rows'')
      else if 2 ^ 64 \<le> cr_first_row r + cr_row_count r then Inl (Corrupt ''mark overflows'')
      else let e = cr_first_row r + cr_row_count r in
        if m_row_count m < e then Inl (Corrupt ''mark past the rows'')
        else if cr_pq_offset r \<noteq> of_nat (usize_mul (cr_first_row r) (m_pq_m m)) \<or>
                cr_pq_len r \<noteq> usize_mul (cr_row_count r) (m_pq_m m) then Inl (Corrupt ''pq byte range'')
        else if cr_rerank_offset r \<noteq> of_nat (usize_mul (cr_first_row r) bpv) \<or>
                cr_rerank_len r \<noteq> usize_mul (cr_row_count r) bpv then Inl (Corrupt ''rerank byte range'')
        else if (case prev of Some p \<Rightarrow> cr_centroid r \<le> p | None \<Rightarrow> False) then Inl (Corrupt ''marks not ordered'')
        else tile_loop m bpv e (total_rows + cr_row_count r) (Some (cr_centroid r)) rs)"

definition validate_structure :: "part_manifest \<Rightarrow> unit res" where
  "validate_structure m =
     (if m_dim m = 0 \<or> m_pq_m m = 0 \<or> m_dim m mod m_pq_m m \<noteq> 0 then Inl (Corrupt ''not a product quantization'')
      else rbind (rerank_validate (m_rerank m)) (\<lambda>_.
      rbind (check_all (validate_column m) (m_columns m)) (\<lambda>_.
      rbind (bytes_per_vector (m_rerank m) (m_dim m)) (\<lambda>bpv.
      if MAX_ATTRIBUTE_KEY_CARDINALITY < length (m_attribute_keys m) then Inl (Corrupt ''attribute keys'')
      else rbind (if has_column m ''observed_time'' then expect_sized m ''observed_time'' 8 else Inr ()) (\<lambda>_.
      rbind (expect_sized m ''pq_codes'' (m_pq_m m)) (\<lambda>_.
      rbind (expect_sized m ''rerank_vectors'' bpv) (\<lambda>_.
      rbind (expect_sized m ''centroid'' 4) (\<lambda>_.
      rbind (expect_sized m ''event_time'' 8) (\<lambda>_.
      rbind (expect_sized m ''cost'' 8) (\<lambda>_.
      rbind (expect_bytes m ''error'' (of_nat (m_row_count m))) (\<lambda>_.
      rbind (tile_loop m bpv 0 0 None (m_centroid_ranges m)) (\<lambda>total_rows.
        if total_rows \<noteq> m_row_count m then Inl (Corrupt ''marks do not cover the rows'') else Inr ()))))))))))))"

section \<open>What structural validation promises a scan\<close>

definition mark_rows :: "centroid_range \<Rightarrow> nat list" where
  "mark_rows r = [cr_first_row r..<cr_first_row r + cr_row_count r]"

definition mark_bytes_ok :: "part_manifest \<Rightarrow> nat \<Rightarrow> centroid_range \<Rightarrow> bool" where
  "mark_bytes_ok m bpv r \<longleftrightarrow>
     cr_pq_offset r = of_nat (usize_mul (cr_first_row r) (m_pq_m m)) \<and> cr_pq_len r = usize_mul (cr_row_count r) (m_pq_m m) \<and>
     cr_rerank_offset r = of_nat (usize_mul (cr_first_row r) bpv) \<and> cr_rerank_len r = usize_mul (cr_row_count r) bpv"

lemma u64_of_nat: "n < 2 ^ 64 \<Longrightarrow> unat (of_nat n :: u64) = n"
  by (simp add: unat_of_nat)

lemma u64_less: "unat (x :: u64) < 2 ^ 64"
  using unsigned_less [of x, where 'a = nat] by simp

lemma tile_loop_tiles:
  assumes "tile_loop m bpv next_row tot prev rs = Inr t" and "next_row \<le> m_row_count m"
  shows "\<exists>e. concat (map mark_rows rs) = [next_row..<e] \<and> next_row \<le> e \<and> e \<le> m_row_count m \<and> t = tot + (e - next_row)
    \<and> list_all (mark_bytes_ok m bpv) rs
    \<and> list_all (\<lambda>r. cr_first_row r + cr_row_count r \<le> m_row_count m) rs
    \<and> sorted_wrt (<) (map cr_centroid rs) \<and> (\<forall>p. prev = Some p \<longrightarrow> list_all (\<lambda>r. p < cr_centroid r) rs)"
  using assms
proof (induction rs arbitrary: next_row tot prev)
  case Nil
  then show ?case by (auto intro: exI [of _ next_row])
next
  case (Cons r rs)
  let ?e = "cr_first_row r + cr_row_count r"
  have g: "cr_first_row r = next_row" "?e \<le> m_row_count m" "mark_bytes_ok m bpv r"
      "\<And>p. prev = Some p \<Longrightarrow> p < cr_centroid r"
    and l: "tile_loop m bpv ?e (tot + cr_row_count r) (Some (cr_centroid r)) rs = Inr t"
    using Cons.prems(1) by (auto simp: Let_def mark_bytes_ok_def not_le split: if_splits option.splits)
  obtain e where e: "concat (map mark_rows rs) = [?e..<e]" "?e \<le> e" "e \<le> m_row_count m"
      "t = tot + cr_row_count r + (e - ?e)" "list_all (mark_bytes_ok m bpv) rs"
      "list_all (\<lambda>r. cr_first_row r + cr_row_count r \<le> m_row_count m) rs"
      "sorted_wrt (<) (map cr_centroid rs)" "list_all (\<lambda>s. cr_centroid r < cr_centroid s) rs"
    using Cons.IH [OF l g(2)] by auto
  have "[next_row..<e] = mark_rows r @ [?e..<e]"
    using upt_add_eq_append [of next_row ?e "e - ?e"] e(2) g(1) by (simp add: mark_rows_def)
  then show ?case
    using e g by (intro exI [of _ e]) (auto simp: list_all_iff dest: order.strict_trans)
qed

lemma expect_sized_ok:
  assumes "expect_sized m name k = Inr u"
  shows "\<exists>c. m_column m name = Inr c \<and> unat (logical_bytes (cm_storage c)) = m_row_count m * k"
  using assms
  by (auto simp: expect_sized_def checked_size_def expect_bytes_def rbind_Inr_iff u64_of_nat not_le simp del: of_nat_mult
      split: if_splits)

lemma mark_bytes_inside:
  assumes "a + b \<le> (n :: nat)" and "n * k < 2 ^ 64"
  shows "unat (of_nat (usize_mul a k) :: u64) = a * k \<and> usize_mul b k = b * k \<and> a * k + b * k \<le> n * k"
proof -
  have le: "a * k + b * k \<le> n * k" using mult_right_mono [OF assms(1), of k] by (simp add: add_mult_distrib)
  then have "a * k < 2 ^ 64" "b * k < 2 ^ 64" using assms(2) by linarith+
  then show ?thesis using le by (simp add: usize_mul_def u64_of_nat del: of_nat_mult)
qed

text \<open>
  C10. The invariant the scan path leans on. Whenever structural validation accepts a manifest, its
  centroid marks list every row of the part exactly once and in order, the centroid ids strictly
  increase, and for each mark the byte range of its PQ codes and of its rerank vectors is the
  row range scaled by the width of a row, without wrap-around, and ends inside the column.
\<close>

theorem validated_marks_tile:
  assumes "validate_structure m = Inr ()"
  shows "concat (map mark_rows (m_centroid_ranges m)) = [0..<m_row_count m]
    \<and> sorted_wrt (<) (map cr_centroid (m_centroid_ranges m))
    \<and> (\<exists>pq rr bpv. m_column m ''pq_codes'' = Inr pq \<and> m_column m ''rerank_vectors'' = Inr rr
        \<and> bytes_per_vector (m_rerank m) (m_dim m) = Inr bpv
        \<and> (\<forall>r \<in> set (m_centroid_ranges m).
            unat (cr_pq_offset r) = cr_first_row r * m_pq_m m \<and> cr_pq_len r = cr_row_count r * m_pq_m m
            \<and> unat (cr_pq_offset r) + cr_pq_len r \<le> unat (logical_bytes (cm_storage pq))
            \<and> unat (cr_rerank_offset r) = cr_first_row r * bpv \<and> cr_rerank_len r = cr_row_count r * bpv
            \<and> unat (cr_rerank_offset r) + cr_rerank_len r \<le> unat (logical_bytes (cm_storage rr))))"
proof -
  obtain bpv where bpv: "bytes_per_vector (m_rerank m) (m_dim m) = Inr bpv"
    and t: "tile_loop m bpv 0 0 None (m_centroid_ranges m) = Inr (m_row_count m)"
    and c: "expect_sized m ''pq_codes'' (m_pq_m m) = Inr ()" "expect_sized m ''rerank_vectors'' bpv = Inr ()"
    using assms by (auto simp: validate_structure_def rbind_Inr_iff split: if_splits)
  obtain pq rr where col: "m_column m ''pq_codes'' = Inr pq" "unat (logical_bytes (cm_storage pq)) = m_row_count m * m_pq_m m"
      "m_column m ''rerank_vectors'' = Inr rr" "unat (logical_bytes (cm_storage rr)) = m_row_count m * bpv"
    using expect_sized_ok [OF c(1)] expect_sized_ok [OF c(2)] by blast
  have lt: "m_row_count m * m_pq_m m < 2 ^ 64" "m_row_count m * bpv < 2 ^ 64"
    using u64_less [of "logical_bytes (cm_storage pq)"] u64_less [of "logical_bytes (cm_storage rr)"] col
    by simp_all
  obtain e where tile: "concat (map mark_rows (m_centroid_ranges m)) = [0..<e]" "m_row_count m = e"
      "list_all (mark_bytes_ok m bpv) (m_centroid_ranges m)"
      "list_all (\<lambda>r. cr_first_row r + cr_row_count r \<le> m_row_count m) (m_centroid_ranges m)"
      "sorted_wrt (<) (map cr_centroid (m_centroid_ranges m))"
    using tile_loop_tiles [OF t] by auto
  have "unat (cr_pq_offset r) = cr_first_row r * m_pq_m m \<and> cr_pq_len r = cr_row_count r * m_pq_m m
      \<and> unat (cr_pq_offset r) + cr_pq_len r \<le> unat (logical_bytes (cm_storage pq))
      \<and> unat (cr_rerank_offset r) = cr_first_row r * bpv \<and> cr_rerank_len r = cr_row_count r * bpv
      \<and> unat (cr_rerank_offset r) + cr_rerank_len r \<le> unat (logical_bytes (cm_storage rr))"
    if "r \<in> set (m_centroid_ranges m)" for r
  proof -
    have le: "cr_first_row r + cr_row_count r \<le> m_row_count m" and ok: "mark_bytes_ok m bpv r"
      using tile(3,4) that by (auto simp: list_all_iff)
    show ?thesis
      using mark_bytes_inside [OF le lt(1)] mark_bytes_inside [OF le lt(2)] ok col(2,4)
      by (simp add: mark_bytes_ok_def)
  qed
  then show ?thesis using tile(1,2,5) bpv col(1,3) by blast
qed

definition framed_sample :: "string \<Rightarrow> u32 \<Rightarrow> column_meta" where
  "framed_sample name n = \<lparr>cm_name = name, cm_file = name, cm_codec_id = 1,
     cm_storage = Framed (ucast n) 16384 [\<lparr>file_offset = 0, payload_len = n, b_crc32 = 0\<rparr>]\<rparr>"

definition valid_sample :: part_manifest where
  "valid_sample = sample_manifest\<lparr>m_columns := [framed_sample ''pq_codes'' 4, framed_sample ''rerank_vectors'' 32,
     framed_sample ''centroid'' 8, framed_sample ''event_time'' 16, framed_sample ''cost'' 16, framed_sample ''error'' 2]\<rparr>"

theorem validated_marks_tile_witness:
  "validate_structure valid_sample = Inr () \<and> concat (map mark_rows (m_centroid_ranges valid_sample)) = [0..<2]"
proof -
  have "validate_structure valid_sample = Inr ()"
    by (simp add: validate_structure_def valid_sample_def sample_manifest_def framed_sample_def rerank_validate_def
        bytes_per_vector_def validate_column_def validate_blocks_def Let_def u64_sum_def usize_mul_def expect_sized_def
        checked_size_def expect_bytes_def m_column_def has_column_def feature_defs CODEC_RAW_def
        RERANK_ENCODING_FLOAT32_def RERANK_CONTRACT_EXACT_def MAX_ATTRIBUTE_KEY_CARDINALITY_def)
  then show ?thesis using validated_marks_tile [of valid_sample] by (simp add: valid_sample_def sample_manifest_def)
qed

end
