(* ===== verification/Grouping.thy ===== *)
theory Grouping
  imports Prelude "HOL-Library.Multiset"
begin

text \<open>
  The idiom \<open>map.entry(k).or_default().push(x)\<close> on an ordered map of vectors, which admission, the merge
  scheduler and the aggregation use to group rows: what a group holds, and that no element is lost
  or doubled by grouping.
\<close>

definition bt_push :: "'k::linorder \<Rightarrow> 'x \<Rightarrow> ('k \<times> 'x list) list \<Rightarrow> ('k \<times> 'x list) list" where
  "bt_push k x m = bt_insert k ((case bt_get m k of Some q \<Rightarrow> q | None \<Rightarrow> []) @ [x]) m"

definition group_with :: "('a \<Rightarrow> 'k::linorder) \<Rightarrow> ('a \<Rightarrow> 'x) \<Rightarrow> 'a list \<Rightarrow> ('k \<times> 'x list) list" where
  "group_with f g xs = fold (\<lambda>x. bt_push (f x) (g x)) xs []"

lemma group_with_Nil [simp]: "group_with f g [] = []"
  by (simp add: group_with_def)

lemma group_with_snoc: "group_with f g (xs @ [x]) = bt_push (f x) (g x) (group_with f g xs)"
  by (simp add: group_with_def)

lemma bt_push_wf [simp]: "bt_wf m \<Longrightarrow> bt_wf (bt_push k x m)"
  by (simp add: bt_push_def)

lemma group_with_wf [simp]: "bt_wf (group_with f g xs)"
  by (induction xs rule: rev_induct) (simp_all add: group_with_snoc)

lemma group_with_get:
  "bt_get (group_with f g xs) k = (let q = filter (\<lambda>x. f x = k) xs in if q = [] then None else Some (map g q))"
proof (induction xs rule: rev_induct)
  case (snoc x xs)
  then show ?case by (auto simp: group_with_snoc bt_push_def Let_def)
qed simp

lemma bt_keys_get: "k \<in> fst ` set m \<longleftrightarrow> bt_get m k \<noteq> None"
  by (simp add: bt_get_def map_of_eq_None_iff)

lemma group_with_keys: "fst ` set (group_with f g xs) = f ` set xs"
  using bt_keys_get [of _ "group_with f g xs"]
  by (auto simp: group_with_get Let_def filter_empty_conv set_eq_iff split: if_splits)

lemma group_with_entry:
  assumes "(k, q) \<in> set (group_with f g xs)"
  shows "q = map g (filter (\<lambda>x. f x = k) xs) \<and> q \<noteq> []"
proof -
  have "bt_get (group_with f g xs) k = Some q" using bt_get_Some_iff [OF group_with_wf] assms by blast
  then show ?thesis by (auto simp: group_with_get Let_def split: if_splits)
qed

lemma mset_bt_insert:
  "bt_wf m \<Longrightarrow> mset (concat (map (h \<circ> snd) (bt_insert k v m))) + mset (case bt_get m k of Some q \<Rightarrow> h q | None \<Rightarrow> [])
     = mset (h v) + mset (concat (map (h \<circ> snd) m))"
proof (induction m)
  case (Cons p m)
  obtain a b where p: "p = (a, b)" by force
  have wf: "bt_wf m" and gt: "\<And>x. x \<in> fst ` set m \<Longrightarrow> a < x" using Cons.prems p by (auto simp: bt_wf_def)
  have no: "bt_get m k = None" if "k \<le> a"
    using that gt [of k] bt_keys_get [of k m] by (cases "bt_get m k") auto
  consider "k < a" | "k = a" | "a < k" by fastforce
  then show ?case
  proof cases
    case 1 then show ?thesis using no p by (auto simp: bt_get_def)
  next
    case 2 then show ?thesis using no p by (simp add: bt_get_def)
  next
    case 3
    then have "\<not> k < a" "k \<noteq> a" "a \<noteq> k" by auto
    then show ?thesis using Cons.IH [OF wf] p by (simp add: bt_get_def ac_simps)
  qed
qed simp

lemma bt_push_mset: "bt_wf m \<Longrightarrow> mset (concat (map snd (bt_push k x m))) = mset (concat (map snd m)) + {#x#}"
  using mset_bt_insert [of m id k "(case bt_get m k of Some q \<Rightarrow> q | None \<Rightarrow> []) @ [x]"]
  by (simp add: bt_push_def split: option.splits)

lemma group_with_mset: "mset (concat (map snd (group_with f g xs))) = mset (map g xs)"
  by (induction xs rule: rev_induct) (simp_all add: group_with_snoc bt_push_mset)

lemma length_group_with: "length (group_with f g xs) = card (f ` set xs)"
  by (metis bt_wf_distinct distinct_card group_with_keys group_with_wf length_map set_map)

end
