(* ===== verification/Scheduler.thy ===== *)
theory Scheduler
  imports Partitions Grouping
begin

text \<open>
  The merge scheduler, \<open>prism-engine/src/scheduler.rs\<close>, with its policy constants from
  \<open>prism-engine/src/merge.rs\<close>: size tiers, the ripe groups of a cycle, and their round-robin admission
  under the I/O and concurrency budgets.
\<close>

section \<open>Tiers\<close>

definition MERGE_TIER_FANOUT :: nat where "MERGE_TIER_FANOUT = 4"
definition MERGE_TIER_RATIO :: nat where "MERGE_TIER_RATIO = 4"
definition MERGE_TIER_BASE_ROWS :: nat where "MERGE_TIER_BASE_ROWS = 256"
definition MERGE_IO_BUDGET_ROWS :: nat where "MERGE_IO_BUDGET_ROWS = 1000000"
definition MERGE_MAX_OPS :: nat where "MERGE_MAX_OPS = 16"

lemmas merge_policy_defs = MERGE_TIER_FANOUT_def MERGE_TIER_RATIO_def MERGE_TIER_BASE_ROWS_def
  MERGE_IO_BUDGET_ROWS_def MERGE_MAX_OPS_def

definition usize_max :: nat where "usize_max = 2 ^ 64 - 1"

lemma saturating_mul_grows:
  "0 < b \<Longrightarrow> b < usize_max \<Longrightarrow> b < saturating_mul b (max MERGE_TIER_RATIO 2)"
  by (simp add: saturating_mul_def usize_max_def merge_policy_defs)

text \<open>The loop of \<open>tier_of\<close>. A bound at the top of the range covers every representable row count, so
  the second half of the guard never decides; it is there for the row counts a \<open>usize\<close> cannot hold.\<close>

function tier_loop :: "nat \<Rightarrow> nat \<Rightarrow> nat \<Rightarrow> nat" where
  "tier_loop rows bound tier =
     (if bound < rows \<and> 0 < bound \<and> bound < usize_max
      then tier_loop rows (saturating_mul bound (max MERGE_TIER_RATIO 2)) (tier + 1) else tier)"
  by pat_completeness auto

termination
  by (relation "measure (\<lambda>(rows, bound, _). rows - bound)") (auto dest: saturating_mul_grows)

declare tier_loop.simps [simp del]

definition tier_of :: "nat \<Rightarrow> nat" where
  "tier_of rows = tier_loop rows (max MERGE_TIER_BASE_ROWS 1) 0"

section \<open>The plan\<close>

record merge_op =
  mo_partition :: string
  mo_tier :: nat
  mo_part_ids :: "string list"
  mo_input_rows :: nat
  mo_reason :: string

record merge_plan =
  mp_ops :: "merge_op list"
  mp_merge_debt :: nat
  mp_io_budget_rows :: nat
  mp_io_spent_rows :: nat
  mp_deferred_ops :: nat

fun bucket_debug :: "bucket \<Rightarrow> string" where
  "bucket_debug (Dedicated i) = ''Dedicated('' @ nat_str (unat i) @ '')''"
| "bucket_debug (Shared i) = ''Shared('' @ nat_str (unat i) @ '')''"

definition describe :: "partition_key \<Rightarrow> string" where
  "describe k = ''bucket='' @ bucket_debug (pk_bucket k) @ '' window='' @ i64_str (pk_window k)
     @ '' generation='' @ pk_generation k"

text \<open>The derived order of \<open>PartitionKey\<close>: variant and number of the bucket, window, generation.\<close>

type_synonym key_order = "nat \<times> u32 \<times> i64 \<times> string"

definition key_order :: "partition_key \<Rightarrow> key_order" where
  "key_order k = (case pk_bucket k of Dedicated _ \<Rightarrow> 0 | Shared _ \<Rightarrow> 1, bucket_id (pk_bucket k), pk_window k, pk_generation k)"

definition order_key :: "key_order \<Rightarrow> partition_key" where
  "order_key x = (case x of (v, b, w, g) \<Rightarrow>
     \<lparr>pk_bucket = (if v = 0 then Dedicated b else Shared b), pk_window = w, pk_generation = g\<rparr>)"

type_synonym tiers = "(nat \<times> part_ref list) list"

definition by_partition :: "part_ref list \<Rightarrow> (key_order \<times> tiers) list" where
  "by_partition parts = fold (\<lambda>p m.
     bt_insert (key_order (pr_partition p))
       (bt_push (tier_of (pr_rows p)) p (case bt_get m (key_order (pr_partition p)) of Some t \<Rightarrow> t | None \<Rightarrow> [])) m) parts []"

definition merge_debt :: "(key_order \<times> tiers) list \<Rightarrow> nat" where
  "merge_debt m = sum_list (map (\<lambda>(_, ts). sum_list (map (\<lambda>(_, members). length members - 1) ts)) m)"

definition merge_op_of :: "key_order \<Rightarrow> nat \<Rightarrow> part_ref list \<Rightarrow> merge_op" where
  "merge_op_of k tier members =
     \<lparr>mo_partition = describe (order_key k), mo_tier = tier, mo_part_ids = sort (map pr_part_id members),
      mo_input_rows = sum_list (map pr_rows members) mod 2 ^ 64, mo_reason = ''tier reached the fan-out''\<rparr>"

definition ripe_ops :: "(key_order \<times> tiers) list \<Rightarrow> (u32 \<times> merge_op) list" where
  "ripe_ops m = concat (map (\<lambda>(k, ts).
     map (\<lambda>(tier, members). (bucket_id (pk_bucket (order_key k)), merge_op_of k tier members))
       (filter (\<lambda>(_, members). MERGE_TIER_FANOUT \<le> length members) ts)) m)"

definition by_bucket :: "(u32 \<times> merge_op) list \<Rightarrow> (u32 \<times> merge_op list) list" where
  "by_bucket ops = map (\<lambda>(b, q). (b, sort_key (\<lambda>o'. (mo_input_rows o', mo_partition o')) q)) (group_with fst snd ops)"

record cycle =
  cy_ops :: "merge_op list"
  cy_io :: nat
  cy_deferred :: nat

definition admit_op :: "merge_op \<Rightarrow> merge_op list \<Rightarrow> cycle \<Rightarrow> merge_op list \<times> cycle" where
  "admit_op op q c =
     (if MERGE_MAX_OPS \<le> length (cy_ops c) \<or> MERGE_IO_BUDGET_ROWS < min usize_max (cy_io c + mo_input_rows op)
      then ([], c\<lparr>cy_deferred := cy_deferred c + (1 + length q)\<rparr>)
      else (q, c\<lparr>cy_io := cy_io c + mo_input_rows op, cy_ops := cy_ops c @ [op]\<rparr>))"

text \<open>One round over the queues; the flag says whether some queue had an element.\<close>

fun cycle_pass :: "merge_op list list \<Rightarrow> cycle \<Rightarrow> merge_op list list \<times> cycle \<times> bool" where
  "cycle_pass [] c = ([], c, False)"
| "cycle_pass ([] # qs) c = (case cycle_pass qs c of (qs', c', b) \<Rightarrow> ([] # qs', c', b))"
| "cycle_pass ((op # q) # qs) c = (case admit_op op q c of (q', c') \<Rightarrow>
     case cycle_pass qs c' of (qs', c'', _) \<Rightarrow> (q' # qs', c'', True))"

definition pending :: "merge_op list list \<Rightarrow> nat" where
  "pending qs = sum_list (map length qs)"

lemma cycle_pass_pending:
  "cycle_pass qs c = (qs', c', b) \<Longrightarrow> pending qs' \<le> pending qs \<and> (b \<longrightarrow> pending qs' < pending qs)"
  by (induction qs c arbitrary: qs' c' b rule: cycle_pass.induct)
    (fastforce simp: pending_def admit_op_def split: prod.splits if_splits)+

function cycle_loop :: "merge_op list list \<Rightarrow> cycle \<Rightarrow> cycle" where
  "cycle_loop qs c = (case cycle_pass qs c of (qs', c', progress) \<Rightarrow> if progress then cycle_loop qs' c' else c')"
  by pat_completeness auto

termination
  by (relation "measure (\<lambda>(qs, _). pending qs)") (auto dest!: cycle_pass_pending [OF sym])

declare cycle_loop.simps [simp del]

definition plan_merges :: "part_ref list \<Rightarrow> merge_plan" where
  "plan_merges parts =
     (let m = by_partition parts;
          c = cycle_loop (map snd (by_bucket (ripe_ops m))) \<lparr>cy_ops = [], cy_io = 0, cy_deferred = 0\<rparr> in
      \<lparr>mp_ops = cy_ops c, mp_merge_debt = merge_debt m, mp_io_budget_rows = MERGE_IO_BUDGET_ROWS,
       mp_io_spent_rows = cy_io c, mp_deferred_ops = cy_deferred c\<rparr>)"

section \<open>Tiers\<close>

lemma tier_loop_bound:
  assumes "rows \<le> usize_max" and "0 < bound" and "bound \<le> usize_max"
  shows "\<exists>n. tier_loop rows bound tier = tier + n \<and> rows \<le> min usize_max (bound * 4 ^ n)
    \<and> (n \<noteq> 0 \<longrightarrow> bound * 4 ^ (n - 1) < rows)"
  using assms
proof (induction rows bound tier rule: tier_loop.induct)
  case (1 rows bound tier)
  show ?case
  proof (cases "bound < rows")
    case False
    then show ?thesis using "1.prems" by (subst tier_loop.simps) (auto intro: exI [of _ 0])
  next
    case True
    let ?b = "saturating_mul bound (max MERGE_TIER_RATIO 2)"
    have b: "?b = min (bound * 4) usize_max" by (simp add: saturating_mul_def usize_max_def merge_policy_defs)
    have lt: "bound < usize_max" using True "1.prems"(1) by simp
    obtain n where n: "tier_loop rows ?b (tier + 1) = tier + 1 + n" "rows \<le> min usize_max (?b * 4 ^ n)"
        "n \<noteq> 0 \<longrightarrow> ?b * 4 ^ (n - 1) < rows"
      using "1.IH" True lt "1.prems" b by auto
    have "tier_loop rows bound tier = tier + (n + 1)"
      using n(1) True lt "1.prems"(2) by (subst tier_loop.simps) simp
    moreover have "rows \<le> bound * 4 ^ (n + 1)"
    proof -
      have "?b * 4 ^ n \<le> bound * 4 * 4 ^ n" unfolding b by (rule mult_le_mono1) simp
      moreover have "rows \<le> ?b * 4 ^ n" using n(2) by simp
      ultimately have "rows \<le> bound * 4 * 4 ^ n" by (rule order_trans [rotated])
      then show ?thesis by simp
    qed
    moreover have "bound * 4 ^ n < rows"
    proof (cases n)
      case (Suc k)
      have "usize_max \<le> usize_max * 4 ^ k" by simp
      then have "\<not> usize_max * 4 ^ k < rows" using "1.prems"(1) by linarith
      then have "?b = bound * 4" using n(3) Suc unfolding b by (auto simp: min_def split: if_splits)
      then show ?thesis using n(3) Suc by simp
    qed (use True in simp)
    ultimately show ?thesis using n(2) by (intro exI [of _ "n + 1"]) auto
  qed
qed

lemma tier_of_bounds:
  assumes "rows \<le> usize_max"
  shows "rows \<le> 256 * 4 ^ tier_of rows \<and> (tier_of rows \<noteq> 0 \<longrightarrow> 256 * 4 ^ (tier_of rows - 1) < rows)"
  using tier_loop_bound [OF assms, of "max MERGE_TIER_BASE_ROWS 1" 0]
  by (auto simp: tier_of_def merge_policy_defs usize_max_def)

section \<open>Groups\<close>

lemma order_key_inverse: "order_key (key_order k) = k"
  by (cases k) (auto simp: order_key_def key_order_def split: bucket.splits)

lemma key_order_eq: "key_order k = x \<Longrightarrow> order_key x = k"
  using order_key_inverse by blast

definition tier_members :: "part_ref list \<Rightarrow> partition_key \<Rightarrow> nat \<Rightarrow> part_ref list" where
  "tier_members parts k t = filter (\<lambda>p. pr_partition p = k \<and> tier_of (pr_rows p) = t) parts"

definition partition_step :: "part_ref \<Rightarrow> (key_order \<times> tiers) list \<Rightarrow> (key_order \<times> tiers) list" where
  "partition_step p m = bt_insert (key_order (pr_partition p))
     (bt_push (tier_of (pr_rows p)) p (case bt_get m (key_order (pr_partition p)) of Some t \<Rightarrow> t | None \<Rightarrow> [])) m"

lemma by_partition_snoc: "by_partition (ps @ [p]) = partition_step p (by_partition ps)"
  by (simp add: by_partition_def partition_step_def)

lemma by_partition_Nil: "by_partition [] = []"
  by (simp add: by_partition_def)

lemma by_partition_wf: "bt_wf (by_partition ps)"
  by (induction ps rule: rev_induct) (simp_all add: by_partition_snoc by_partition_Nil partition_step_def)

lemma by_partition_get:
  "bt_get (by_partition ps) x = (let q = filter (\<lambda>p. key_order (pr_partition p) = x) ps in
     if q = [] then None else Some (group_with (\<lambda>p. tier_of (pr_rows p)) (\<lambda>p. p) q))"
proof (induction ps rule: rev_induct)
  case (snoc p ps)
  show ?case
  proof (cases "key_order (pr_partition p) = x")
    case True
    then show ?thesis
      unfolding by_partition_snoc partition_step_def True bt_get_insert snoc Let_def
      using True by (simp add: group_with_snoc)
  next
    case False
    then show ?thesis unfolding by_partition_snoc partition_step_def using snoc by (simp add: Let_def)
  qed
qed (simp add: by_partition_Nil)

lemma by_partition_entry:
  assumes "(x, ts) \<in> set (by_partition ps)" and "(t, members) \<in> set ts"
  shows "\<exists>k. x = key_order k \<and> members = tier_members ps k t"
proof -
  have "bt_get (by_partition ps) x = Some ts" using bt_get_Some_iff [OF by_partition_wf] assms(1) by blast
  then obtain p where p: "p \<in> set ps" "key_order (pr_partition p) = x"
    and ts: "ts = group_with (\<lambda>p. tier_of (pr_rows p)) (\<lambda>p. p) (filter (\<lambda>p. key_order (pr_partition p) = x) ps)"
    by (auto simp: by_partition_get Let_def filter_empty_conv split: if_splits)
  have "members = filter (\<lambda>p. tier_of (pr_rows p) = t) (filter (\<lambda>p. key_order (pr_partition p) = x) ps)"
    using group_with_entry assms(2) unfolding ts by fastforce
  also have "\<dots> = tier_members ps (order_key x) t"
    unfolding tier_members_def filter_filter using key_order_eq order_key_inverse p(2)
    by (intro filter_cong refl) metis
  finally show ?thesis using p(2) order_key_inverse by metis
qed

definition all_members :: "(key_order \<times> tiers) list \<Rightarrow> part_ref list" where
  "all_members m = concat (map (\<lambda>p. concat (map snd (snd p))) m)"

lemma by_partition_mset: "mset (all_members (by_partition ps)) = mset ps"
proof (induction ps rule: rev_induct)
  case (snoc p ps)
  let ?m = "by_partition ps" and ?k = "key_order (pr_partition p)"
  let ?old = "case bt_get ?m ?k of Some t \<Rightarrow> t | None \<Rightarrow> []"
  have wf: "bt_wf ?old" by (auto simp: by_partition_get Let_def)
  have "mset (all_members (partition_step p ?m)) + mset (case bt_get ?m ?k of Some t \<Rightarrow> concat (map snd t) | None \<Rightarrow> [])
      = mset (concat (map snd (bt_push (tier_of (pr_rows p)) p ?old))) + mset (all_members ?m)"
    using mset_bt_insert [OF by_partition_wf, of "\<lambda>ts. concat (map snd ts)" ?k "bt_push (tier_of (pr_rows p)) p ?old" ps]
    by (simp only: all_members_def partition_step_def o_def)
  also have "mset (concat (map snd (bt_push (tier_of (pr_rows p)) p ?old))) = mset (concat (map snd ?old)) + {#p#}"
    by (rule bt_push_mset [OF wf])
  finally have "mset (all_members (partition_step p ?m)) = mset (all_members ?m) + {#p#}"
    by (cases "bt_get ?m ?k") auto
  then show ?case using snoc by (simp add: by_partition_snoc)
qed (simp add: by_partition_Nil all_members_def)

section \<open>Candidates\<close>

lemma ripe_ops_ids:
  "mset (concat (map mo_part_ids (map snd (ripe_ops m)))) \<subseteq># mset (map pr_part_id (all_members m))"
proof (induction m)
  case (Cons p m)
  obtain k ts where p: "p = (k, ts)" by (cases p)
  have "mset (concat (map mo_part_ids (map snd (ripe_ops [(k, ts)])))) \<subseteq># mset (map pr_part_id (concat (map snd ts)))"
    by (induction ts) (auto simp: ripe_ops_def merge_op_of_def intro: subset_mset.add_mono subset_mset.add_increasing)
  moreover have "ripe_ops (p # m) = ripe_ops [(k, ts)] @ ripe_ops m" by (simp add: ripe_ops_def p)
  ultimately show ?case using Cons by (simp add: all_members_def p subset_mset.add_mono)
qed (simp add: ripe_ops_def all_members_def)

lemma ripe_op_cases:
  assumes "op \<in> set (map snd (ripe_ops (by_partition ps)))"
  shows "\<exists>k. mo_partition op = describe k \<and> MERGE_TIER_FANOUT \<le> length (tier_members ps k (mo_tier op))
    \<and> mo_part_ids op = sort (map pr_part_id (tier_members ps k (mo_tier op)))
    \<and> mo_input_rows op = sum_list (map pr_rows (tier_members ps k (mo_tier op))) mod 2 ^ 64"
proof -
  obtain x ts t members where e: "(x, ts) \<in> set (by_partition ps)" "(t, members) \<in> set ts"
      "MERGE_TIER_FANOUT \<le> length members" "op = merge_op_of x t members"
    using assms by (auto simp: ripe_ops_def)
  obtain k where "x = key_order k" "members = tier_members ps k t" using by_partition_entry [OF e(1,2)] by blast
  then show ?thesis using e(3,4) by (auto simp: merge_op_of_def order_key_inverse)
qed

lemma mset_concat_map_cong:
  "(\<And>x. x \<in> set xs \<Longrightarrow> mset (f x) = mset (g x)) \<Longrightarrow> mset (concat (map f xs)) = mset (concat (map g xs))"
  by (induction xs) simp_all

lemma by_bucket_mset: "mset (concat (map snd (by_bucket ops))) = mset (map snd ops)"
proof -
  have "mset (concat (map snd (by_bucket ops))) = mset (concat (map snd (group_with fst snd ops)))"
    unfolding by_bucket_def map_map by (rule mset_concat_map_cong) auto
  then show ?thesis using group_with_mset [of fst snd ops] by simp
qed

section \<open>The cycle\<close>

definition cycle_inv :: "cycle \<Rightarrow> bool" where
  "cycle_inv c \<longleftrightarrow> length (cy_ops c) \<le> MERGE_MAX_OPS \<and> cy_io c \<le> MERGE_IO_BUDGET_ROWS
     \<and> cy_io c = sum_list (map mo_input_rows (cy_ops c))"

lemma admit_op_spec:
  assumes "admit_op op q c = (q', c')" and "cycle_inv c"
  shows "cycle_inv c' \<and> length (cy_ops c') + cy_deferred c' + length q' = length (cy_ops c) + cy_deferred c + (1 + length q)
    \<and> mset (cy_ops c') + mset q' \<subseteq># mset (cy_ops c) + mset (op # q)"
proof (cases "MERGE_MAX_OPS \<le> length (cy_ops c) \<or> MERGE_IO_BUDGET_ROWS < min usize_max (cy_io c + mo_input_rows op)")
  case True
  then show ?thesis using assms by (auto simp: admit_op_def cycle_inv_def)
next
  case False
  then have "cy_io c + mo_input_rows op \<le> MERGE_IO_BUDGET_ROWS"
    by (auto simp: merge_policy_defs usize_max_def min_def split: if_splits)
  then show ?thesis using False assms by (auto simp: admit_op_def cycle_inv_def)
qed

lemma cycle_pass_spec:
  assumes "cycle_pass qs c = (qs', c', b)" and "cycle_inv c"
  shows "cycle_inv c' \<and> length (cy_ops c') + cy_deferred c' + pending qs' = length (cy_ops c) + cy_deferred c + pending qs
    \<and> mset (cy_ops c') + mset (concat qs') \<subseteq># mset (cy_ops c) + mset (concat qs) \<and> (\<not> b \<longrightarrow> pending qs' = 0)"
  using assms
proof (induction qs c arbitrary: qs' c' b rule: cycle_pass.induct)
  case (2 qs c)
  obtain qs1 c1 b1 where r: "cycle_pass qs c = (qs1, c1, b1)" by (metis prod_cases3)
  show ?case using "2.IH" [OF r "2.prems"(2)] "2.prems"(1) r by (auto simp: pending_def)
next
  case (3 op q qs c)
  obtain q1 c1 where a: "admit_op op q c = (q1, c1)" by force
  obtain qs2 c2 b2 where r: "cycle_pass qs c1 = (qs2, c2, b2)" by (metis prod_cases3)
  note s1 = admit_op_spec [OF a "3.prems"(2)]
  note s2 = "3.IH" [OF a [symmetric] r]
  have e: "qs' = q1 # qs2" "c' = c2" "b" using "3.prems"(1) a r by auto
  have "mset (cy_ops c2) + mset (concat (q1 # qs2)) \<subseteq># (mset (cy_ops c1) + mset (concat qs)) + mset q1"
    using s2 s1 by (simp add: ac_simps)
  also have "\<dots> \<subseteq># (mset (cy_ops c) + mset (op # q)) + mset (concat qs)" using s1 by (simp add: ac_simps)
  finally show ?case using s1 s2 e by (simp add: pending_def ac_simps)
qed (simp add: pending_def)

lemma cycle_loop_spec:
  assumes "cycle_inv c"
  shows "cycle_inv (cycle_loop qs c) \<and> length (cy_ops (cycle_loop qs c)) + cy_deferred (cycle_loop qs c)
      = length (cy_ops c) + cy_deferred c + pending qs
    \<and> mset (cy_ops (cycle_loop qs c)) \<subseteq># mset (cy_ops c) + mset (concat qs)"
  using assms
proof (induction qs c rule: cycle_loop.induct)
  case (1 qs c)
  obtain qs1 c1 b1 where r: "cycle_pass qs c = (qs1, c1, b1)" by (metis prod_cases3)
  note s = cycle_pass_spec [OF r "1.prems"]
  show ?case
  proof (cases b1)
    case True
    have "cycle_loop qs c = cycle_loop qs1 c1" using r True by (subst cycle_loop.simps) simp
    then show ?thesis using "1.IH" [OF r [symmetric] refl True] s subset_mset.order_trans by fastforce
  next
    case False
    have "cycle_loop qs c = c1" using r False by (subst cycle_loop.simps) simp
    moreover have "mset (cy_ops c1) \<subseteq># mset (cy_ops c) + mset (concat qs)"
      by (rule subset_mset.order_trans [of _ "mset (cy_ops c1) + mset (concat qs1)"]) (use s in simp_all)
    ultimately show ?thesis using s False by simp
  qed
qed

section \<open>Fairness of the cycle\<close>

lemma admit_op_prefix: "admit_op op q c = (q', c') \<Longrightarrow> \<exists>zs. cy_ops c' = cy_ops c @ zs"
  by (auto simp: admit_op_def split: if_splits)

lemma cycle_pass_prefix: "cycle_pass qs c = (qs', c', b) \<Longrightarrow> \<exists>zs. cy_ops c' = cy_ops c @ zs"
proof (induction qs c arbitrary: qs' c' b rule: cycle_pass.induct)
  case (3 op q qs c)
  obtain q1 c1 where a: "admit_op op q c = (q1, c1)" by (cases "admit_op op q c")
  obtain qs2 c2 b2 where r: "cycle_pass qs c1 = (qs2, c2, b2)" by (metis prod_cases3)
  show ?case using admit_op_prefix [OF a] "3.IH" [OF a [symmetric] r] "3.prems" a r by auto
qed (auto split: prod.splits)

lemma cycle_loop_prefix: "\<exists>zs. cy_ops (cycle_loop qs c) = cy_ops c @ zs"
proof (induction qs c rule: cycle_loop.induct)
  case (1 qs c)
  obtain qs1 c1 b1 where r: "cycle_pass qs c = (qs1, c1, b1)" by (metis prod_cases3)
  have "cycle_loop qs c = (if b1 then cycle_loop qs1 c1 else c1)" using r by (subst cycle_loop.simps) simp
  then show ?case using "1.IH" [OF r [symmetric] refl] cycle_pass_prefix [OF r] by (cases b1) auto
qed

definition heads :: "'a list list \<Rightarrow> 'a list" where
  "heads qs = map hd (filter (\<lambda>q. q \<noteq> []) qs)"

lemma cycle_pass_heads:
  assumes "cycle_pass qs c = (qs', c', b)" and "length (cy_ops c) + length (heads qs) \<le> MERGE_MAX_OPS"
    and "cy_io c + sum_list (map mo_input_rows (heads qs)) \<le> MERGE_IO_BUDGET_ROWS"
  shows "cy_ops c' = cy_ops c @ heads qs"
  using assms
proof (induction qs c arbitrary: qs' c' b rule: cycle_pass.induct)
  case (2 qs c)
  obtain qs2 c2 b2 where r: "cycle_pass qs c = (qs2, c2, b2)" by (metis prod_cases3)
  show ?case using "2.IH" [OF r] "2.prems" r by (simp add: heads_def)
next
  case (3 op q qs c)
  let ?c1 = "c\<lparr>cy_io := cy_io c + mo_input_rows op, cy_ops := cy_ops c @ [op]\<rparr>"
  have "cy_io c + mo_input_rows op \<le> MERGE_IO_BUDGET_ROWS" using "3.prems"(3) by (simp add: heads_def)
  then have a: "admit_op op q c = (q, ?c1)" using "3.prems"(2) by (auto simp: admit_op_def heads_def)
  obtain qs2 c2 b2 where r: "cycle_pass qs ?c1 = (qs2, c2, b2)" by (metis prod_cases3)
  have "cy_ops c2 = cy_ops ?c1 @ heads qs"
    using "3.IH" [OF a [symmetric] r] "3.prems"(2,3) by (simp add: heads_def)
  then show ?case using "3.prems"(1) a r by (simp add: heads_def)
qed (simp add: heads_def)

lemma cycle_loop_heads:
  assumes "length (cy_ops c) + length (heads qs) \<le> MERGE_MAX_OPS"
    and "cy_io c + sum_list (map mo_input_rows (heads qs)) \<le> MERGE_IO_BUDGET_ROWS"
  shows "set (heads qs) \<subseteq> set (cy_ops (cycle_loop qs c))"
proof -
  obtain qs1 c1 b1 where r: "cycle_pass qs c = (qs1, c1, b1)" by (metis prod_cases3)
  have "cycle_loop qs c = (if b1 then cycle_loop qs1 c1 else c1)" using r by (subst cycle_loop.simps) simp
  then obtain zs where "cy_ops (cycle_loop qs c) = cy_ops c1 @ zs"
    using cycle_loop_prefix [of qs1 c1] by (cases b1) auto
  then show ?thesis using cycle_pass_heads [OF r assms] by auto
qed

definition ripe_of :: "part_ref list \<Rightarrow> u32 \<Rightarrow> merge_op list" where
  "ripe_of ps b = map snd (filter (\<lambda>x. fst x = b) (ripe_ops (by_partition ps)))"

definition ripe_buckets :: "part_ref list \<Rightarrow> u32 set" where
  "ripe_buckets ps = fst ` set (ripe_ops (by_partition ps))"

definition cheapest :: "part_ref list \<Rightarrow> u32 \<Rightarrow> nat" where
  "cheapest ps b = Min (mo_input_rows ` set (ripe_of ps b))"

lemma hd_sort_key_min:
  assumes "xs \<noteq> []"
  shows "hd (sort_key f xs) \<in> set xs \<and> (\<forall>x \<in> set xs. f (hd (sort_key f xs)) \<le> f x)"
proof -
  have "sort_key f xs \<noteq> []" using assms by (metis length_0_conv length_sort)
  then obtain y ys where y: "sort_key f xs = y # ys" by (cases "sort_key f xs") auto
  have "set xs = set (y # ys)" using y by (metis set_sort)
  moreover have "sorted (map f (y # ys))" using y by (metis sorted_sort_key)
  ultimately show ?thesis by (simp add: y)
qed

lemma by_bucket_head:
  assumes "(b, q) \<in> set (by_bucket (ripe_ops (by_partition ps)))"
  shows "b \<in> ripe_buckets ps \<and> q \<noteq> [] \<and> hd q \<in> set (ripe_of ps b) \<and> mo_input_rows (hd q) = cheapest ps b"
proof -
  obtain g where g: "(b, g) \<in> set (group_with fst snd (ripe_ops (by_partition ps)))"
      "q = sort_key (\<lambda>o'. (mo_input_rows o', mo_partition o')) g"
    using assms by (auto simp: by_bucket_def)
  have r: "g = ripe_of ps b" "g \<noteq> []" using group_with_entry [OF g(1)] by (auto simp: ripe_of_def)
  have m: "hd q \<in> set g" "\<forall>x \<in> set g. mo_input_rows (hd q) \<le> mo_input_rows x"
    using hd_sort_key_min [OF r(2), of "\<lambda>o'. (mo_input_rows o', mo_partition o')"] unfolding g(2)
    by (auto simp: less_eq_prod_def)
  have "b \<in> ripe_buckets ps" using g(1) group_with_keys unfolding ripe_buckets_def by force
  moreover have "mo_input_rows (hd q) = cheapest ps b"
    unfolding cheapest_def using m r by (intro Min_eqI [symmetric]) auto
  moreover have "q \<noteq> []" using r(2) unfolding g(2) by (metis length_0_conv length_sort)
  ultimately show ?thesis using m r(1) by simp
qed

lemma by_bucket_keys: "map fst (by_bucket ops) = map fst (group_with fst snd ops)"
  by (simp add: by_bucket_def case_prod_beta o_def)

lemma heads_by_bucket:
  fixes ps
  defines "qs \<equiv> map snd (by_bucket (ripe_ops (by_partition ps)))"
  shows "length (heads qs) = card (ripe_buckets ps)
    \<and> sum_list (map mo_input_rows (heads qs)) = (\<Sum>b \<in> ripe_buckets ps. cheapest ps b)
    \<and> (\<forall>b \<in> ripe_buckets ps. \<exists>op \<in> set (heads qs). op \<in> set (ripe_of ps b) \<and> mo_input_rows op = cheapest ps b)"
proof -
  let ?m = "by_bucket (ripe_ops (by_partition ps))"
  have h: "heads qs = map (\<lambda>p. hd (snd p)) ?m"
  proof -
    have "filter (\<lambda>q. q \<noteq> []) qs = qs" unfolding qs_def filter_id_conv using by_bucket_head [of _ _ ps] by auto
    then show ?thesis by (simp add: heads_def qs_def)
  qed
  have keys: "set (map fst ?m) = ripe_buckets ps" "distinct (map fst ?m)"
    unfolding by_bucket_keys ripe_buckets_def
    by (simp add: group_with_keys) (rule bt_wf_distinct [OF group_with_wf])
  have "map mo_input_rows (heads qs) = map (cheapest ps) (map fst ?m)"
    unfolding h using by_bucket_head [of _ _ ps] by auto
  then have "sum_list (map mo_input_rows (heads qs)) = (\<Sum>b \<in> ripe_buckets ps. cheapest ps b)"
    using keys by (metis sum.distinct_set_conv_list)
  moreover have "length (heads qs) = card (ripe_buckets ps)"
    unfolding h using keys distinct_card by fastforce
  moreover have "\<exists>op \<in> set (heads qs). op \<in> set (ripe_of ps b) \<and> mo_input_rows op = cheapest ps b"
    if "b \<in> ripe_buckets ps" for b
  proof -
    have "b \<in> fst ` set ?m" using that keys(1) by simp
    then obtain q where "(b, q) \<in> set ?m" by (metis imageE prod.collapse)
    then show ?thesis using by_bucket_head [of b q ps] unfolding h by force
  qed
  ultimately show ?thesis by blast
qed

section \<open>Properties\<close>

definition merges_one_tier :: "part_ref list \<Rightarrow> merge_op \<Rightarrow> bool" where
  "merges_one_tier ps op \<longleftrightarrow> (\<exists>k. mo_partition op = describe k \<and> 4 \<le> length (tier_members ps k (mo_tier op))
     \<and> mo_part_ids op = sort (map pr_part_id (tier_members ps k (mo_tier op))))"

definition start_cycle :: cycle where
  "start_cycle = \<lparr>cy_ops = [], cy_io = 0, cy_deferred = 0\<rparr>"

lemma plan_merges_cycle:
  "mp_ops (plan_merges ps) = cy_ops (cycle_loop (map snd (by_bucket (ripe_ops (by_partition ps)))) start_cycle)"
  "mp_io_spent_rows (plan_merges ps) = cy_io (cycle_loop (map snd (by_bucket (ripe_ops (by_partition ps)))) start_cycle)"
  "mp_deferred_ops (plan_merges ps) = cy_deferred (cycle_loop (map snd (by_bucket (ripe_ops (by_partition ps)))) start_cycle)"
  by (simp_all add: plan_merges_def Let_def start_cycle_def)

lemma mset_concat_subseteq:
  "mset xs \<subseteq># mset ys \<Longrightarrow> mset (concat (map f xs)) \<subseteq># mset (concat (map f ys))"
proof (induction xs arbitrary: ys)
  case (Cons x xs)
  then have "x \<in> set ys" by (metis list.set_intros(1) mset_subset_eqD set_mset_mset)
  then obtain as bs where ys: "ys = as @ x # bs" by (meson split_list)
  then have "mset xs \<subseteq># mset (as @ bs)" using Cons.prems by simp
  from Cons.IH [OF this] show ?case by (simp add: ys ac_simps)
qed simp

text \<open>
  C9. A merge plan is safe whatever the parts are. It stays within sixteen operations and a million
  rows and reports exactly the rows it spends; every ripe tier is either admitted or counted as
  deferred; no part is merged twice in a cycle; and every operation merges all the parts, at least
  four, of one tier of one partition. In particular a ripe tier of more than a million rows is never admitted.
\<close>

theorem plan_merges_sound:
  "length (mp_ops (plan_merges ps)) \<le> 16 \<and> mp_io_spent_rows (plan_merges ps) \<le> 1000000
   \<and> mp_io_spent_rows (plan_merges ps) = sum_list (map mo_input_rows (mp_ops (plan_merges ps)))
   \<and> length (mp_ops (plan_merges ps)) + mp_deferred_ops (plan_merges ps) = length (ripe_ops (by_partition ps))
   \<and> mset (concat (map mo_part_ids (mp_ops (plan_merges ps)))) \<subseteq># mset (map pr_part_id ps)
   \<and> list_all (merges_one_tier ps) (mp_ops (plan_merges ps))"
proof -
  let ?r = "ripe_ops (by_partition ps)" and ?ops = "mp_ops (plan_merges ps)"
  let ?qs = "map snd (by_bucket ?r)"
  have "cycle_inv start_cycle" by (simp add: cycle_inv_def start_cycle_def)
  note c = cycle_loop_spec [OF this, of ?qs]
  have m: "mset (concat ?qs) = mset (map snd ?r)" by (rule by_bucket_mset)
  have "pending ?qs = length (concat ?qs)" by (simp add: pending_def length_concat)
  also have "\<dots> = length ?r" using m by (metis length_map mset_eq_length)
  finally have len: "length ?ops + mp_deferred_ops (plan_merges ps) = length ?r"
    using c by (simp add: plan_merges_cycle start_cycle_def)
  have sub: "mset ?ops \<subseteq># mset (map snd ?r)" using c m by (simp add: plan_merges_cycle start_cycle_def)
  have "mset (concat (map mo_part_ids ?ops)) \<subseteq># mset (concat (map mo_part_ids (map snd ?r)))"
    by (rule mset_concat_subseteq [OF sub])
  also have "\<dots> \<subseteq># mset (map pr_part_id (all_members (by_partition ps)))" by (rule ripe_ops_ids)
  also have "\<dots> = mset (map pr_part_id ps)" by (metis by_partition_mset mset_map)
  finally have ids: "mset (concat (map mo_part_ids ?ops)) \<subseteq># mset (map pr_part_id ps)" .
  have "merges_one_tier ps op" if "op \<in> set ?ops" for op
  proof -
    have "op \<in> set (map snd ?r)" using that sub by (metis mset_subset_eqD set_mset_mset)
    from ripe_op_cases [OF this] show ?thesis by (auto simp: merges_one_tier_def MERGE_TIER_FANOUT_def)
  qed
  then have "list_all (merges_one_tier ps) ?ops" by (simp add: list_all_iff)
  then show ?thesis
    using c len ids by (simp add: plan_merges_cycle cycle_inv_def merge_policy_defs)
qed

text \<open>
  C30. No bucket starves another. When at most sixteen buckets have a ripe tier and the cheapest ripe
  operations of the buckets fit the row budget together, the plan contains a cheapest operation of
  every bucket that has one, however many operations the other buckets queue.
\<close>

theorem plan_serves_every_bucket:
  assumes "card (ripe_buckets ps) \<le> 16" and "(\<Sum>b \<in> ripe_buckets ps. cheapest ps b) \<le> 1000000"
    and "b \<in> ripe_buckets ps"
  shows "\<exists>op \<in> set (mp_ops (plan_merges ps)). op \<in> set (ripe_of ps b) \<and> mo_input_rows op = cheapest ps b"
proof -
  let ?qs = "map snd (by_bucket (ripe_ops (by_partition ps)))"
  note h = heads_by_bucket [of ps]
  have "set (heads ?qs) \<subseteq> set (cy_ops (cycle_loop ?qs start_cycle))"
    by (rule cycle_loop_heads) (use h assms in \<open>simp_all add: start_cycle_def merge_policy_defs\<close>)
  then show ?thesis using h assms(3) unfolding plan_merges_cycle by blast
qed

definition sample_parts :: "part_ref list" where
  "sample_parts = map (\<lambda>i. \<lparr>pr_part_id = i,
     pr_partition = \<lparr>pk_bucket = Shared 3, pk_window = 0, pk_generation = ''g''\<rparr>, pr_rows = 10,
     pr_tenants = [''a''], pr_time_min = 0, pr_time_max = 1\<rparr>) [''p'', ''q'', ''r'', ''s'']"

lemma sample_ripe: "ripe_ops (by_partition sample_parts) =
    [(3, merge_op_of (1, 3, 0, ''g'') 0 sample_parts)]"
proof -
  have t: "tier_of 10 = 0" by (simp add: tier_of_def tier_loop.simps merge_policy_defs)
  show ?thesis
    by (simp add: by_partition_def sample_parts_def key_order_def bt_push_def bt_get_def t ripe_ops_def
        order_key_def MERGE_TIER_FANOUT_def)
qed

theorem plan_serves_every_bucket_witness: "\<exists>op \<in> set (mp_ops (plan_merges sample_parts)). mo_input_rows op = 40"
proof -
  have b: "ripe_buckets sample_parts = {3}" by (simp add: ripe_buckets_def sample_ripe)
  have c: "cheapest sample_parts 3 = 40"
    unfolding cheapest_def ripe_of_def sample_ripe by (simp add: merge_op_of_def) (simp add: sample_parts_def)
  show ?thesis using plan_serves_every_bucket [of sample_parts 3] by (auto simp: b c)
qed

end
