(* ===== verification/Catalog.thy ===== *)
theory Catalog
  imports Scheduler
begin

text \<open>
  The catalog, \<open>prism-part/src/catalog.rs\<close>, with the two operations of the engine that only change it:
  \<open>Engine::delete\<close> (\<open>prism-engine/src/delete.rs\<close>) and \<open>Engine::rollback\<close> (\<open>prism-engine/src/merge.rs\<close>).
  The store is what the file system holds: the text of \<open>CURRENT\<close>, the decoded snapshot files by name, and
  the names in the parts directory. \<open>opens\<close> stands for \<open>PartReader::open\<close> on a part directory. An operation
  that writes returns the trace of the durable states it goes through, so that a crash leaves one of
  them; the last one is the state after the operation.
\<close>

section \<open>Snapshots\<close>

definition LEASE_TTL_MS :: i64 where "LEASE_TTL_MS = 60 * 60 * 1000"
definition GC_GRACE_MS :: i64 where "GC_GRACE_MS = LEASE_TTL_MS"
definition GC_HORIZON_MS :: i64 where "GC_HORIZON_MS = LEASE_TTL_MS + GC_GRACE_MS"
definition MAX_CLOCK_SKEW_MS :: i64 where "MAX_CLOCK_SKEW_MS = 5 * 60 * 1000"

lemmas lease_defs = LEASE_TTL_MS_def GC_GRACE_MS_def GC_HORIZON_MS_def MAX_CLOCK_SKEW_MS_def

datatype part_entry = Located part_ref | Legacy string

fun entry_part_id :: "part_entry \<Rightarrow> string" where
  "entry_part_id (Located r) = pr_part_id r"
| "entry_part_id (Legacy i) = i"

fun entry_located :: "part_entry \<Rightarrow> part_ref option" where
  "entry_located (Located r) = Some r"
| "entry_located (Legacy _) = None"

fun entry_validate :: "part_entry \<Rightarrow> unit res" where
  "entry_validate (Located r) = ref_validate r"
| "entry_validate (Legacy _) = Inr ()"

datatype generation_state = Candidate | Canary | Active | Deprecated

datatype bridge_policy = RankFusion

record bridge =
  br_from_space :: string
  br_to_space :: string
  br_policy :: bridge_policy
  br_validation :: string
  br_declared_at_ms :: i64

definition joins :: "bridge \<Rightarrow> string \<Rightarrow> string \<Rightarrow> bool" where
  "joins br a b \<longleftrightarrow> (br_from_space br = a \<and> br_to_space br = b) \<or> (br_from_space br = b \<and> br_to_space br = a)"

datatype baseline_state = Ready | Degraded string

record baseline_ref =
  bl_id :: string
  bl_tenant :: string
  bl_generation_id :: string
  bl_state :: baseline_state

record snapshot =
  snapshot_id :: string
  sn_parent :: "string option"
  sn_parts :: "part_entry list"
  sn_next_seq :: nat
  sn_active_generation :: "string option"
  sn_generations :: "(string \<times> generation_state) list"
  sn_bridges :: "bridge list"
  sn_baselines :: "baseline_ref list"
  sn_tombstones :: "string list"
  sn_applied_wal_record :: "nat option"
  sn_created_at_ms :: i64

text \<open>\<open>binary_search\<close> on a sorted vector: the position of the element, or the position to insert it.\<close>

definition binary_search :: "'a::linorder list \<Rightarrow> 'a \<Rightarrow> nat + nat" where
  "binary_search xs x =
     (let i = length (takeWhile (\<lambda>y. y < x) xs) in if i < length xs \<and> xs ! i = x then Inr i else Inl i)"

definition is_tombstoned :: "snapshot \<Rightarrow> string \<Rightarrow> bool" where
  "is_tombstoned s e = is_ok (binary_search (sn_tombstones s) e)"

definition part_ids :: "snapshot \<Rightarrow> string list" where
  "part_ids s = map entry_part_id (sn_parts s)"

definition candidate_parts :: "snapshot \<Rightarrow> string option \<Rightarrow> i64 option \<Rightarrow> i64 option \<Rightarrow> byte list option \<Rightarrow> string list" where
  "candidate_parts s tenant from until tokenizer =
     map entry_part_id (filter (\<lambda>e. case (entry_located e, tenant) of
        (Some r, Some t) \<Rightarrow> ref_may_match r t from until tokenizer
      | _ \<Rightarrow> True) (sn_parts s))"

definition sn_partitions :: "snapshot \<Rightarrow> key_order list" where
  "sn_partitions s = map fst (fold (\<lambda>e m. case entry_located e of
      Some r \<Rightarrow> bt_insert (key_order (pr_partition r)) () m | None \<Rightarrow> m) (sn_parts s) [])"

definition empty_snapshot :: snapshot where
  "empty_snapshot = \<lparr>snapshot_id = ''s00000000'', sn_parent = None, sn_parts = [], sn_next_seq = 1,
     sn_active_generation = None, sn_generations = [], sn_bridges = [], sn_baselines = [], sn_tombstones = [],
     sn_applied_wal_record = None, sn_created_at_ms = 0\<rparr>"

definition generations_in_use :: "snapshot \<Rightarrow> string list" where
  "generations_in_use s = map fst (fold (\<lambda>e m. case entry_located e of
      Some r \<Rightarrow> bt_insert (pk_generation (pr_partition r)) () m | None \<Rightarrow> m) (sn_parts s) [])"

definition state_of :: "snapshot \<Rightarrow> string \<Rightarrow> generation_state option" where
  "state_of s g = bt_get (sn_generations s) g"

definition bridge_between :: "snapshot \<Rightarrow> string \<Rightarrow> string \<Rightarrow> bridge option" where
  "bridge_between s a b = find (\<lambda>br. joins br a b) (sn_bridges s)"

definition baseline_for :: "snapshot \<Rightarrow> string \<Rightarrow> string \<Rightarrow> baseline_ref option" where
  "baseline_for s tenant g = find (\<lambda>b. bl_tenant b = tenant \<and> bl_generation_id b = g) (sn_baselines s)"

record snapshot_meta =
  me_generations :: "(string \<times> generation_state) list"
  me_bridges :: "bridge list"
  me_baselines :: "baseline_ref list"
  me_tombstones :: "string list"
  me_applied_wal_record :: "nat option"

definition meta_of :: "snapshot \<Rightarrow> snapshot_meta" where
  "meta_of s = \<lparr>me_generations = sn_generations s, me_bridges = sn_bridges s, me_baselines = sn_baselines s,
     me_tombstones = sn_tombstones s, me_applied_wal_record = sn_applied_wal_record s\<rparr>"

section \<open>The store and its reads\<close>

record store =
  st_current :: "string option"
  st_snaps :: "(string \<times> snapshot) list"
  st_parts :: "string list"

definition load_snapshot :: "store \<Rightarrow> string \<Rightarrow> snapshot res" where
  "load_snapshot st i = (case bt_get (st_snaps st) i of
       None \<Rightarrow> Inl (Corrupt ''CURRENT names a snapshot which does not exist'')
     | Some s \<Rightarrow> if snapshot_id s \<noteq> i then Inl (Corrupt ''snapshot file declares another id'') else Inr s)"

definition current :: "store \<Rightarrow> snapshot res" where
  "current st = (case st_current st of None \<Rightarrow> Inr empty_snapshot | Some i \<Rightarrow> load_snapshot st i)"

definition list_snapshots :: "store \<Rightarrow> string list" where
  "list_snapshots st = map fst (st_snaps st)"

section \<open>Commits\<close>

definition parse_u64 :: "string \<Rightarrow> nat option" where
  "parse_u64 s = (let d = (case s of c # r \<Rightarrow> if c = CHR ''+'' then r else s | [] \<Rightarrow> s) in
     if d \<noteq> [] \<and> list_all is_digit d \<and> nat_of_digits d < 2 ^ 64 then Some (nat_of_digits d) else None)"

definition pad_digits :: "nat \<Rightarrow> nat \<Rightarrow> string" where
  "pad_digits w n = replicate (w - length (nat_str n)) (CHR ''0'') @ nat_str n"

definition next_snapshot_id :: "snapshot \<Rightarrow> string res" where
  "next_snapshot_id p = (case parse_u64 (dropWhile (\<lambda>c. c = CHR ''s'') (snapshot_id p)) of
       None \<Rightarrow> Inl (Corrupt ''malformed snapshot id'')
     | Some n \<Rightarrow> Inr (''s'' @ pad_digits 8 ((n + 1) mod 2 ^ 64)))"

definition commit_check :: "(string \<Rightarrow> bool) \<Rightarrow> part_entry \<Rightarrow> unit res" where
  "commit_check opens p = rbind (entry_validate p) (\<lambda>_.
     if opens (entry_part_id p) then Inr () else Inl (Invariant ''refusing to commit a part which is not readable''))"

definition put_snapshot :: "snapshot \<Rightarrow> store \<Rightarrow> store" where
  "put_snapshot s st = st\<lparr>st_snaps := bt_insert (snapshot_id s) s (st_snaps st)\<rparr>"

definition commit_meta :: "(string \<Rightarrow> bool) \<Rightarrow> store \<Rightarrow> snapshot \<Rightarrow> part_entry list \<Rightarrow> nat \<Rightarrow> string option \<Rightarrow>
    snapshot_meta \<Rightarrow> i64 \<Rightarrow> (snapshot \<times> store list) res" where
  "commit_meta opens st parent parts next_seq active meta now_ms =
     rbind (check_all (commit_check opens) parts) (\<lambda>_.
     rbind (next_snapshot_id parent) (\<lambda>i.
       let snap = \<lparr>snapshot_id = i, sn_parent = Some (snapshot_id parent), sn_parts = parts, sn_next_seq = next_seq,
             sn_active_generation = active, sn_generations = me_generations meta, sn_bridges = me_bridges meta,
             sn_baselines = me_baselines meta, sn_tombstones = me_tombstones meta,
             sn_applied_wal_record = me_applied_wal_record meta, sn_created_at_ms = now_ms\<rparr>;
           st1 = put_snapshot snap st;
           st2 = st1\<lparr>st_current := Some i\<rparr> in
       Inr (snap, [st, st1, st2])))"

definition commit :: "(string \<Rightarrow> bool) \<Rightarrow> store \<Rightarrow> snapshot \<Rightarrow> part_entry list \<Rightarrow> nat \<Rightarrow> string option \<Rightarrow> i64 \<Rightarrow>
    (snapshot \<times> store list) res" where
  "commit opens st parent parts next_seq active now_ms =
     commit_meta opens st parent parts next_seq active (meta_of parent) now_ms"

section \<open>Deletes and rollback\<close>

definition add_tombstone :: "string \<Rightarrow> string list \<Rightarrow> string list" where
  "add_tombstone i ts = (case binary_search ts i of Inr _ \<Rightarrow> ts | Inl pos \<Rightarrow> take pos ts @ i # drop pos ts)"

definition delete :: "(string \<Rightarrow> bool) \<Rightarrow> store \<Rightarrow> string list \<Rightarrow> i64 \<Rightarrow> (nat \<times> store list) res" where
  "delete opens st event_ids now_ms = rbind (current st) (\<lambda>snap.
     let tombstones = fold add_tombstone event_ids (sn_tombstones snap);
         added = length tombstones - length (sn_tombstones snap) in
     if added = 0 then Inr (0, [st])
     else rbind (commit_meta opens st snap (sn_parts snap) (sn_next_seq snap) (sn_active_generation snap)
            ((meta_of snap)\<lparr>me_tombstones := tombstones\<rparr>) now_ms) (\<lambda>(_, trace). Inr (added, trace)))"

definition rollback :: "(string \<Rightarrow> bool) \<Rightarrow> store \<Rightarrow> string \<Rightarrow> i64 \<Rightarrow> (string \<times> store list) res" where
  "rollback opens st target_id now_ms =
     rbind (load_snapshot st target_id) (\<lambda>target.
     rbind (current st) (\<lambda>cur.
     rbind (commit opens st cur (sn_parts target) (max (sn_next_seq cur) (sn_next_seq target)) (sn_active_generation target)
        now_ms) (\<lambda>(snap, trace). Inr (snapshot_id snap, trace))))"

section \<open>Garbage collection\<close>

definition saturating_sub_i64 :: "i64 \<Rightarrow> i64 \<Rightarrow> i64" where
  "saturating_sub_i64 a b = max (- (2 ^ 63)) (min (2 ^ 63 - 1) (a - b))"

record retained_set =
  rt_snapshots :: "string list"
  rt_parts :: "string list"

definition bs_insert :: "'a::linorder \<Rightarrow> 'a list \<Rightarrow> 'a list" where
  "bs_insert x xs = map fst (bt_insert x () (map (\<lambda>y. (y, ())) xs))"

definition retained :: "store \<Rightarrow> nat \<Rightarrow> i64 \<Rightarrow> retained_set res" where
  "retained st retain_snapshots now_ms =
     (let retain = max retain_snapshots 1 in
      rbind (current st) (\<lambda>cur.
        let all_snaps = list_snapshots st;
            horizon_floor = saturating_sub_i64 now_ms GC_HORIZON_MS;
            newest = fold bs_insert (take retain (rev all_snaps) @ [snapshot_id cur]) [];
            snaps = fold (\<lambda>i acc. if i \<in> set acc then acc
              else case load_snapshot st i of
                  Inr s \<Rightarrow> if horizon_floor < sn_created_at_ms s then bs_insert i acc else acc
                | Inl _ \<Rightarrow> acc) all_snaps newest;
            parts = fold (\<lambda>i acc. case load_snapshot st i of
                  Inr s \<Rightarrow> fold bs_insert (part_ids s) acc | Inl _ \<Rightarrow> acc) snaps [] in
        Inr \<lparr>rt_snapshots = snaps, rt_parts = parts\<rparr>))"

definition ends_with :: "string \<Rightarrow> string \<Rightarrow> bool" where
  "ends_with suffix s \<longleftrightarrow> length suffix \<le> length s \<and> drop (length s - length suffix) s = suffix"

record gc_report =
  gc_dry_run :: bool
  gc_retained_snapshots :: "string list"
  gc_removed_parts :: "string list"
  gc_removed_snapshots :: "string list"

definition remove_part :: "string \<Rightarrow> store \<Rightarrow> store" where
  "remove_part p st = st\<lparr>st_parts := filter (\<lambda>q. q \<noteq> p) (st_parts st)\<rparr>"

definition remove_snapshot :: "string \<Rightarrow> store \<Rightarrow> store" where
  "remove_snapshot i st = st\<lparr>st_snaps := bt_remove i (st_snaps st)\<rparr>"

fun run_steps :: "('s \<Rightarrow> 's) list \<Rightarrow> 's \<Rightarrow> 's list" where
  "run_steps [] s = [s]"
| "run_steps (f # fs) s = s # run_steps fs (f s)"

definition gc_at :: "store \<Rightarrow> nat \<Rightarrow> i64 \<Rightarrow> bool \<Rightarrow> (gc_report \<times> store list) res" where
  "gc_at st retain_snapshots now_ms dry_run =
     rbind (retained st retain_snapshots now_ms) (\<lambda>r.
       let gone_parts = filter (\<lambda>p. \<not> (p \<in> set (rt_parts r) \<and> \<not> ends_with ''.tmp'' p)) (st_parts st);
           gone_snaps = filter (\<lambda>i. i \<notin> set (rt_snapshots r)) (list_snapshots st) in
       Inr (\<lparr>gc_dry_run = dry_run, gc_retained_snapshots = rt_snapshots r, gc_removed_parts = sort gone_parts,
              gc_removed_snapshots = sort gone_snaps\<rparr>,
            if dry_run then [st] else run_steps (map remove_part gone_parts @ map remove_snapshot gone_snaps) st))"

definition gc :: "store \<Rightarrow> nat \<Rightarrow> bool \<Rightarrow> (gc_report \<times> store list) res" where
  "gc st retain_snapshots dry_run = gc_at st retain_snapshots (2 ^ 63 - 1) dry_run"

section \<open>Snapshot names\<close>

lemma nat_of_digits_zeros: "nat_of_digits (replicate k (CHR ''0'') @ d) = nat_of_digits d"
  by (induction k) (simp_all add: nat_of_digits_def digit_val_def)

lemma parse_pad:
  assumes "n < 2 ^ 64"
  shows "parse_u64 (dropWhile (\<lambda>c. c = CHR ''s'') (''s'' @ pad_digits w n)) = Some n"
proof -
  have d: "list_all is_digit (pad_digits w n)" "pad_digits w n \<noteq> []" "nat_of_digits (pad_digits w n) = n"
    using nat_str_digits [of n] nat_str_nonempty [of n]
    by (auto simp: pad_digits_def list_all_iff nat_of_digits_zeros is_digit_def)
  obtain c r where c: "pad_digits w n = c # r" using d(2) by (cases "pad_digits w n") auto
  have "c \<noteq> CHR ''s''" "c \<noteq> CHR ''+''" using d(1) c by (auto simp: is_digit_def)
  then show ?thesis using d c assms by (simp add: parse_u64_def Let_def)
qed

lemma next_snapshot_id_fresh:
  assumes "next_snapshot_id p = Inr i"
  shows "i \<noteq> snapshot_id p"
proof
  assume e: "i = snapshot_id p"
  obtain n where n: "parse_u64 (dropWhile (\<lambda>c. c = CHR ''s'') (snapshot_id p)) = Some n"
    and i: "i = ''s'' @ pad_digits 8 ((n + 1) mod 2 ^ 64)"
    using assms by (auto simp: next_snapshot_id_def split: option.splits)
  have "n < 2 ^ 64" using n by (auto simp: parse_u64_def Let_def split: if_splits list.splits)
  moreover have "(n + 1) mod 2 ^ 64 = n"
    using parse_pad [of "(n + 1) mod 2 ^ 64" 8] n i e by simp
  ultimately show False by (cases "n + 1 = 2 ^ 64") auto
qed

section \<open>Commits\<close>

lemma load_put: "load_snapshot (put_snapshot s st) i = (if i = snapshot_id s then Inr s else load_snapshot st i)"
  by (simp add: load_snapshot_def put_snapshot_def)

lemma load_current [simp]: "load_snapshot (st\<lparr>st_current := c\<rparr>) i = load_snapshot st i"
  by (simp add: load_snapshot_def)

lemma current_id: "current st = Inr s \<Longrightarrow> st_current st = Some i \<Longrightarrow> snapshot_id s = i"
  by (auto simp: current_def load_snapshot_def split: option.splits if_splits)

lemma commit_meta_trace:
  assumes "commit_meta opens st parent parts seq act meta now = Inr (snap, trace)"
  shows "trace = [st, put_snapshot snap st, (put_snapshot snap st)\<lparr>st_current := Some (snapshot_id snap)\<rparr>]
    \<and> next_snapshot_id parent = Inr (snapshot_id snap) \<and> sn_parts snap = parts \<and> sn_tombstones snap = me_tombstones meta
    \<and> sn_generations snap = me_generations meta \<and> sn_active_generation snap = act \<and> sn_next_seq snap = seq
    \<and> sn_applied_wal_record snap = me_applied_wal_record meta \<and> sn_parent snap = Some (snapshot_id parent)
    \<and> sn_created_at_ms snap = now \<and> list_all (\<lambda>p. opens (entry_part_id p)) parts"
  using assms
  by (auto simp: commit_meta_def Let_def rbind_Inr_iff check_all_ok commit_check_def list_all_iff is_ok_iff split: if_splits)

lemma commit_current:
  assumes "current st = Inr parent" and "commit_meta opens st parent parts seq act meta now = Inr (snap, trace)"
  shows "current (put_snapshot snap st) = Inr parent
    \<and> current ((put_snapshot snap st)\<lparr>st_current := Some (snapshot_id snap)\<rparr>) = Inr snap"
proof
  note c = commit_meta_trace [OF assms(2)]
  have ne: "snapshot_id snap \<noteq> snapshot_id parent" using c next_snapshot_id_fresh by blast
  show "current (put_snapshot snap st) = Inr parent"
  proof (cases "st_current st")
    case None
    then show ?thesis using assms(1) by (simp add: current_def put_snapshot_def)
  next
    case (Some i)
    have "i \<noteq> snapshot_id snap" using current_id [OF assms(1) Some] ne by simp
    then have "load_snapshot (put_snapshot snap st) i = load_snapshot st i" by (simp add: load_put)
    then show ?thesis using Some assms(1) by (simp add: current_def put_snapshot_def)
  qed
  show "current ((put_snapshot snap st)\<lparr>st_current := Some (snapshot_id snap)\<rparr>) = Inr snap"
    by (simp add: current_def load_put)
qed

section \<open>Collections of names\<close>

lemma set_bs_insert [simp]: "set (bs_insert x xs) = insert x (set xs)"
  using bt_keys_insert [of x "()" "map (\<lambda>y. (y, ())) xs"] by (simp add: bs_insert_def o_def)

lemma set_fold_bs_insert [simp]: "set (fold bs_insert xs acc) = set xs \<union> set acc"
  by (induction xs arbitrary: acc) auto

lemma fold_retain_set:
  "set (fold (\<lambda>i acc. if i \<in> set acc then acc else case f i of Inr s \<Rightarrow> if Q s then bs_insert i acc else acc | Inl _ \<Rightarrow> acc) xs acc)
     = set acc \<union> {i \<in> set xs. \<exists>s. f i = Inr s \<and> Q s}"
  by (induction xs arbitrary: acc) (auto split: sum.splits)

lemma fold_parts_set:
  "set (fold (\<lambda>i acc. case f i of Inr s \<Rightarrow> fold bs_insert (g s) acc | Inl _ \<Rightarrow> acc) xs acc)
     = set acc \<union> (\<Union>i \<in> set xs. case f i of Inr s \<Rightarrow> set (g s) | Inl _ \<Rightarrow> {})"
  by (induction xs arbitrary: acc) (auto split: sum.splits)

lemma retained_ok:
  assumes "retained st n now = Inr r" and "current st = Inr cur"
  shows "set (rt_snapshots r) = set (take (max n 1) (rev (list_snapshots st))) \<union> {snapshot_id cur}
       \<union> {i \<in> set (list_snapshots st). \<exists>s. load_snapshot st i = Inr s \<and> saturating_sub_i64 now GC_HORIZON_MS < sn_created_at_ms s}
    \<and> set (rt_parts r) = (\<Union>i \<in> set (rt_snapshots r). case load_snapshot st i of Inr s \<Rightarrow> set (part_ids s) | Inl _ \<Rightarrow> {})"
proof -
  have "set (rt_snapshots r) = set (fold bs_insert (take (max n 1) (rev (list_snapshots st)) @ [snapshot_id cur]) [])
      \<union> {i \<in> set (list_snapshots st). \<exists>s. load_snapshot st i = Inr s \<and> saturating_sub_i64 now GC_HORIZON_MS < sn_created_at_ms s}"
    using assms unfolding retained_def Let_def by (simp only: rbind_simps fold_retain_set [symmetric]) auto
  moreover have "set (rt_parts r) = (\<Union>i \<in> set (rt_snapshots r). case load_snapshot st i of Inr s \<Rightarrow> set (part_ids s) | Inl _ \<Rightarrow> {})"
    using assms unfolding retained_def Let_def by (auto simp: fold_parts_set)
  ultimately show ?thesis by simp
qed

lemma run_steps_inv:
  assumes "P s" and "\<And>f s. f \<in> set fs \<Longrightarrow> P s \<Longrightarrow> P (f s)"
  shows "\<forall>t \<in> set (run_steps fs s). P t"
  using assms by (induction fs arbitrary: s) auto

section \<open>Properties\<close>


definition empty_store :: store where
  "empty_store = \<lparr>st_current = None, st_snaps = [], st_parts = [''p'']\<rparr>"

lemma empty_store_current: "current empty_store = Inr empty_snapshot"
  by (simp add: empty_store_def current_def)

lemma first_snapshot_id: "next_snapshot_id empty_snapshot = Inr ''s00000001''"
proof -
  have n: "nat_str 1 = ''1''" by (simp add: nat_str.simps digit_char_def char_of_eq_iff)
  have r: "replicate 7 (CHR ''0'') = ''0000000''" by (simp add: numeral_eq_Suc)
  show ?thesis
    by (simp add: next_snapshot_id_def empty_snapshot_def parse_u64_def is_digit_def nat_of_digits_def digit_val_def
        pad_digits_def n [simplified] r)
qed


text \<open>
  C4. Collection never takes what it must keep, at any crash point: in every state it goes through, the live
  snapshot is the same, every retained snapshot loads as before, and every part directory a
  retained snapshot names is still there unless its name ends in \<open>.tmp\<close>. Retained are the live snapshot, the
  newest of the count, and every snapshot younger than the horizon.
\<close>

theorem gc_safe:
  assumes "current st = Inr cur" and "gc_at st n now dry = Inr (rep, trace)" and "s \<in> set trace"
  shows "current s = Inr cur \<and> snapshot_id cur \<in> set (gc_retained_snapshots rep)
    \<and> set (take (max n 1) (rev (list_snapshots st))) \<subseteq> set (gc_retained_snapshots rep)
    \<and> (\<forall>i x. i \<in> set (list_snapshots st) \<and> load_snapshot st i = Inr x \<and> saturating_sub_i64 now GC_HORIZON_MS < sn_created_at_ms x
         \<longrightarrow> i \<in> set (gc_retained_snapshots rep))
    \<and> (\<forall>i \<in> set (gc_retained_snapshots rep). load_snapshot s i = load_snapshot st i
         \<and> (\<forall>x. load_snapshot st i = Inr x \<longrightarrow> set (part_ids x) \<inter> {p \<in> set (st_parts st). \<not> ends_with ''.tmp'' p} \<subseteq> set (st_parts s)))"
proof -
  obtain r where r: "retained st n now = Inr r" and rep: "gc_retained_snapshots rep = rt_snapshots r"
    and t: "trace = (if dry then [st] else run_steps
        (map remove_part (filter (\<lambda>p. \<not> (p \<in> set (rt_parts r) \<and> \<not> ends_with ''.tmp'' p)) (st_parts st))
          @ map remove_snapshot (filter (\<lambda>i. i \<notin> set (rt_snapshots r)) (list_snapshots st))) st)"
    using assms(2) by (auto simp: gc_at_def Let_def rbind_Inr_iff)
  note k = retained_ok [OF r assms(1)]
  define P where "P = (\<lambda>s :: store. st_current s = st_current st
      \<and> (\<forall>i \<in> set (rt_snapshots r). bt_get (st_snaps s) i = bt_get (st_snaps st) i)
      \<and> {p \<in> set (st_parts st). p \<in> set (rt_parts r) \<and> \<not> ends_with ''.tmp'' p} \<subseteq> set (st_parts s))"
  let ?fs = "map remove_part (filter (\<lambda>p. \<not> (p \<in> set (rt_parts r) \<and> \<not> ends_with ''.tmp'' p)) (st_parts st))
      @ map remove_snapshot (filter (\<lambda>i. i \<notin> set (rt_snapshots r)) (list_snapshots st))"
  have 0: "P st" by (auto simp: P_def)
  have step: "P (f s)" if f: "f \<in> set ?fs" and s: "P s" for f s
  proof -
    consider p where "f = remove_part p" "\<not> (p \<in> set (rt_parts r) \<and> \<not> ends_with ''.tmp'' p)"
      | i where "f = remove_snapshot i" "i \<notin> set (rt_snapshots r)" using f by auto
    then show ?thesis
    proof cases
      case 1 then show ?thesis using s by (auto simp: P_def remove_part_def)
    next
      case 2
      then have "\<forall>j \<in> set (rt_snapshots r). j \<noteq> i" by blast
      then show ?thesis using s 2(1) by (simp add: P_def remove_snapshot_def)
    qed
  qed
  have "\<forall>t \<in> set (run_steps ?fs st). P t" using 0 step by (rule run_steps_inv)
  then have "P s" using assms(3) t 0 by (simp split: if_splits)
  then have load: "load_snapshot s i = load_snapshot st i" if "i \<in> set (rt_snapshots r)" for i
    using that by (simp add: P_def load_snapshot_def)
  have cur: "current s = Inr cur"
  proof (cases "st_current st")
    case None
    then show ?thesis using \<open>P s\<close> assms(1) by (simp add: P_def current_def)
  next
    case (Some i)
    then have "i \<in> set (rt_snapshots r)" using current_id [OF assms(1) Some] k by simp
    then show ?thesis using Some \<open>P s\<close> assms(1) load by (simp add: P_def current_def)
  qed
  have parts: "set (part_ids x) \<subseteq> set (rt_parts r)" if "i \<in> set (rt_snapshots r)" "load_snapshot st i = Inr x" for i x
    using that k by force
  have keep: "{p \<in> set (st_parts st). p \<in> set (rt_parts r) \<and> \<not> ends_with ''.tmp'' p} \<subseteq> set (st_parts s)"
    using \<open>P s\<close> by (simp add: P_def)
  have "set (part_ids x) \<inter> {p \<in> set (st_parts st). \<not> ends_with ''.tmp'' p} \<subseteq> set (st_parts s)"
    if "i \<in> set (rt_snapshots r)" "load_snapshot st i = Inr x" for i x
    using parts [OF that] keep by blast
  moreover have "snapshot_id cur \<in> set (rt_snapshots r)" "set (take (max n 1) (rev (list_snapshots st))) \<subseteq> set (rt_snapshots r)"
    "\<And>i x. i \<in> set (list_snapshots st) \<Longrightarrow> load_snapshot st i = Inr x \<Longrightarrow>
       saturating_sub_i64 now GC_HORIZON_MS < sn_created_at_ms x \<Longrightarrow> i \<in> set (rt_snapshots r)"
    using k by auto
  ultimately show ?thesis unfolding rep using cur load by blast
qed

theorem gc_safe_witness:
  "\<exists>rep s. gc_at empty_store 1 10 False = Inr (rep, s) \<and> current (last s) = Inr empty_snapshot"
proof -
  obtain rep trace where g: "gc_at empty_store 1 10 False = Inr (rep, trace)"
    by (simp add: gc_at_def retained_def empty_store_current Let_def)
  have "trace \<noteq> []" using g by (auto simp: gc_at_def rbind_Inr_iff Let_def elim: run_steps.elims)
  then have "last trace \<in> set trace" by simp
  from gc_safe [OF empty_store_current g this] show ?thesis using g by blast
qed

text \<open>
  C28. What a rollback restores. It commits the parts and the active generation of the target snapshot,
  but the tombstones and the lifecycle states of the snapshot that was live: an event deleted when
  the target was live is visible again when its tombstone has been cleared since, and generation
  states are not rolled back.
\<close>

theorem rollback_contents:
  assumes "load_snapshot st i = Inr target" and "current st = Inr cur" and "rollback opens st i now = Inr (new_id, trace)"
  shows "\<exists>snap. current (last trace) = Inr snap \<and> snapshot_id snap = new_id
    \<and> sn_parts snap = sn_parts target \<and> sn_active_generation snap = sn_active_generation target
    \<and> sn_tombstones snap = sn_tombstones cur \<and> sn_generations snap = sn_generations cur
    \<and> (\<forall>e. is_tombstoned snap e \<longleftrightarrow> is_tombstoned cur e)"
proof -
  obtain snap where c: "commit_meta opens st cur (sn_parts target) (max (sn_next_seq cur) (sn_next_seq target))
      (sn_active_generation target) (meta_of cur) now = Inr (snap, trace)" and n: "new_id = snapshot_id snap"
    using assms by (auto simp: rollback_def commit_def rbind_Inr_iff)
  show ?thesis
    using commit_meta_trace [OF c] commit_current [OF assms(2) c] n
    by (intro exI [of _ snap]) (auto simp: meta_of_def is_tombstoned_def)
qed

definition rolled_store :: store where
  "rolled_store = \<lparr>st_current = Some ''s2'',
     st_snaps = [(''s1'', empty_snapshot\<lparr>snapshot_id := ''s1'', sn_tombstones := [''e'']\<rparr>),
                 (''s2'', empty_snapshot\<lparr>snapshot_id := ''s2''\<rparr>)], st_parts = []\<rparr>"

theorem rollback_contents_witness:
  "is_tombstoned (empty_snapshot\<lparr>snapshot_id := ''s1'', sn_tombstones := [''e'']\<rparr>) ''e'' \<and>
   (\<exists>i trace snap. rollback (\<lambda>_. True) rolled_store ''s1'' 9 = Inr (i, trace) \<and> current (last trace) = Inr snap \<and> \<not> is_tombstoned snap ''e'')"
proof
  show "is_tombstoned (empty_snapshot\<lparr>snapshot_id := ''s1'', sn_tombstones := [''e'']\<rparr>) ''e''"
    by (simp add: is_tombstoned_def binary_search_def)
  let ?t = "empty_snapshot\<lparr>snapshot_id := ''s1'', sn_tombstones := [''e'']\<rparr>" and ?c = "empty_snapshot\<lparr>snapshot_id := ''s2''\<rparr>"
  have l: "load_snapshot rolled_store ''s1'' = Inr ?t" "current rolled_store = Inr ?c"
    by (simp_all add: load_snapshot_def current_def rolled_store_def bt_get_def)
  have "is_ok (next_snapshot_id ?c)"
    by (simp add: next_snapshot_id_def parse_u64_def is_digit_def nat_of_digits_def digit_val_def)
  then have "is_ok (rollback (\<lambda>_. True) rolled_store ''s1'' 9)"
    using l by (auto simp: rollback_def commit_def commit_meta_def empty_snapshot_def Let_def is_ok_iff)
  then obtain i trace where r: "rollback (\<lambda>_. True) rolled_store ''s1'' 9 = Inr (i, trace)"
    by (auto simp: is_ok_iff)
  have "\<not> is_tombstoned ?c ''e''" by (simp add: is_tombstoned_def binary_search_def empty_snapshot_def)
  then show "\<exists>i trace snap. rollback (\<lambda>_. True) rolled_store ''s1'' 9 = Inr (i, trace) \<and> current (last trace) = Inr snap \<and> \<not> is_tombstoned snap ''e''"
    using rollback_contents [OF l r] r by blast
qed

end
