(* ===== verification/Objects.thy ===== *)
theory Objects
  imports Hashing Text
begin

unbundle bit_operations_syntax

text \<open>
  Object storage, \<open>prism-engine/src/storage/object.rs\<close>: the \<open>ObjectStore\<close> trait as a record of operations
  over a state, its local directory backend, the fault-injecting wrapper, publication by
  compare-and-swap, and the content-verified block cache. The local backend is a map from keys to
  bytes; keys are taken as plain relative paths and errors of the operating system are left to the
  wrapper. The locale \<open>create_only\<close> is what publication relies on: nobody changes an object that exists,
  and a call that fails may or may not have landed.
\<close>

section \<open>The trait\<close>

record 's object_store =
  os_get :: "string \<Rightarrow> 's \<Rightarrow> byte list res \<times> 's"
  os_get_range :: "string \<Rightarrow> nat \<Rightarrow> nat \<Rightarrow> 's \<Rightarrow> byte list res \<times> 's"
  os_put :: "string \<Rightarrow> byte list \<Rightarrow> 's \<Rightarrow> unit res \<times> 's"
  os_put_if_absent :: "string \<Rightarrow> byte list \<Rightarrow> 's \<Rightarrow> bool res \<times> 's"
  os_head :: "string \<Rightarrow> 's \<Rightarrow> nat option res \<times> 's"
  os_delete :: "string \<Rightarrow> 's \<Rightarrow> unit res \<times> 's"
  os_list :: "string \<Rightarrow> 's \<Rightarrow> string list res \<times> 's"

section \<open>The local backend\<close>

type_synonym local_store = "(string \<times> byte list) list"

definition local_get :: "string \<Rightarrow> local_store \<Rightarrow> byte list res" where
  "local_get key d = (case bt_get d key of Some b \<Rightarrow> Inr b | None \<Rightarrow> Inl (NotFound ''object does not exist''))"

definition local_get_range :: "string \<Rightarrow> nat \<Rightarrow> nat \<Rightarrow> local_store \<Rightarrow> byte list res" where
  "local_get_range key offset len d = (case bt_get d key of
       None \<Rightarrow> Inl (NotFound ''object does not exist'')
     | Some b \<Rightarrow>
         if 2 ^ 64 \<le> offset + len then Inl (Corrupt ''object range overflows'')
         else if length b < offset + len then Inl (Corrupt ''object is truncated'')
         else Inr (take len (drop offset b)))"

definition local_put_if_absent :: "string \<Rightarrow> byte list \<Rightarrow> local_store \<Rightarrow> bool \<times> local_store" where
  "local_put_if_absent key bytes d =
     (case bt_get d key of Some _ \<Rightarrow> (False, d) | None \<Rightarrow> (True, bt_insert key bytes d))"

definition starts_with :: "string \<Rightarrow> string \<Rightarrow> bool" where
  "starts_with p s \<longleftrightarrow> take (length p) s = p"

text \<open>\<open>list\<close> walks the directory the prefix names; a prefix that names a file cannot be read as a directory.\<close>

definition local_list :: "string \<Rightarrow> local_store \<Rightarrow> string list res" where
  "local_list prefix d =
     (if bt_get d prefix \<noteq> None then Inl (Io ''not a directory'')
      else let dir = (if prefix = [] \<or> last prefix = CHR ''/'' then prefix else prefix @ ''/'') in
        Inr (sort (filter (starts_with dir) (map fst d))))"

definition local_ops :: "local_store object_store" where
  "local_ops = \<lparr>
     os_get = (\<lambda>key d. (local_get key d, d)),
     os_get_range = (\<lambda>key offset len d. (local_get_range key offset len d, d)),
     os_put = (\<lambda>key bytes d. (Inr (), bt_insert key bytes d)),
     os_put_if_absent = (\<lambda>key bytes d. case local_put_if_absent key bytes d of (r, d') \<Rightarrow> (Inr r, d')),
     os_head = (\<lambda>key d. (Inr (map_option length (bt_get d key)), d)),
     os_delete = (\<lambda>key d. (Inr (), bt_remove key d)),
     os_list = (\<lambda>prefix d. (local_list prefix d, d))\<rparr>"

section \<open>The fault-injecting wrapper\<close>

record fault_config =
  unavailable :: bool
  truncate_reads :: bool
  fail_next :: bool

type_synonym 's fault_store = "'s \<times> fault_config"

definition gate :: "fault_config \<Rightarrow> unit res \<times> fault_config" where
  "gate cfg =
     (if unavailable cfg then (Inl (Io ''remote unavailable: injected connection failure''), cfg)
      else if fail_next cfg then (Inl (Io ''remote error: injected 5xx''), cfg\<lparr>fail_next := False\<rparr>)
      else (Inr (), cfg))"

definition gated :: "('s \<Rightarrow> 'a res \<times> 's) \<Rightarrow> 's fault_store \<Rightarrow> 'a res \<times> 's fault_store" where
  "gated call st = (case st of (s, cfg) \<Rightarrow> case gate cfg of
       (Inl e, cfg') \<Rightarrow> (Inl e, (s, cfg'))
     | (Inr _, cfg') \<Rightarrow> (case call s of (r, s') \<Rightarrow> (r, (s', cfg'))))"

definition fault_get_range :: "'s object_store \<Rightarrow> string \<Rightarrow> nat \<Rightarrow> nat \<Rightarrow> 's fault_store \<Rightarrow> byte list res \<times> 's fault_store" where
  "fault_get_range ops key offset len st =
     gated (\<lambda>s. if truncate_reads (snd st) then (Inl (Corrupt ''object is truncated: injected short body''), s)
                else os_get_range ops key offset len s) st"

definition fault_ops :: "'s object_store \<Rightarrow> 's fault_store object_store" where
  "fault_ops ops = \<lparr>
     os_get = (\<lambda>key. gated (os_get ops key)),
     os_get_range = fault_get_range ops,
     os_put = (\<lambda>key bytes. gated (os_put ops key bytes)),
     os_put_if_absent = (\<lambda>key bytes. gated (os_put_if_absent ops key bytes)),
     os_head = (\<lambda>key. gated (os_head ops key)),
     os_delete = (\<lambda>key. gated (os_delete ops key)),
     os_list = (\<lambda>prefix. gated (os_list ops prefix))\<rparr>"

section \<open>Publication by compare-and-swap\<close>

datatype cas_outcome = Created | AlreadyOurs | Conflict

definition read_back :: "'s object_store \<Rightarrow> string \<Rightarrow> byte list \<Rightarrow> 's \<Rightarrow> cas_outcome res \<times> 's" where
  "read_back ops key bytes s = (case os_get ops key s of
       (Inl e, s') \<Rightarrow> (Inl e, s')
     | (Inr existing, s') \<Rightarrow> (Inr (if existing = bytes then AlreadyOurs else Conflict), s'))"

definition cas_retry :: "'s object_store \<Rightarrow> string \<Rightarrow> byte list \<Rightarrow> 's \<Rightarrow> cas_outcome res \<times> 's" where
  "cas_retry ops key bytes s = (case os_put_if_absent ops key bytes s of
       (Inr True, s') \<Rightarrow> (Inr Created, s')
     | (Inr False, s') \<Rightarrow> read_back ops key bytes s'
     | (Inl _, s') \<Rightarrow> (Inl (Io ''CAS publish failed ambiguously and could not be resolved''), s'))"

definition cas_resolve :: "'s object_store \<Rightarrow> string \<Rightarrow> byte list \<Rightarrow> 's \<Rightarrow> cas_outcome res \<times> 's" where
  "cas_resolve ops key bytes s = (case os_get ops key s of
       (Inr existing, s') \<Rightarrow> (Inr (if existing = bytes then AlreadyOurs else Conflict), s')
     | (Inl e, s') \<Rightarrow> (case e of NotFound _ \<Rightarrow> cas_retry ops key bytes s' | _ \<Rightarrow> (Inl e, s')))"

definition cas_publish :: "'s object_store \<Rightarrow> string \<Rightarrow> byte list \<Rightarrow> 's \<Rightarrow> cas_outcome res \<times> 's" where
  "cas_publish ops key bytes s = (case os_put_if_absent ops key bytes s of
       (Inr True, s') \<Rightarrow> (Inr Created, s')
     | (Inr False, s') \<Rightarrow> read_back ops key bytes s'
     | (Inl e, s') \<Rightarrow> (case e of Io _ \<Rightarrow> cas_resolve ops key bytes s' | _ \<Rightarrow> (Inl e, s')))"

definition cas_probe :: string where "cas_probe = ''catalog/.cas-capability-probe''"

definition assert_cas_capability :: "'s object_store \<Rightarrow> 's \<Rightarrow> unit res \<times> 's" where
  "assert_cas_capability ops s0 = (case os_delete ops cas_probe s0 of (_, s1) \<Rightarrow>
     case os_put_if_absent ops cas_probe [97] s1 of
       (Inl e, s2) \<Rightarrow> (Inl e, s2)
     | (Inr first, s2) \<Rightarrow> (case os_put_if_absent ops cas_probe [98] s2 of
           (Inl e, s3) \<Rightarrow> (Inl e, s3)
         | (Inr second, s3) \<Rightarrow> (case os_delete ops cas_probe s3 of (_, s4) \<Rightarrow>
             (if first \<and> \<not> second then Inr ()
              else Inl (Invariant ''storage backend does not provide conditional-create''), s4))))"

section \<open>The content-verified cache\<close>

record cache_stats =
  cs_hits :: nat
  cs_misses :: nat
  cs_corrupt_repaired :: nat
  cs_evictions :: nat

type_synonym cache_key = "string \<times> nat \<times> nat"

record cache_entry =
  ce_bytes :: "byte list"
  ce_crc :: u32

record cache_inner =
  ci_map :: "cache_key \<rightharpoonup> cache_entry"
  ci_lru :: "cache_key list"
  ci_bytes :: nat
  ci_stats :: cache_stats

definition cache_new :: cache_inner where
  "cache_new = \<lparr>ci_map = Map.empty, ci_lru = [], ci_bytes = 0,
     ci_stats = \<lparr>cs_hits = 0, cs_misses = 0, cs_corrupt_repaired = 0, cs_evictions = 0\<rparr>\<rparr>"

definition touch :: "cache_key list \<Rightarrow> cache_key \<Rightarrow> cache_key list" where
  "touch lru k = remove1 k lru @ [k]"

definition cache_remove :: "cache_inner \<Rightarrow> cache_key \<Rightarrow> cache_inner" where
  "cache_remove g k =
     (case ci_map g k of
        Some e \<Rightarrow> g\<lparr>ci_map := (ci_map g)(k := None), ci_bytes := ci_bytes g - length (ce_bytes e)\<rparr>
      | None \<Rightarrow> g)\<lparr>ci_lru := remove1 k (ci_lru g)\<rparr>"

definition cache_get :: "cache_key \<Rightarrow> cache_inner \<Rightarrow> byte list option \<times> cache_inner" where
  "cache_get k g = (case ci_map g k of
       Some e \<Rightarrow>
         if crc32 (ce_bytes e) = ce_crc e
         then (Some (ce_bytes e), g\<lparr>ci_stats := (ci_stats g)\<lparr>cs_hits := cs_hits (ci_stats g) + 1\<rparr>, ci_lru := touch (ci_lru g) k\<rparr>)
         else (None, (cache_remove g k)\<lparr>ci_stats := (ci_stats g)\<lparr>cs_corrupt_repaired := cs_corrupt_repaired (ci_stats g) + 1\<rparr>\<rparr>)
     | None \<Rightarrow> (None, g\<lparr>ci_stats := (ci_stats g)\<lparr>cs_misses := cs_misses (ci_stats g) + 1\<rparr>\<rparr>))"

text \<open>The eviction loop; it ends because every round takes a key off the queue.\<close>

function evict_loop :: "nat \<Rightarrow> nat \<Rightarrow> cache_inner \<Rightarrow> cache_inner" where
  "evict_loop quota sz g =
     (if quota < ci_bytes g + sz then
        (case ci_lru g of
           [] \<Rightarrow> g
         | victim # rest \<Rightarrow> evict_loop quota sz (case ci_map g victim of
               Some e \<Rightarrow> g\<lparr>ci_lru := rest, ci_map := (ci_map g)(victim := None),
                            ci_bytes := ci_bytes g - length (ce_bytes e),
                            ci_stats := (ci_stats g)\<lparr>cs_evictions := cs_evictions (ci_stats g) + 1\<rparr>\<rparr>
             | None \<Rightarrow> g\<lparr>ci_lru := rest\<rparr>))
      else g)"
  by pat_completeness auto
termination
  by (relation "measure (\<lambda>(_, _, g). length (ci_lru g))") (auto split: option.splits)

declare evict_loop.simps [simp del]

definition cache_insert :: "nat \<Rightarrow> cache_key \<Rightarrow> byte list \<Rightarrow> cache_inner \<Rightarrow> cache_inner" where
  "cache_insert quota k bytes g =
     (if quota < length bytes then g
      else if ci_map g k \<noteq> None then g
      else let g = evict_loop quota (length bytes) g in
        g\<lparr>ci_bytes := ci_bytes g + length bytes,
          ci_map := (ci_map g)(k \<mapsto> \<lparr>ce_bytes = bytes, ce_crc = crc32 bytes\<rparr>),
          ci_lru := ci_lru g @ [k]\<rparr>)"

text \<open>The hook that damages a cached entry by inverting its first byte.\<close>

definition flip_first :: "byte list \<Rightarrow> byte list" where
  "flip_first bs = (case bs of [] \<Rightarrow> [] | b # r \<Rightarrow> (b XOR 0xFF) # r)"

definition corrupt_entry :: "cache_key \<Rightarrow> cache_inner \<Rightarrow> cache_inner" where
  "corrupt_entry k g = (case ci_map g k of
       Some e \<Rightarrow> g\<lparr>ci_map := (ci_map g)(k \<mapsto> e\<lparr>ce_bytes := flip_first (ce_bytes e)\<rparr>)\<rparr>
     | None \<Rightarrow> g)"

definition get_range_cached :: "'s object_store \<Rightarrow> nat \<Rightarrow> string \<Rightarrow> nat \<Rightarrow> nat \<Rightarrow> 's \<times> cache_inner \<Rightarrow>
    byte list res \<times> 's \<times> cache_inner" where
  "get_range_cached remote quota key offset len st = (case st of (s, g) \<Rightarrow>
     case cache_get (key, offset, len) g of
       (Some bytes, g') \<Rightarrow> (Inr bytes, s, g')
     | (None, g') \<Rightarrow> (case os_get_range remote key offset len s of
           (Inl e, s') \<Rightarrow> (Inl e, s', g')
         | (Inr bytes, s') \<Rightarrow> (Inr bytes, s', cache_insert quota (key, offset, len) bytes g')))"

section \<open>What publication relies on\<close>

definition grows :: "(string \<rightharpoonup> byte list) \<Rightarrow> (string \<rightharpoonup> byte list) \<Rightarrow> bool" where
  "grows m m' \<longleftrightarrow> m \<subseteq>\<^sub>m m'"

lemma grows_refl [simp]: "grows m m"
  by (simp add: grows_def)

lemma grows_trans: "grows a b \<Longrightarrow> grows b c \<Longrightarrow> grows a c"
  unfolding grows_def by (rule map_le_trans)

lemma grows_keeps: "grows m m' \<Longrightarrow> m k = Some v \<Longrightarrow> m' k = Some v"
  by (auto simp: grows_def map_le_def dom_def)

text \<open>What an outcome of publication says of the objects before and after.\<close>

definition cas_result :: "(string \<rightharpoonup> byte list) \<Rightarrow> string \<Rightarrow> byte list \<Rightarrow> cas_outcome res \<Rightarrow> (string \<rightharpoonup> byte list) \<Rightarrow> bool" where
  "cas_result m k b r m' \<longleftrightarrow> grows m m' \<and> (case r of
       Inr Created \<Rightarrow> m k = None \<and> m' k = Some b
     | Inr AlreadyOurs \<Rightarrow> m' k = Some b
     | Inr Conflict \<Rightarrow> (\<exists>c. m' k = Some c \<and> c \<noteq> b)
     | Inl _ \<Rightarrow> True)"

lemma cas_result_before:
  assumes "grows m m1" and "cas_result m1 k b r m'"
  shows "cas_result m k b r m'"
proof -
  have "m k = None" if "m1 k = None" using assms(1) that grows_keeps [of m m1 k] by (cases "m k") auto
  then show ?thesis
    using assms grows_trans [of m m1 m'] by (auto simp: cas_result_def split: sum.splits cas_outcome.splits)
qed

locale create_only =
  fixes ops :: "'s object_store" and obj :: "'s \<Rightarrow> string \<rightharpoonup> byte list"
  assumes put_grows: "os_put_if_absent ops k b s = (r, s') \<Longrightarrow> grows (obj s) (obj s')"
    and put_true: "os_put_if_absent ops k b s = (Inr True, s') \<Longrightarrow> obj s k = None \<and> obj s' k = Some b"
    and put_false: "os_put_if_absent ops k b s = (Inr False, s') \<Longrightarrow> obj s' k \<noteq> None"
    and get_grows: "os_get ops k s = (q, s') \<Longrightarrow> grows (obj s) (obj s')"
    and get_some: "os_get ops k s = (Inr b, s') \<Longrightarrow> obj s' k = Some b"
    and list_grows: "os_list ops p s = (l, s') \<Longrightarrow> grows (obj s) (obj s')"
begin

lemma read_back_truth:
  assumes "read_back ops k b s = (r, s')"
  shows "cas_result (obj s) k b r (obj s')"
  using assms get_grows get_some by (auto simp: cas_result_def read_back_def split: prod.splits sum.splits if_splits)

lemma cas_retry_truth:
  assumes "cas_retry ops k b s = (r, s')"
  shows "cas_result (obj s) k b r (obj s')"
proof -
  obtain q s1 where p: "os_put_if_absent ops k b s = (q, s1)" by (cases "os_put_if_absent ops k b s")
  note g = put_grows [OF p]
  consider e where "q = Inl e" | "q = Inr True" | "q = Inr False" by (cases q) auto
  then show ?thesis
  proof cases
    case 1
    then show ?thesis using assms g p by (auto simp: cas_result_def cas_retry_def)
  next
    case 2
    then show ?thesis using assms g p put_true [of k b s s1] by (auto simp: cas_result_def cas_retry_def)
  next
    case 3
    then have "read_back ops k b s1 = (r, s')" using assms p by (simp add: cas_retry_def)
    from read_back_truth [OF this] show ?thesis by (rule cas_result_before [OF g])
  qed
qed

lemma cas_resolve_truth:
  assumes "cas_resolve ops k b s = (r, s')"
  shows "cas_result (obj s) k b r (obj s')"
proof -
  obtain q s1 where p: "os_get ops k s = (q, s1)" by (cases "os_get ops k s")
  note g = get_grows [OF p]
  show ?thesis
  proof (cases "\<exists>m. q = Inl (NotFound m)")
    case True
    then have "cas_retry ops k b s1 = (r, s')" using assms p by (auto simp: cas_resolve_def)
    from cas_retry_truth [OF this] show ?thesis by (rule cas_result_before [OF g])
  next
    case False
    then show ?thesis using assms p g get_some [of k s _ s1]
      by (auto simp: cas_result_def cas_resolve_def split: sum.splits prism_error.splits if_splits)
  qed
qed

lemma cas_truth:
  assumes "cas_publish ops k b s = (r, s')"
  shows "cas_result (obj s) k b r (obj s')"
proof -
  obtain q s1 where p: "os_put_if_absent ops k b s = (q, s1)" by (cases "os_put_if_absent ops k b s")
  note g = put_grows [OF p]
  consider m where "q = Inl (Io m)" | e where "q = Inl e" "\<nexists>m. e = Io m" | "q = Inr True" | "q = Inr False"
    by (cases q) auto
  then show ?thesis
  proof cases
    case 1
    then have "cas_resolve ops k b s1 = (r, s')" using assms p by (simp add: cas_publish_def)
    from cas_resolve_truth [OF this] show ?thesis by (rule cas_result_before [OF g])
  next
    case 2
    then show ?thesis using assms g p by (auto simp: cas_result_def cas_publish_def split: prism_error.splits)
  next
    case 3
    then show ?thesis using assms g p put_true [of k b s s1] by (auto simp: cas_result_def cas_publish_def)
  next
    case 4
    then have "read_back ops k b s1 = (r, s')" using assms p by (simp add: cas_publish_def)
    from read_back_truth [OF this] show ?thesis by (rule cas_result_before [OF g])
  qed
qed

lemma faulted: "create_only (fault_ops ops) (\<lambda>st. obj (fst st))"
proof
  show "grows (obj (fst s)) (obj (fst s'))" if "os_put_if_absent (fault_ops ops) k b s = (r, s')" for k b s r s'
    using that put_grows by (auto simp: fault_ops_def gated_def split: prod.splits sum.splits)
  show "obj (fst s) k = None \<and> obj (fst s') k = Some b" if "os_put_if_absent (fault_ops ops) k b s = (Inr True, s')" for k b s s'
    using that put_true by (auto simp: fault_ops_def gated_def split: prod.splits sum.splits)
  show "obj (fst s') k \<noteq> None" if "os_put_if_absent (fault_ops ops) k b s = (Inr False, s')" for k b s s'
    using that put_false by (force simp: fault_ops_def gated_def split: prod.splits sum.splits)
  show "grows (obj (fst s)) (obj (fst s'))" if "os_get (fault_ops ops) k s = (r, s')" for k s r s'
    using that get_grows by (auto simp: fault_ops_def gated_def split: prod.splits sum.splits)
  show "obj (fst s') k = Some b" if "os_get (fault_ops ops) k s = (Inr b, s')" for k s b s'
    using that get_some by (auto simp: fault_ops_def gated_def split: prod.splits sum.splits)
  show "grows (obj (fst s)) (obj (fst s'))" if "os_list (fault_ops ops) p s = (l, s')" for p s l s'
    using that list_grows by (auto simp: fault_ops_def gated_def split: prod.splits sum.splits)
qed

end

lemma local_create_only: "create_only local_ops bt_get"
proof
  show "grows (bt_get s) (bt_get s')" if "os_put_if_absent local_ops k b s = (r, s')" for k b s r s'
    using that by (cases "bt_get s k") (auto simp: local_ops_def local_put_if_absent_def grows_def map_le_def)
  show "bt_get s k = None \<and> bt_get s' k = Some b" if "os_put_if_absent local_ops k b s = (Inr True, s')" for k b s s'
    using that by (cases "bt_get s k") (auto simp: local_ops_def local_put_if_absent_def)
  show "bt_get s' k \<noteq> None" if "os_put_if_absent local_ops k b s = (Inr False, s')" for k b s s'
    using that by (cases "bt_get s k") (auto simp: local_ops_def local_put_if_absent_def)
  show "grows (bt_get s) (bt_get s')" if "os_get local_ops k s = (r, s')" for k s r s'
    using that by (simp add: local_ops_def)
  show "bt_get s' k = Some b" if "os_get local_ops k s = (Inr b, s')" for k s b s'
    using that by (cases "bt_get s k") (auto simp: local_ops_def local_get_def)
  show "grows (bt_get s) (bt_get s')" if "os_list local_ops p s = (l, s')" for p s l s'
    using that by (simp add: local_ops_def)
qed

interpretation disk: create_only local_ops bt_get
  by (rule local_create_only)

interpretation faulty: create_only "fault_ops local_ops" "\<lambda>st. bt_get (fst st)"
  by (rule disk.faulted)

section \<open>The cache\<close>

lemma map_le_None: "m \<subseteq>\<^sub>m m' \<Longrightarrow> m' k = None \<Longrightarrow> m k = None"
  unfolding map_le_def dom_def by (metis (mono_tags, lifting) mem_Collect_eq)

definition cache_size :: "(cache_key \<rightharpoonup> cache_entry) \<Rightarrow> cache_key list \<Rightarrow> nat" where
  "cache_size m ks = sum_list (map (\<lambda>k. length (ce_bytes (the (m k)))) ks)"

definition cache_wf :: "nat \<Rightarrow> cache_inner \<Rightarrow> bool" where
  "cache_wf quota g \<longleftrightarrow> distinct (ci_lru g) \<and> set (ci_lru g) = dom (ci_map g)
     \<and> ci_bytes g = cache_size (ci_map g) (ci_lru g) \<and> ci_bytes g \<le> quota"

lemma cache_size_simps [simp]:
  "cache_size m [] = 0" "cache_size m (k # ks) = length (ce_bytes (the (m k))) + cache_size m ks"
  "cache_size m (xs @ ys) = cache_size m xs + cache_size m ys"
  by (simp_all add: cache_size_def)

lemma cache_size_cong: "(\<And>k. k \<in> set ks \<Longrightarrow> m k = m' k) \<Longrightarrow> cache_size m ks = cache_size m' ks"
  by (induction ks) auto

lemma cache_size_remove1:
  "k \<in> set ks \<Longrightarrow> cache_size m (remove1 k ks) + length (ce_bytes (the (m k))) = cache_size m ks"
  by (induction ks) auto

lemma cache_wf_remove:
  assumes "cache_wf quota g"
  shows "cache_wf quota (cache_remove g k)" and "ci_map (cache_remove g k) = (ci_map g)(k := None)"
proof -
  show m: "ci_map (cache_remove g k) = (ci_map g)(k := None)"
    by (auto simp: cache_remove_def split: option.splits)
  have d: "distinct (ci_lru g)" "set (ci_lru g) = dom (ci_map g)" using assms by (simp_all add: cache_wf_def)
  have c: "cache_size ((ci_map g)(k := None)) (remove1 k (ci_lru g)) = cache_size (ci_map g) (remove1 k (ci_lru g))"
    by (rule cache_size_cong) (use d(1) in auto)
  show "cache_wf quota (cache_remove g k)"
  proof (cases "ci_map g k")
    case None
    then have "k \<notin> set (ci_lru g)" using d(2) by auto
    then show ?thesis using assms None by (simp add: cache_wf_def cache_remove_def remove1_idem)
  next
    case (Some e)
    then have "k \<in> set (ci_lru g)" using d(2) by auto
    then show ?thesis
      using assms Some d c cache_size_remove1 [of k "ci_lru g" "ci_map g"] by (auto simp: cache_wf_def cache_remove_def)
  qed
qed

lemma cache_wf_touch:
  assumes "cache_wf quota g" and "k \<in> dom (ci_map g)"
  shows "cache_wf quota (g\<lparr>ci_stats := x, ci_lru := touch (ci_lru g) k\<rparr>)"
  using assms cache_size_remove1 [of k "ci_lru g" "ci_map g"]
  by (auto simp: cache_wf_def touch_def)

lemma cache_get_wf:
  assumes "cache_wf quota g" and "cache_get k g = (r, g')"
  shows "cache_wf quota g' \<and> ci_map g' \<subseteq>\<^sub>m ci_map g \<and> (r = None \<longrightarrow> ci_map g' k = None)"
proof (cases "ci_map g k")
  case None
  then show ?thesis using assms by (auto simp: cache_get_def cache_wf_def)
next
  case (Some e)
  show ?thesis
  proof (cases "crc32 (ce_bytes e) = ce_crc e")
    case True
    then show ?thesis using assms Some cache_wf_touch [OF assms(1), of k] by (auto simp: cache_get_def)
  next
    case False
    then have g': "g' = (cache_remove g k)\<lparr>ci_stats := ci_stats g'\<rparr>" "r = None"
      using assms(2) Some by (auto simp: cache_get_def)
    note rem = cache_wf_remove [OF assms(1), of k]
    have "ci_map g' = (ci_map g)(k := None)" using rem(2) by (subst g'(1)) simp
    moreover have "cache_wf quota g'" using rem(1) by (subst g'(1)) (simp add: cache_wf_def)
    ultimately show ?thesis using g'(2) by (auto simp: map_le_def)
  qed
qed

lemma evict_loop_wf:
  assumes "cache_wf quota g" and "sz \<le> quota"
  shows "cache_wf quota (evict_loop quota sz g) \<and> ci_map (evict_loop quota sz g) \<subseteq>\<^sub>m ci_map g
    \<and> ci_bytes (evict_loop quota sz g) + sz \<le> quota"
  using assms
proof (induction quota sz g rule: evict_loop.induct)
  case (1 quota sz g)
  show ?case
  proof (cases "quota < ci_bytes g + sz")
    case False
    then show ?thesis using "1.prems" by (simp add: evict_loop.simps [of quota sz g])
  next
    case True
    with "1.prems" obtain v rest where lru: "ci_lru g = v # rest"
      by (cases "ci_lru g") (auto simp: cache_wf_def)
    then obtain e where e: "ci_map g v = Some e" using "1.prems" by (auto simp: cache_wf_def)
    define g1 where "g1 = g\<lparr>ci_lru := rest, ci_map := (ci_map g)(v := None), ci_bytes := ci_bytes g - length (ce_bytes e),
        ci_stats := (ci_stats g)\<lparr>cs_evictions := cs_evictions (ci_stats g) + 1\<rparr>\<rparr>"
    have c: "cache_size ((ci_map g)(v := None)) rest = cache_size (ci_map g) rest"
      by (rule cache_size_cong) (use "1.prems"(1) lru in \<open>auto simp: cache_wf_def\<close>)
    have wf1: "cache_wf quota g1"
      using "1.prems"(1) lru e c by (auto simp: cache_wf_def g1_def)
    have step: "evict_loop quota sz g = evict_loop quota sz g1"
      using True lru e by (simp add: evict_loop.simps [of quota sz g] g1_def)
    have le: "ci_map g1 \<subseteq>\<^sub>m ci_map g" by (simp add: g1_def map_le_def)
    have ih: "cache_wf quota (evict_loop quota sz g1) \<and> ci_map (evict_loop quota sz g1) \<subseteq>\<^sub>m ci_map g1
        \<and> ci_bytes (evict_loop quota sz g1) + sz \<le> quota"
      using "1.IH" [OF True lru, unfolded e option.case, folded g1_def] wf1 "1.prems"(2) by blast
    from conjunct1 [OF conjunct2 [OF ih]] le have "ci_map (evict_loop quota sz g1) \<subseteq>\<^sub>m ci_map g" by (rule map_le_trans)
    then show ?thesis using ih unfolding step by (intro conjI) simp_all
  qed
qed

lemma cache_insert_wf:
  assumes "cache_wf quota g"
  shows "cache_wf quota (cache_insert quota k b g)"
    and "ci_map (cache_insert quota k b g) \<subseteq>\<^sub>m (ci_map g)(k \<mapsto> \<lparr>ce_bytes = b, ce_crc = crc32 b\<rparr>) \<or>
      ci_map (cache_insert quota k b g) \<subseteq>\<^sub>m ci_map g"
    and "length b \<le> quota \<Longrightarrow> ci_map g k = None \<Longrightarrow> ci_map (cache_insert quota k b g) k = Some \<lparr>ce_bytes = b, ce_crc = crc32 b\<rparr>"
proof -
  let ?g = "evict_loop quota (length b) g"
  have ev: "cache_wf quota ?g" "ci_map ?g \<subseteq>\<^sub>m ci_map g" "ci_bytes ?g + length b \<le> quota" if "length b \<le> quota"
    using evict_loop_wf [OF assms that] by simp_all
  have miss: "k \<notin> set (ci_lru ?g)" if "length b \<le> quota" "ci_map g k = None"
  proof -
    have "k \<notin> dom (ci_map ?g)" using map_le_None [OF ev(2) [OF that(1)] that(2)] by (simp add: domIff)
    then show ?thesis using ev(1) [OF that(1)] by (simp add: cache_wf_def)
  qed
  have c: "cache_size ((ci_map ?g)(k \<mapsto> e)) (ci_lru ?g) = cache_size (ci_map ?g) (ci_lru ?g)"
    if "length b \<le> quota" "ci_map g k = None" for e
    by (rule cache_size_cong) (use miss [OF that] in auto)
  show "cache_wf quota (cache_insert quota k b g)"
    using assms ev miss c by (auto simp: cache_insert_def Let_def cache_wf_def)
  show "ci_map (cache_insert quota k b g) \<subseteq>\<^sub>m (ci_map g)(k \<mapsto> \<lparr>ce_bytes = b, ce_crc = crc32 b\<rparr>) \<or>
      ci_map (cache_insert quota k b g) \<subseteq>\<^sub>m ci_map g"
    using ev(2) by (auto simp: cache_insert_def Let_def map_le_def)
  show "ci_map (cache_insert quota k b g) k = Some \<lparr>ce_bytes = b, ce_crc = crc32 b\<rparr>" if "length b \<le> quota" "ci_map g k = None"
    using that by (simp add: cache_insert_def Let_def)
qed

text \<open>Every resident block is the truth or the truth with its first byte inverted, under the checksum of the truth.\<close>

definition cache_true :: "(cache_key \<rightharpoonup> byte list) \<Rightarrow> cache_inner \<Rightarrow> bool" where
  "cache_true truth g \<longleftrightarrow> (\<forall>k e. ci_map g k = Some e \<longrightarrow>
     (\<exists>b. truth k = Some b \<and> ce_crc e = crc32 b \<and> (ce_bytes e = b \<or> ce_bytes e = flip_first b)))"

lemma flip_flip [simp]: "flip_first (flip_first b) = b"
  by (auto simp: flip_first_def xor.assoc split: list.splits)

lemma length_flip [simp]: "length (flip_first b) = length b"
  by (auto simp: flip_first_def split: list.splits)

lemma flip_detected: "crc32 (flip_first b) = crc32 b \<Longrightarrow> flip_first b = b"
  using crc32_byte_inj [of "[]"] by (auto simp: flip_first_def split: list.splits)

lemma cache_true_sub: "cache_true truth g \<Longrightarrow> ci_map g' \<subseteq>\<^sub>m ci_map g \<Longrightarrow> cache_true truth g'"
  unfolding cache_true_def map_le_def by (metis domI)

lemma cache_get_true:
  assumes "cache_true truth g" and "cache_get k g = (Some b, g')"
  shows "truth k = Some b"
proof -
  obtain e where e: "ci_map g k = Some e" "crc32 (ce_bytes e) = ce_crc e" "b = ce_bytes e"
    using assms(2) by (auto simp: cache_get_def split: option.splits if_splits)
  obtain t where "truth k = Some t" "ce_crc e = crc32 t" "ce_bytes e = t \<or> ce_bytes e = flip_first t"
    using assms(1) e(1) unfolding cache_true_def by blast
  then show ?thesis using e flip_detected [of t] by auto
qed

lemma cache_true_insert:
  assumes "cache_wf quota g" and "cache_true truth g" and "truth k = Some b"
  shows "cache_true truth (cache_insert quota k b g)"
proof -
  have "cache_true truth (g\<lparr>ci_map := (ci_map g)(k \<mapsto> \<lparr>ce_bytes = b, ce_crc = crc32 b\<rparr>)\<rparr>)"
    using assms(2,3) unfolding cache_true_def by simp
  then show ?thesis
    using cache_insert_wf(2) [OF assms(1), of k b] assms(2) cache_true_sub [of truth] by fastforce
qed

lemma cache_corrupt_entry:
  assumes "cache_wf quota g" and "cache_true truth g"
  shows "cache_wf quota (corrupt_entry k g) \<and> cache_true truth (corrupt_entry k g)"
proof (cases "ci_map g k")
  case None
  then show ?thesis using assms by (simp add: corrupt_entry_def)
next
  case (Some e)
  have c: "cache_size ((ci_map g)(k \<mapsto> e\<lparr>ce_bytes := flip_first (ce_bytes e)\<rparr>)) ks = cache_size (ci_map g) ks" for ks
    using Some by (induction ks) simp_all
  have "cache_wf quota (corrupt_entry k g)"
    using assms(1) Some by (simp add: corrupt_entry_def cache_wf_def c) (auto simp: domIff)
  moreover obtain b where "truth k = Some b" "ce_crc e = crc32 b" "ce_bytes e = b \<or> ce_bytes e = flip_first b"
    using assms(2) Some unfolding cache_true_def by blast
  then have "cache_true truth (corrupt_entry k g)"
    using assms(2) Some unfolding cache_true_def by (auto simp: corrupt_entry_def)
  ultimately show ?thesis by simp
qed

datatype cache_event =
    ReadRange string nat nat
  | Damage cache_key
  | SetFaults fault_config

text \<open>A run of cold reads through the cache, with damage to cached blocks and faults of the backend in between.\<close>

fun cache_run :: "'s object_store \<Rightarrow> nat \<Rightarrow> cache_event list \<Rightarrow> 's fault_store \<times> cache_inner \<Rightarrow>
    (cache_key \<times> byte list res) list \<times> 's fault_store \<times> cache_inner" where
  "cache_run ops quota [] st = ([], st)"
| "cache_run ops quota (ReadRange key offset len # es) st =
     (case get_range_cached (fault_ops ops) quota key offset len st of (r, st1) \<Rightarrow>
      case cache_run ops quota es st1 of (rs, st2) \<Rightarrow> (((key, offset, len), r) # rs, st2))"
| "cache_run ops quota (Damage k # es) (s, g) = cache_run ops quota es (s, corrupt_entry k g)"
| "cache_run ops quota (SetFaults cfg # es) ((d, _), g) = cache_run ops quota es ((d, cfg), g)"

definition range_truth :: "local_store \<Rightarrow> cache_key \<rightharpoonup> byte list" where
  "range_truth d k = (case k of (key, offset, len) \<Rightarrow>
     case local_get_range key offset len d of Inr b \<Rightarrow> Some b | Inl _ \<Rightarrow> None)"

lemma fault_range_truth:
  assumes "os_get_range (fault_ops local_ops) key offset len (d, cfg) = (r, (d', cfg'))"
  shows "d' = d \<and> (\<forall>b. r = Inr b \<longrightarrow> range_truth d (key, offset, len) = Some b)"
  using assms by (auto simp: fault_ops_def fault_get_range_def gated_def local_ops_def range_truth_def split: sum.splits prod.splits if_splits)

lemma get_range_cached_true:
  assumes "get_range_cached (fault_ops local_ops) quota key offset len ((d, cfg), g) = (r, ((d', cfg'), g'))"
    and "cache_wf quota g" and "cache_true (range_truth d) g"
  shows "d' = d \<and> cache_wf quota g' \<and> cache_true (range_truth d) g' \<and> (\<forall>b. r = Inr b \<longrightarrow> range_truth d (key, offset, len) = Some b)"
proof -
  let ?k = "(key, offset, len)"
  obtain h g1 where h: "cache_get ?k g = (h, g1)" by (cases "cache_get ?k g")
  have g1: "cache_wf quota g1" "cache_true (range_truth d) g1"
    using cache_get_wf [OF assms(2) h] cache_true_sub [OF assms(3)] by blast+
  show ?thesis
  proof (cases h)
    case (Some b)
    then show ?thesis using assms(1,3) h g1 cache_get_true [OF assms(3), of ?k b g1] by (auto simp: get_range_cached_def)
  next
    case None
    obtain q d1 cfg1 where q: "os_get_range (fault_ops local_ops) key offset len (d, cfg) = (q, (d1, cfg1))"
      by (metis prod_cases3)
    note t = fault_range_truth [OF q]
    show ?thesis
    proof (cases q)
      case (Inl e)
      then show ?thesis using assms(1) h None q t g1 by (simp add: get_range_cached_def)
    next
      case (Inr b)
      then show ?thesis
        using assms(1) h None q t g1 cache_true_insert [OF g1, of ?k b] cache_insert_wf(1) [OF g1(1), of ?k b]
        by (simp add: get_range_cached_def)
    qed
  qed
qed

lemma cache_run_true:
  assumes "cache_run local_ops quota es ((d, cfg), g) = (rs, ((d', cfg'), g'))"
    and "cache_wf quota g" and "cache_true (range_truth d) g"
  shows "cache_wf quota g' \<and> list_all (\<lambda>(k, r). \<forall>b. r = Inr b \<longrightarrow> range_truth d k = Some b) rs"
  using assms
proof (induction es arbitrary: cfg g rs)
  case (Cons ev es)
  show ?case
  proof (cases ev)
    case (ReadRange key offset len)
    obtain r d1 cfg1 g1 where r: "get_range_cached (fault_ops local_ops) quota key offset len ((d, cfg), g) = (r, ((d1, cfg1), g1))"
      by (metis prod.collapse)
    note t = get_range_cached_true [OF r Cons.prems(2,3)]
    obtain rs1 where rs1: "cache_run local_ops quota es ((d, cfg1), g1) = (rs1, ((d', cfg'), g'))" "rs = ((key, offset, len), r) # rs1"
      using Cons.prems(1) ReadRange r t by (auto split: prod.splits)
    show ?thesis using Cons.IH [OF rs1(1)] t rs1(2) by simp
  next
    case (Damage k)
    then show ?thesis using Cons.IH [of cfg "corrupt_entry k g" rs] Cons.prems cache_corrupt_entry [OF Cons.prems(2,3)] by simp
  next
    case (SetFaults c)
    then show ?thesis using Cons.IH [of c g rs] Cons.prems by simp
  qed
qed simp

text \<open>A block that fits the quota is served again without the backend.\<close>

lemma read_again:
  assumes "get_range_cached remote quota key offset len (s, g) = (Inr b, (s1, g1))" and "cache_wf quota g" and "length b \<le> quota"
  shows "fst (get_range_cached remote' quota key offset len (s', g1)) = Inr b"
proof -
  let ?k = "(key, offset, len)"
  obtain h g2 where h: "cache_get ?k g = (h, g2)" by (cases "cache_get ?k g")
  have "\<exists>e. ci_map g1 ?k = Some e \<and> ce_bytes e = b \<and> ce_crc e = crc32 b"
  proof (cases h)
    case (Some x)
    then show ?thesis using h assms(1)
      by (auto simp: get_range_cached_def cache_get_def split: option.splits if_splits)
  next
    case None
    have g2: "cache_wf quota g2" "ci_map g2 ?k = None" using cache_get_wf [OF assms(2) h] None by simp_all
    obtain s2 where "os_get_range remote key offset len s = (Inr b, s2)" "g1 = cache_insert quota ?k b g2"
      using assms(1) h None by (auto simp: get_range_cached_def split: prod.splits sum.splits)
    then show ?thesis using cache_insert_wf(3) [OF g2(1) assms(3) g2(2)] by simp
  qed
  then show ?thesis by (auto simp: get_range_cached_def cache_get_def)
qed

section \<open>Properties\<close>


fun cas_run :: "'s object_store \<Rightarrow> string \<Rightarrow> (byte list \<times> fault_config) list \<Rightarrow> 's fault_store \<Rightarrow>
    (byte list \<times> cas_outcome res) list \<times> 's fault_store" where
  "cas_run ops key [] st = ([], st)"
| "cas_run ops key ((b, cfg) # ws) (s, _) =
     (case cas_publish (fault_ops ops) key b (s, cfg) of (r, st1) \<Rightarrow>
      case cas_run ops key ws st1 of (rs, st2) \<Rightarrow> ((b, r) # rs, st2))"

definition cas_truths :: "byte list option \<Rightarrow> (byte list \<times> cas_outcome res) list \<Rightarrow> bool" where
  "cas_truths held rs \<longleftrightarrow> list_all (\<lambda>(b, r). case r of
       Inl _ \<Rightarrow> True
     | Inr Conflict \<Rightarrow> (\<exists>c. held = Some c \<and> c \<noteq> b)
     | Inr Created \<Rightarrow> held = Some b
     | Inr AlreadyOurs \<Rightarrow> held = Some b) rs"

text \<open>
  C5. Publication tells the truth. Through a backend whose calls may fail, a publication that reports
  success leaves exactly its bytes under the key, one that reports a conflict leaves other bytes
  there, an object that existed keeps its bytes whatever happens, and of all publications to
  one key in a sequence those that report success wrote the same bytes and at most one created it.
\<close>

theorem cas_publish_truth:
  "case cas_run local_ops key ws (d, cfg) of (rs, (d', _)) \<Rightarrow>
     grows (bt_get d) (bt_get d') \<and> cas_truths (bt_get d' key) rs
     \<and> length (filter (\<lambda>(b, r). r = Inr Created) rs) \<le> (if bt_get d key = None then 1 else 0)"
proof (induction ws arbitrary: d cfg)
  case Nil
  then show ?case by (simp add: cas_truths_def)
next
  case (Cons w ws)
  obtain b c where w: "w = (b, c)" by (cases w)
  obtain r d1 c1 where r: "cas_publish (fault_ops local_ops) key b (d, c) = (r, (d1, c1))" by (metis prod.collapse)
  obtain rs d2 c2 where rs: "cas_run local_ops key ws (d1, c1) = (rs, (d2, c2))" by (metis prod.collapse)
  have ih: "grows (bt_get d1) (bt_get d2)" "cas_truths (bt_get d2 key) rs"
    "length (filter (\<lambda>(b, r). r = Inr Created) rs) \<le> (if bt_get d1 key = None then 1 else 0)"
    using Cons.IH [of d1 c1] rs by simp_all
  have here: "cas_result (bt_get d) key b r (bt_get d1)" using faulty.cas_truth [OF r] by simp
  then have g: "grows (bt_get d) (bt_get d1)" by (simp add: cas_result_def)
  have "cas_truths (bt_get d2 key) ((b, r) # rs)"
    using here ih(2) grows_keeps [OF ih(1), of key]
    by (auto simp: cas_truths_def cas_result_def split: sum.splits cas_outcome.splits)
  moreover have "length (filter (\<lambda>(b, r). r = Inr Created) ((b, r) # rs)) \<le> (if bt_get d key = None then 1 else 0)"
  proof (cases "r = Inr Created")
    case True
    then have "bt_get d key = None" "bt_get d1 key = Some b" using here by (simp_all add: cas_result_def)
    then show ?thesis using ih(3) True by simp
  next
    case False
    show ?thesis
    proof (cases "bt_get d key")
      case None
      then show ?thesis using ih(3) False by (auto split: if_splits)
    next
      case (Some v)
      then show ?thesis using ih(3) False grows_keeps [OF g Some] by simp
    qed
  qed
  ultimately show ?case using w r rs grows_trans [OF g ih(1)] by simp
qed

end
