(* ===== verification/Wal.thy ===== *)
theory Wal
  imports Catalog Objects Events PartFormat
begin

unbundle bit_operations_syntax

text \<open>
  The durable admission log, \<open>prism-engine/src/wal.rs\<close>, with the bounded cache of opened keys it uses
  (\<open>DekCache\<close> of \<open>prism-engine/src/keys.rs\<close>). The JSON library, the key service, the AEAD and the random
  nonces are parameters. The disk is the bytes of the log file and the allocator file; an append
  returns the durable states it goes through, the torn writes of its frame included. The replicated
  log runs over any object store.
\<close>

section \<open>Records\<close>

record wal_record =
  wr_id :: nat
  wr_events :: "event list"
  wr_source :: "string option"
  wr_source_offset :: "nat option"
  wr_created_at_ms :: i64

definition WAL_DOMAIN :: string where "WAL_DOMAIN = CHR 0x00 # ''prism-admission-wal''"

definition wal_column :: "nat \<Rightarrow> string" where
  "wal_column record_id = CHR 0x00 # ''wal-record-'' @ nat_str record_id"

definition SEALED_WAL_VERSION :: nat where "SEALED_WAL_VERSION = 1"

definition AEAD_XCHACHA20_POLY1305 :: nat where "AEAD_XCHACHA20_POLY1305 = 1"

record wal_envelope =
  we_algorithm :: nat
  we_wrapping_key_id :: string
  we_dek_epoch :: nat
  we_wrapped_dek :: "byte list"

record sealed_wal_record =
  sw_version :: nat
  sw_record_id :: nat
  sw_envelope :: wal_envelope
  sw_ciphertext :: "byte list"

text \<open>The JSON library on the two types that reach the log.\<close>

record serde =
  js_record :: "wal_record \<Rightarrow> byte list"
  js_sealed :: "sealed_wal_record \<Rightarrow> byte list"
  js_read_record :: "byte list \<Rightarrow> wal_record option"
  js_read_sealed :: "byte list \<Rightarrow> sealed_wal_record option"

section \<open>Opened keys\<close>

record dek_cache =
  dc_entries :: "(string \<times> block_cipher) list"
  dc_capacity :: nat

definition dek_cache_new :: "nat \<Rightarrow> dek_cache" where
  "dek_cache_new capacity = \<lparr>dc_entries = [], dc_capacity = max capacity 1\<rparr>"

definition get_or_open :: "string \<Rightarrow> block_cipher res \<Rightarrow> dek_cache \<Rightarrow> block_cipher res \<times> dek_cache" where
  "get_or_open cache_key opened c = (case find (\<lambda>(k, _). k = cache_key) (dc_entries c) of
       Some (_, cipher) \<Rightarrow> (Inr cipher, c)
     | None \<Rightarrow> (case opened of
           Inl e \<Rightarrow> (Inl e, c)
         | Inr cipher \<Rightarrow>
             let entries = dc_entries c @ [(cache_key, cipher)] in
             (Inr cipher, c\<lparr>dc_entries := drop (length entries - dc_capacity c) entries\<rparr>)))"

text \<open>The key service as its \<open>wrap\<close> and \<open>unwrap\<close> under key ids.\<close>

record key_provider =
  kp_wrap :: "byte list \<Rightarrow> (string \<times> byte list) res"
  kp_unwrap :: "string \<Rightarrow> byte list \<Rightarrow> byte list res"

record wal_crypto =
  wc_aead :: aead
  wc_keys :: key_provider
  wc_cache :: dek_cache
  wc_sealing :: block_cipher
  wc_envelope :: wal_envelope

definition WAL_DEK_CACHE_ENTRIES :: nat where "WAL_DEK_CACHE_ENTRIES = 16"

definition wal_crypto_new :: "aead \<Rightarrow> key_provider \<Rightarrow> byte list res \<Rightarrow> wal_crypto res" where
  "wal_crypto_new A keys generated = rbind generated (\<lambda>dek. rbind (kp_wrap keys dek) (\<lambda>(key_id, wrapped).
     Inr \<lparr>wc_aead = A, wc_keys = keys, wc_cache = dek_cache_new WAL_DEK_CACHE_ENTRIES,
          wc_sealing = \<lparr>bc_aead = A, bc_key = dek, bc_key_id = key_id\<rparr>,
          wc_envelope = \<lparr>we_algorithm = AEAD_XCHACHA20_POLY1305, we_wrapping_key_id = key_id, we_dek_epoch = 1,
            we_wrapped_dek = wrapped\<rparr>\<rparr>))"

definition dek_cache_key :: "wal_envelope \<Rightarrow> string" where
  "dek_cache_key env = we_wrapping_key_id env @ ''#'' @ nat_str (we_dek_epoch env) @ ''#'' @ hex (sha256 (we_wrapped_dek env))"

definition open_cipher :: "wal_envelope \<Rightarrow> wal_crypto \<Rightarrow> block_cipher res \<times> wal_crypto" where
  "open_cipher env c =
     (if we_algorithm env \<noteq> AEAD_XCHACHA20_POLY1305 then (Inl (Corrupt ''sealed with an AEAD this build does not implement''), c)
      else case get_or_open (dek_cache_key env)
               (rbind (kp_unwrap (wc_keys c) (we_wrapping_key_id env) (we_wrapped_dek env)) (\<lambda>dek.
                  Inr \<lparr>bc_aead = wc_aead c, bc_key = dek, bc_key_id = we_wrapping_key_id env\<rparr>)) (wc_cache c) of
             (r, cache) \<Rightarrow> (r, c\<lparr>wc_cache := cache\<rparr>))"

section \<open>Encoding of a record\<close>

definition sealed_form :: "wal_crypto \<Rightarrow> wal_record \<Rightarrow> byte list \<Rightarrow> sealed_wal_record" where
  "sealed_form c rec ciphertext = \<lparr>sw_version = SEALED_WAL_VERSION, sw_record_id = wr_id rec,
     sw_envelope = wc_envelope c, sw_ciphertext = ciphertext\<rparr>"

definition encode_record :: "serde \<Rightarrow> wal_crypto option \<Rightarrow> byte list \<Rightarrow> wal_record \<Rightarrow> byte list res" where
  "encode_record js crypto nonce rec = (case crypto of
       None \<Rightarrow> Inr (js_record js rec)
     | Some c \<Rightarrow> rbind (seal (wc_sealing c) nonce WAL_DOMAIN (wal_column (wr_id rec)) 0 (js_record js rec)) (\<lambda>ciphertext.
         Inr (js_sealed js (sealed_form c rec ciphertext))))"

definition open_sealed :: "serde \<Rightarrow> block_cipher \<Rightarrow> sealed_wal_record \<Rightarrow> wal_record res" where
  "open_sealed js cipher sealed =
     rbind (open_block cipher WAL_DOMAIN (wal_column (sw_record_id sealed)) 0 (sw_ciphertext sealed)) (\<lambda>plain.
       case js_read_record js plain of
         None \<Rightarrow> Inl (Corrupt ''admission log record decrypted but will not parse'')
       | Some rec \<Rightarrow> if wr_id rec \<noteq> sw_record_id sealed then Inl (Corrupt ''admission log record decrypted to another record'')
           else Inr rec)"

definition decode_record :: "serde \<Rightarrow> wal_crypto option \<Rightarrow> byte list \<Rightarrow> wal_record res \<times> wal_crypto option" where
  "decode_record js crypto bytes = (case js_read_sealed js bytes of
       None \<Rightarrow> (case js_read_record js bytes of Some r \<Rightarrow> Inr r | None \<Rightarrow> Inl (Decode ''record''), crypto)
     | Some sealed \<Rightarrow>
         if sw_version sealed \<noteq> SEALED_WAL_VERSION then (Inl (Corrupt ''sealed-envelope version is not implemented''), crypto)
         else (case crypto of
             None \<Rightarrow> (Inl (Policy ''record is sealed but this store has no key service''), crypto)
           | Some c \<Rightarrow> (case open_cipher (sw_envelope sealed) c of
               (Inl e, c') \<Rightarrow> (Inl e, Some c')
             | (Inr cipher, c') \<Rightarrow> (open_sealed js cipher sealed, Some c'))))"

section \<open>The local log\<close>

definition WAL_FRAME_HEADER :: nat where "WAL_FRAME_HEADER = 8"

definition wal_frame :: "byte list \<Rightarrow> byte list" where
  "wal_frame json = le_bytes 4 (length json) @ le_bytes 4 (unat (crc32 json)) @ json"

record wal_disk =
  wd_log :: "byte list"
  wd_next_id :: nat

definition append_record :: "serde \<Rightarrow> wal_crypto option \<Rightarrow> byte list \<Rightarrow> wal_record \<Rightarrow> wal_disk \<Rightarrow> wal_disk list \<times> unit res" where
  "append_record js crypto nonce rec d =
     (if wr_id rec < wd_next_id d then ([], Inl (Invariant ''record is older than the allocator''))
      else case encode_record js crypto nonce rec of
        Inl e \<Rightarrow> ([], Inl e)
      | Inr json \<Rightarrow>
          let frame = wal_frame json;
              torn = map (\<lambda>n. d\<lparr>wd_log := wd_log d @ take n frame\<rparr>) [0..<length frame];
              acked = d\<lparr>wd_log := wd_log d @ frame\<rparr> in
          if 2 ^ 64 \<le> wr_id rec + 1 then (torn @ [acked], Inl (Invariant ''record id space is exhausted''))
          else (torn @ [acked, acked\<lparr>wd_next_id := wr_id rec + 1\<rparr>], Inr ()))"

definition wal_append :: "serde \<Rightarrow> wal_crypto option \<Rightarrow> byte list \<Rightarrow> event list \<Rightarrow> string option \<Rightarrow> nat option \<Rightarrow> i64 \<Rightarrow>
    wal_disk \<Rightarrow> wal_disk list \<times> nat res" where
  "wal_append js crypto nonce events source offset now_ms d =
     (let rec = \<lparr>wr_id = wd_next_id d, wr_events = events, wr_source = source, wr_source_offset = offset, wr_created_at_ms = now_ms\<rparr> in
      case append_record js crypto nonce rec d of (states, r) \<Rightarrow> (states, rbind r (\<lambda>_. Inr (wr_id rec))))"

function read_loop :: "serde \<Rightarrow> byte list \<Rightarrow> wal_crypto option \<Rightarrow> nat \<Rightarrow> wal_record list \<Rightarrow>
    wal_record list res \<times> wal_crypto option" where
  "read_loop js bytes crypto pos out =
     (if pos + WAL_FRAME_HEADER \<le> length bytes then
        (let len = le_nat (take 4 (drop pos bytes));
             want_crc = of_nat (le_nat (take 4 (drop (pos + 4) bytes)));
             start = pos + WAL_FRAME_HEADER;
             json = take len (drop start bytes) in
         if length bytes < start + len then (Inr out, crypto)
         else if crc32 json \<noteq> want_crc then (Inr out, crypto)
         else case decode_record js crypto json of
             (Inr r, crypto') \<Rightarrow> read_loop js bytes crypto' (start + len) (out @ [r])
           | (Inl e, crypto') \<Rightarrow> (Inl (case e of Policy _ \<Rightarrow> e | Corrupt _ \<Rightarrow> e
                | _ \<Rightarrow> Corrupt ''admission log record will not parse''), crypto'))
      else (Inr out, crypto))"
  by pat_completeness auto
termination
  by (relation "measure (\<lambda>(_, bytes, _, pos, _). length bytes - pos)") (auto simp: WAL_FRAME_HEADER_def)

declare read_loop.simps [simp del]

definition read_all :: "serde \<Rightarrow> wal_crypto option \<Rightarrow> wal_disk \<Rightarrow> wal_record list res \<times> wal_crypto option" where
  "read_all js crypto d = read_loop js (wd_log d) crypto 0 []"

text \<open>The wrapping keys named in the log; the walk does not look at the checksums.\<close>

function key_loop :: "serde \<Rightarrow> byte list \<Rightarrow> nat \<Rightarrow> string list \<Rightarrow> string list" where
  "key_loop js bytes pos out =
     (if pos + WAL_FRAME_HEADER \<le> length bytes then
        (let len = le_nat (take 4 (drop pos bytes)); start = pos + WAL_FRAME_HEADER in
         if length bytes < start + len then out
         else key_loop js bytes (start + len) (case js_read_sealed js (take len (drop start bytes)) of
             Some sealed \<Rightarrow> bs_insert (we_wrapping_key_id (sw_envelope sealed)) out
           | None \<Rightarrow> out))
      else out)"
  by pat_completeness auto
termination
  by (relation "measure (\<lambda>(_, bytes, pos, _). length bytes - pos)") (auto simp: WAL_FRAME_HEADER_def)

declare key_loop.simps [simp del]

definition wrapping_key_ids :: "serde \<Rightarrow> wal_disk \<Rightarrow> string list" where
  "wrapping_key_ids js d = key_loop js (wd_log d) 0 []"

definition outstanding_after :: "serde \<Rightarrow> wal_crypto option \<Rightarrow> nat option \<Rightarrow> wal_disk \<Rightarrow> wal_record list res" where
  "outstanding_after js crypto floor d = rbind (fst (read_all js crypto d)) (\<lambda>rs.
     Inr (filter (\<lambda>r. case floor of None \<Rightarrow> True | Some f \<Rightarrow> f < wr_id r) rs))"

primrec frames :: "serde \<Rightarrow> wal_crypto option \<Rightarrow> (nat \<Rightarrow> byte list) \<Rightarrow> wal_record list \<Rightarrow> byte list res" where
  "frames js crypto nonce [] = Inr []"
| "frames js crypto nonce (r # rs) = rbind (encode_record js crypto (nonce (length rs)) r) (\<lambda>json.
     rbind (frames js crypto nonce rs) (\<lambda>rest. Inr (wal_frame json @ rest)))"

definition compact_through :: "serde \<Rightarrow> wal_crypto option \<Rightarrow> (nat \<Rightarrow> byte list) \<Rightarrow> nat option \<Rightarrow> wal_disk \<Rightarrow> nat res \<times> wal_disk" where
  "compact_through js crypto nonce floor d = (case floor of
       None \<Rightarrow> (Inr 0, d)
     | Some f \<Rightarrow> (case read_all js crypto d of
           (Inl e, _) \<Rightarrow> (Inl e, d)
         | (Inr all, crypto') \<Rightarrow>
             let keep = filter (\<lambda>r. f < wr_id r) all; dropped = length all - length keep in
             if dropped = 0 then (Inr 0, d)
             else case frames js crypto' nonce keep of
               Inl e \<Rightarrow> (Inl e, d)
             | Inr buf \<Rightarrow> (Inr dropped, d\<lparr>wd_log := buf\<rparr>)))"

section \<open>The replicated log\<close>

definition REMOTE_RECORD_SEQUENCE_BITS :: nat where "REMOTE_RECORD_SEQUENCE_BITS = 32"
definition REMOTE_RECORD_SEQUENCE_MASK :: nat where "REMOTE_RECORD_SEQUENCE_MASK = 2 ^ 32 - 1"

definition remote_prefix :: "nat \<Rightarrow> string" where
  "remote_prefix shard_id = ''wal/shard-'' @ nat_str shard_id @ ''/records/''"

definition remote_key :: "nat \<Rightarrow> nat \<Rightarrow> string" where
  "remote_key shard_id record_id = remote_prefix shard_id @ pad_digits 20 record_id @ ''.json''"

definition next_step :: "nat \<Rightarrow> nat \<Rightarrow> wal_record \<Rightarrow> nat \<Rightarrow> nat res" where
  "next_step epoch base record next =
     (if drop_bit REMOTE_RECORD_SEQUENCE_BITS (wr_id record) = epoch
      then Inr (max next ((wr_id record AND REMOTE_RECORD_SEQUENCE_MASK) + 1))
      else if base \<le> wr_id record then Inl (Invariant ''replicated WAL found a record at or above the current epoch'')
      else Inr next)"

definition next_record_id :: "nat \<Rightarrow> wal_record list res \<Rightarrow> wal_record list \<Rightarrow> nat res" where
  "next_record_id epoch remote locals =
     (if epoch = 0 \<or> 2 ^ 32 - 1 < epoch then Inl (Invariant ''ownership epoch is outside the range'')
      else let base = push_bit REMOTE_RECORD_SEQUENCE_BITS epoch in
        rbind remote (\<lambda>remotes. rbind (rfold (next_step epoch base) (remotes @ locals) 0) (\<lambda>next.
          if REMOTE_RECORD_SEQUENCE_MASK < next then Inl (Invariant ''replicated WAL exhausted the record sequence'')
          else Inr (base OR next))))"

definition remote_append :: "'s object_store \<Rightarrow> nat \<Rightarrow> serde \<Rightarrow> wal_crypto option \<Rightarrow> byte list \<Rightarrow> wal_record \<Rightarrow> 's \<Rightarrow> unit res \<times> 's" where
  "remote_append ops shard js crypto nonce record s =
     (let key = remote_key shard (wr_id record) in
      case encode_record js crypto nonce record of
        Inl e \<Rightarrow> (Inl e, s)
      | Inr bytes \<Rightarrow> (case cas_publish ops key bytes s of
            (Inl e, s1) \<Rightarrow> (Inl e, s1)
          | (Inr out, s1) \<Rightarrow>
              if out = Conflict then (Inl (Invariant ''replicated admission WAL conflict''), s1)
              else (case os_get ops key s1 of
                  (Inl e, s2) \<Rightarrow> (Inl e, s2)
                | (Inr durable, s2) \<Rightarrow>
                    (if durable \<noteq> bytes then Inl (Corrupt ''replicated admission WAL read-back differs'') else Inr (), s2))))"

definition strip_key :: "nat \<Rightarrow> string \<Rightarrow> nat res" where
  "strip_key shard key =
     (if \<not> starts_with (remote_prefix shard) key then Inl (Corrupt ''key outside the prefix'')
      else let suffix = drop (length (remote_prefix shard)) key in
        if \<not> ends_with ''.json'' suffix then Inl (Corrupt ''key has an invalid suffix'')
        else let id_text = take (length suffix - 5) suffix in
          if length id_text \<noteq> 20 \<or> \<not> list_all is_digit id_text then Inl (Corrupt ''key has an invalid record id'')
          else case parse_u64 id_text of None \<Rightarrow> Inl (Corrupt ''key will not parse'') | Some i \<Rightarrow> Inr i)"

fun remote_read_loop :: "'s object_store \<Rightarrow> nat \<Rightarrow> serde \<Rightarrow> string list \<Rightarrow> (nat \<times> wal_record) list \<Rightarrow> wal_crypto option \<Rightarrow> 's \<Rightarrow>
    wal_record list res \<times> wal_crypto option \<times> 's" where
  "remote_read_loop ops shard js [] records crypto s = (Inr (map snd records), crypto, s)"
| "remote_read_loop ops shard js (key # keys) records crypto s = (case strip_key shard key of
       Inl e \<Rightarrow> (Inl e, crypto, s)
     | Inr key_id \<Rightarrow> (case os_get ops key s of
           (Inl e, s1) \<Rightarrow> (Inl e, crypto, s1)
         | (Inr bytes, s1) \<Rightarrow> (case decode_record js crypto bytes of
               (Inl e, crypto1) \<Rightarrow> (Inl e, crypto1, s1)
             | (Inr record, crypto1) \<Rightarrow>
                 if wr_id record \<noteq> key_id then (Inl (Corrupt ''key id does not match the body id''), crypto1, s1)
                 else if bt_get records key_id \<noteq> None then (Inl (Corrupt ''duplicate record id''), crypto1, s1)
                 else remote_read_loop ops shard js keys (bt_insert key_id record records) crypto1 s1)))"

definition remote_read_all :: "'s object_store \<Rightarrow> nat \<Rightarrow> serde \<Rightarrow> wal_crypto option \<Rightarrow> 's \<Rightarrow> wal_record list res \<times> wal_crypto option \<times> 's" where
  "remote_read_all ops shard js crypto s = (case os_list ops (remote_prefix shard) s of
       (Inl e, s1) \<Rightarrow> (Inl e, crypto, s1)
     | (Inr keys, s1) \<Rightarrow> remote_read_loop ops shard js keys [] crypto s1)"

section \<open>A record survives its encoding\<close>

text \<open>
  What is documented of the parameters, for one record: the JSON text of a record is read back as the record and
  not as a sealed one, the text of a sealed record is read back as such, decryption inverts encryption,
  and the key service unwraps what it wrapped.
\<close>

definition serde_ok :: "serde \<Rightarrow> wal_crypto option \<Rightarrow> wal_record \<Rightarrow> bool" where
  "serde_ok js crypto r \<longleftrightarrow> js_read_record js (js_record js r) = Some r \<and> js_read_sealed js (js_record js r) = None
     \<and> (case crypto of None \<Rightarrow> True
        | Some c \<Rightarrow> \<forall>ct. js_read_sealed js (js_sealed js (sealed_form c r ct)) = Some (sealed_form c r ct))"

definition crypto_ok :: "wal_crypto \<Rightarrow> bool" where
  "crypto_ok c \<longleftrightarrow> aead_ok (wc_aead c) \<and> bc_aead (wc_sealing c) = wc_aead c
     \<and> we_algorithm (wc_envelope c) = AEAD_XCHACHA20_POLY1305
     \<and> we_wrapping_key_id (wc_envelope c) = bc_key_id (wc_sealing c)
     \<and> kp_unwrap (wc_keys c) (bc_key_id (wc_sealing c)) (we_wrapped_dek (wc_envelope c)) = Inr (bc_key (wc_sealing c))
     \<and> (\<forall>k x. (k, x) \<in> set (dc_entries (wc_cache c)) \<longrightarrow> k = dek_cache_key (wc_envelope c) \<longrightarrow> x = wc_sealing c)"

definition wal_crypto_ok :: "wal_crypto option \<Rightarrow> bool" where
  "wal_crypto_ok crypto \<longleftrightarrow> (case crypto of None \<Rightarrow> True | Some c \<Rightarrow> crypto_ok c)"

lemma wal_crypto_new_ok:
  assumes "wal_crypto_new A keys (Inr dek) = Inr c" and "aead_ok A"
    and "\<And>d i w. kp_wrap keys d = Inr (i, w) \<Longrightarrow> kp_unwrap keys i w = Inr d"
  shows "crypto_ok c"
  using assms by (auto simp: wal_crypto_new_def crypto_ok_def dek_cache_new_def res_simps)

lemma open_own:
  assumes "crypto_ok c"
  shows "\<exists>cache. open_cipher (wc_envelope c) c = (Inr (wc_sealing c), c\<lparr>wc_cache := cache\<rparr>) \<and> crypto_ok (c\<lparr>wc_cache := cache\<rparr>)"
proof -
  let ?k = "dek_cache_key (wc_envelope c)"
  have own: "\<lparr>bc_aead = wc_aead c, bc_key = bc_key (wc_sealing c), bc_key_id = bc_key_id (wc_sealing c)\<rparr> = wc_sealing c"
    using assms by (simp add: crypto_ok_def)
  show ?thesis
  proof (cases "find (\<lambda>(k, _). k = ?k) (dc_entries (wc_cache c))")
    case (Some p)
    then obtain x where "p = (?k, x)" "(?k, x) \<in> set (dc_entries (wc_cache c))"
      by (auto simp: find_Some_iff) (metis nth_mem)
    then have "p = (?k, wc_sealing c)" using assms by (auto simp: crypto_ok_def)
    then show ?thesis using assms Some
      by (intro exI [of _ "wc_cache c"]) (simp add: open_cipher_def get_or_open_def crypto_ok_def)
  next
    case None
    let ?es = "dc_entries (wc_cache c) @ [(?k, wc_sealing c)]"
    let ?cache = "(wc_cache c)\<lparr>dc_entries := drop (length ?es - dc_capacity (wc_cache c)) ?es\<rparr>"
    have "open_cipher (wc_envelope c) c = (Inr (wc_sealing c), c\<lparr>wc_cache := ?cache\<rparr>)"
      using assms None by (simp add: open_cipher_def get_or_open_def crypto_ok_def own)
    moreover have "\<forall>k x. (k, x) \<in> set (drop n ?es) \<longrightarrow> k = ?k \<longrightarrow> x = wc_sealing c" for n
      using assms by (auto simp del: drop_append dest!: in_set_dropD simp: crypto_ok_def)
    then have "crypto_ok (c\<lparr>wc_cache := ?cache\<rparr>)" using assms unfolding crypto_ok_def by (simp del: drop_append)
    ultimately show ?thesis by blast
  qed
qed

definition same_keys :: "wal_crypto option \<Rightarrow> wal_crypto option \<Rightarrow> bool" where
  "same_keys a b \<longleftrightarrow> map_option (\<lambda>c. (wc_sealing c, wc_envelope c)) a = map_option (\<lambda>c. (wc_sealing c, wc_envelope c)) b"

lemma same_keys_refl [simp]: "same_keys a a"
  by (simp add: same_keys_def)

lemma same_keys_trans: "same_keys a b \<Longrightarrow> same_keys b c \<Longrightarrow> same_keys a c"
  by (simp add: same_keys_def)

lemma encode_same: "same_keys a b \<Longrightarrow> encode_record js a nonce r = encode_record js b nonce r"
  by (cases a; cases b) (auto simp: same_keys_def encode_record_def sealed_form_def)

lemma serde_same: "same_keys a b \<Longrightarrow> serde_ok js a r = serde_ok js b r"
  by (cases a; cases b) (auto simp: same_keys_def serde_ok_def sealed_form_def)

lemma decode_encode:
  assumes "serde_ok js crypto r" and "wal_crypto_ok crypto" and "length nonce = NONCE_BYTES" and "encode_record js crypto nonce r = Inr json"
  shows "\<exists>crypto'. decode_record js crypto json = (Inr r, crypto') \<and> wal_crypto_ok crypto'
    \<and> same_keys crypto' crypto"
proof (cases crypto)
  case None
  then show ?thesis using assms by (auto simp: encode_record_def decode_record_def serde_ok_def wal_crypto_ok_def)
next
  case (Some c)
  then have c: "crypto_ok c" using assms(2) by (simp add: wal_crypto_ok_def)
  obtain ct where ct: "seal (wc_sealing c) nonce WAL_DOMAIN (wal_column (wr_id r)) 0 (js_record js r) = Inr ct"
    and json: "json = js_sealed js (sealed_form c r ct)"
    using assms(4) Some by (auto simp: encode_record_def res_simps)
  have "aead_ok (bc_aead (wc_sealing c))" using c by (simp add: crypto_ok_def)
  then have "open_block (wc_sealing c) WAL_DOMAIN (wal_column (wr_id r)) 0 ct = Inr (js_record js r)"
    using open_seal [OF _ assms(3) ct] by simp
  moreover obtain cache where "open_cipher (wc_envelope c) c = (Inr (wc_sealing c), c\<lparr>wc_cache := cache\<rparr>)" "crypto_ok (c\<lparr>wc_cache := cache\<rparr>)"
    using open_own [OF c] by blast
  ultimately show ?thesis
    using assms(1) Some json by (auto simp: decode_record_def serde_ok_def sealed_form_def open_sealed_def wal_crypto_ok_def same_keys_def)
qed

section \<open>Reading the log back\<close>

lemma length_wal_frame [simp]: "length (wal_frame json) = 8 + length json"
  by (simp add: wal_frame_def)

lemma frame_fields:
  assumes "length json < 2 ^ 32"
  shows "le_nat (take 4 (wal_frame json)) = length json" "of_nat (le_nat (take 4 (drop 4 (wal_frame json)))) = crc32 json"
    "drop 8 (wal_frame json) = json"
proof -
  have "unat (crc32 json) < 2 ^ 32" by (rule unat_u32_lt)
  then show "of_nat (le_nat (take 4 (drop 4 (wal_frame json)))) = crc32 json"
    by (simp add: wal_frame_def le_nat_le_bytes)
qed (use assms in \<open>simp_all add: wal_frame_def le_nat_le_bytes\<close>)

lemma read_loop_frame:
  assumes "length json < 2 ^ 32" and "decode_record js crypto json = (Inr r, crypto')"
  shows "read_loop js (pre @ wal_frame json @ rest) crypto (length pre) out =
    read_loop js (pre @ wal_frame json @ rest) crypto' (length (pre @ wal_frame json)) (out @ [r])"
proof -
  have "take 4 (wal_frame json @ rest) = take 4 (wal_frame json)"
    "take 4 (drop 4 (wal_frame json @ rest)) = take 4 (drop 4 (wal_frame json))"
    "take (length json) (drop 8 (wal_frame json @ rest)) = json"
    using frame_fields(3) [OF assms(1)] by simp_all
  then show ?thesis
    using frame_fields [OF assms(1)] assms(2)
    by (subst read_loop.simps) (simp add: WAL_FRAME_HEADER_def Let_def ac_simps)
qed

lemma read_loop_end: "length bytes < pos + 8 \<Longrightarrow> read_loop js bytes crypto pos out = (Inr out, crypto)"
  by (subst read_loop.simps) (simp add: WAL_FRAME_HEADER_def)

text \<open>Debris: a header whose length runs past the end of the file, or less than a header.\<close>

definition debris :: "byte list \<Rightarrow> bool" where
  "debris t \<longleftrightarrow> length t < 8 \<or> length t < 8 + le_nat (take 4 t)"

lemma read_loop_debris:
  assumes "debris t"
  shows "read_loop js (pre @ t) crypto (length pre) out = (Inr out, crypto)"
  using assms by (subst read_loop.simps) (auto simp: debris_def WAL_FRAME_HEADER_def Let_def)

lemma debris_torn:
  assumes "length json < 2 ^ 32" and "n < length (wal_frame json)"
  shows "debris (take n (wal_frame json))"
proof (cases "n < 8")
  case False
  then have "take 4 (take n (wal_frame json)) = take 4 (wal_frame json)" by simp
  then show ?thesis using assms frame_fields(1) [OF assms(1)] by (simp add: debris_def)
qed (simp add: debris_def)

definition encoded :: "serde \<Rightarrow> wal_crypto option \<Rightarrow> wal_record \<Rightarrow> byte list \<Rightarrow> bool" where
  "encoded js crypto r json \<longleftrightarrow> serde_ok js crypto r \<and> length json < 2 ^ 32
     \<and> (\<exists>nonce. length nonce = NONCE_BYTES \<and> encode_record js crypto nonce r = Inr json)"

definition log_of :: "serde \<Rightarrow> wal_crypto option \<Rightarrow> wal_record list \<Rightarrow> byte list \<Rightarrow> bool" where
  "log_of js crypto rs bytes \<longleftrightarrow> (\<exists>jsons. list_all2 (encoded js crypto) rs jsons \<and> bytes = concat (map wal_frame jsons))"

lemma read_loop_log:
  assumes "list_all2 (encoded js crypto) rs jsons" and "wal_crypto_ok c" and "same_keys c crypto" and "debris t"
  shows "\<exists>c'. read_loop js (pre @ concat (map wal_frame jsons) @ t) c (length pre) out = (Inr (out @ rs), c')
    \<and> wal_crypto_ok c' \<and> same_keys c' crypto"
  using assms(1-3)
proof (induction rs jsons arbitrary: pre c out rule: list_all2_induct)
  case Nil
  then show ?case using read_loop_debris [OF assms(4), of js pre c out] by simp
next
  case (Cons r rs json jsons)
  obtain nonce where n: "serde_ok js c r" "length json < 2 ^ 32" "length nonce = NONCE_BYTES" "encode_record js c nonce r = Inr json"
    using Cons.hyps(1) encode_same [OF Cons.prems(2)] serde_same [OF Cons.prems(2)] by (auto simp: encoded_def)
  obtain c1 where c1: "decode_record js c json = (Inr r, c1)" "wal_crypto_ok c1" "same_keys c1 c"
    using decode_encode [OF n(1) Cons.prems(1) n(3,4)] by blast
  have sk: "same_keys c1 crypto" using c1(3) Cons.prems(2) by (rule same_keys_trans)
  show ?case
    using read_loop_frame [OF n(2) c1(1), of pre "concat (map wal_frame jsons) @ t" out]
      Cons.IH [OF c1(2) sk, of "pre @ wal_frame json" "out @ [r]"] by simp
qed

lemma read_all_log:
  assumes "log_of js crypto rs bs" and "wal_crypto_ok crypto" and "debris t"
  shows "\<exists>c'. read_all js crypto (d\<lparr>wd_log := bs @ t\<rparr>) = (Inr rs, c') \<and> wal_crypto_ok c' \<and> same_keys c' crypto"
proof -
  obtain jsons where "list_all2 (encoded js crypto) rs jsons" "bs = concat (map wal_frame jsons)"
    using assms(1) by (auto simp: log_of_def)
  then show ?thesis
    using read_loop_log [of js crypto rs jsons crypto t "[]" "[]"] assms(2,3) by (simp add: read_all_def)
qed

lemma debris_Nil [simp]: "debris []"
  by (simp add: debris_def)

lemma read_all_whole: "log_of js crypto rs (wd_log d) \<Longrightarrow> wal_crypto_ok crypto \<Longrightarrow>
    \<exists>c'. read_all js crypto d = (Inr rs, c') \<and> wal_crypto_ok c' \<and> same_keys c' crypto"
  using read_all_log [of js crypto rs "wd_log d" "[]" d] by simp

lemma log_of_append:
  assumes "log_of js crypto rs bs" and "encoded js crypto r json"
  shows "log_of js crypto (rs @ [r]) (bs @ wal_frame json)"
proof -
  obtain jsons where "list_all2 (encoded js crypto) rs jsons" "bs = concat (map wal_frame jsons)"
    using assms(1) by (auto simp: log_of_def)
  then show ?thesis
    unfolding log_of_def using assms(2) by (intro exI [of _ "jsons @ [json]"]) (simp add: list_all2_appendI)
qed

lemma frames_log:
  assumes "frames js crypto nonce rs = Inr buf" and "\<And>i. length (nonce i) = NONCE_BYTES" and "\<forall>r \<in> set rs. serde_ok js crypto r"
    and "\<And>r i json. r \<in> set rs \<Longrightarrow> encode_record js crypto (nonce i) r = Inr json \<Longrightarrow> length json < 2 ^ 32"
  shows "log_of js crypto rs buf"
  using assms(1,3,4)
proof (induction rs arbitrary: buf)
  case Nil
  then show ?case by (simp add: log_of_def)
next
  case (Cons r rs)
  obtain json rest where e: "encode_record js crypto (nonce (length rs)) r = Inr json" "frames js crypto nonce rs = Inr rest" "buf = wal_frame json @ rest"
    using Cons.prems(1) by (auto simp: res_simps)
  have "log_of js crypto rs rest" using Cons.IH [OF e(2)] Cons.prems(2,3) by auto
  then obtain jsons where "list_all2 (encoded js crypto) rs jsons" "rest = concat (map wal_frame jsons)" by (auto simp: log_of_def)
  moreover have "encoded js crypto r json"
    unfolding encoded_def using e(1) Cons.prems(2) Cons.prems(3) [OF _ e(1)] assms(2) by auto
  ultimately show ?case unfolding log_of_def using e(3) by (intro exI [of _ "json # jsons"]) simp
qed

lemma log_of_serde: "log_of js crypto rs bs \<Longrightarrow> r \<in> set rs \<Longrightarrow> serde_ok js crypto r"
  by (auto simp: log_of_def list_all2_conv_all_nth encoded_def in_set_conv_nth)

section \<open>Ids of the replicated log\<close>

lemma rfold_next_step:
  assumes "rfold (next_step epoch base) rs n = Inr m"
  shows "n \<le> m \<and> (\<forall>r \<in> set rs. if drop_bit 32 (wr_id r) = epoch then take_bit 32 (wr_id r) < m else wr_id r < base)"
  using assms
proof (induction rs arbitrary: n)
  case (Cons r rs)
  obtain k where k: "next_step epoch base r n = Inr k" "rfold (next_step epoch base) rs k = Inr m"
    using Cons.prems by (auto simp: res_simps)
  have "wr_id r AND (2 ^ 32 - 1) = take_bit 32 (wr_id r)" by (simp add: take_bit_eq_mask mask_eq_exp_minus_1)
  then have "n \<le> k \<and> (if drop_bit 32 (wr_id r) = epoch then take_bit 32 (wr_id r) < k else wr_id r < base)"
    using k(1) by (auto simp: next_step_def REMOTE_RECORD_SEQUENCE_BITS_def REMOTE_RECORD_SEQUENCE_MASK_def split: if_splits)
  then show ?case using Cons.IH [OF k(2)] by (auto split: if_splits)
qed simp

lemma push_or: "n < 2 ^ 32 \<Longrightarrow> push_bit 32 epoch OR n = epoch * 2 ^ 32 + (n :: nat)"
proof -
  assume "n < 2 ^ 32"
  then have n: "n = take_bit 32 n" by (simp add: take_bit_nat_eq_self)
  have "push_bit 32 epoch AND take_bit 32 n = 0" by (rule bit_eqI) (auto simp: bit_simps)
  then show ?thesis using disjunctive_add_eq_or [of "push_bit 32 epoch" n] n by (simp add: push_bit_eq_mult)
qed

section \<open>Properties\<close>

text \<open>
  C2. The log keeps what was acknowledged through a crash. Appending to a log that holds a list of
  records, plain or sealed, leaves in every durable state, each torn write of the frame included, a log that
  is read back as the old records or the old records and the new one. Once the append has returned
  it is the latter, followed by nothing else, and the allocator has moved past the new id.
\<close>

theorem wal_append_durable:
  assumes "log_of js crypto rs (wd_log d)" and "wal_crypto_ok crypto" and "serde_ok js crypto rec" and "length nonce = NONCE_BYTES"
    and "\<forall>json. encode_record js crypto nonce rec = Inr json \<longrightarrow> length json < 2 ^ 32"
    and "append_record js crypto nonce rec d = (states, r)"
  shows "list_all (\<lambda>s. fst (read_all js crypto s) \<in> {Inr rs, Inr (rs @ [rec])}) states
    \<and> (r = Inr () \<longrightarrow> wd_next_id (last states) = wr_id rec + 1 \<and> log_of js crypto (rs @ [rec]) (wd_log (last states))
         \<and> fst (read_all js crypto (last states)) = Inr (rs @ [rec]))"
proof (cases "wr_id rec < wd_next_id d \<or> (\<exists>e. encode_record js crypto nonce rec = Inl e)")
  case True
  then show ?thesis using assms(6) by (auto simp: append_record_def split: if_splits)
next
  case False
  then obtain json where json: "encode_record js crypto nonce rec = Inr json" by (cases "encode_record js crypto nonce rec") auto
  have len: "length json < 2 ^ 32" using assms(5) json by blast
  have enc: "encoded js crypto rec json" using assms(3,4) json len by (auto simp: encoded_def)
  note log' = log_of_append [OF assms(1) enc]
  have torn: "fst (read_all js crypto (d\<lparr>wd_log := wd_log d @ take n (wal_frame json)\<rparr>)) = Inr rs" if "n < length (wal_frame json)" for n
    using read_all_log [OF assms(1,2) debris_torn [OF len that], of d] by auto
  have acked: "fst (read_all js crypto (d\<lparr>wd_log := wd_log d @ wal_frame json, wd_next_id := k\<rparr>)) = Inr (rs @ [rec])" for k
    using read_all_whole [of js crypto "rs @ [rec]" "d\<lparr>wd_log := wd_log d @ wal_frame json, wd_next_id := k\<rparr>"] log' assms(2) by auto
  have acked0: "fst (read_all js crypto (d\<lparr>wd_log := wd_log d @ wal_frame json\<rparr>)) = Inr (rs @ [rec])"
    using acked [of "wd_next_id d"] by simp
  have "list_all (\<lambda>s. fst (read_all js crypto s) \<in> {Inr rs, Inr (rs @ [rec])})
      (map (\<lambda>n. d\<lparr>wd_log := wd_log d @ take n (wal_frame json)\<rparr>) [0..<length (wal_frame json)])"
    unfolding list_all_iff using torn by (auto simp del: length_wal_frame)
  then show ?thesis
    using False assms(6) json acked acked0 log' by (auto simp: append_record_def Let_def split: if_splits)
qed

definition log_rec :: "nat \<Rightarrow> wal_record" where
  "log_rec i = \<lparr>wr_id = i, wr_events = [], wr_source = None, wr_source_offset = None, wr_created_at_ms = 0\<rparr>"

text \<open>A JSON library small enough to compute with: record 0 has a text of 40 bytes, the others one of one byte.\<close>

definition toy_serde :: serde where
  "toy_serde = \<lparr>
     js_record = (\<lambda>r. if wr_id r = 0 then replicate 40 0 else [of_nat (wr_id r)]),
     js_sealed = (\<lambda>x. []),
     js_read_record = (\<lambda>b. Some (log_rec (if length b = 1 then unat (hd b) else 0))),
     js_read_sealed = (\<lambda>_. None)\<rparr>"

lemma toy_serde_ok: "i < 256 \<Longrightarrow> serde_ok toy_serde None (log_rec i)"
  by (simp add: serde_ok_def toy_serde_def log_rec_def unat_of_nat)

theorem wal_append_durable_witness:
  "\<exists>states. append_record toy_serde None (replicate 24 0) (log_rec 3) \<lparr>wd_log = [], wd_next_id = 3\<rparr> = (states, Inr ())
     \<and> fst (read_all toy_serde None (last states)) = Inr [log_rec 3]"
proof -
  let ?d = "\<lparr>wd_log = [], wd_next_id = 3\<rparr>"
  obtain states where a: "append_record toy_serde None (replicate 24 0) (log_rec 3) ?d = (states, Inr ())"
    by (simp add: append_record_def encode_record_def toy_serde_def log_rec_def Let_def)
  have "log_of toy_serde None [] (wd_log ?d)" by (simp add: log_of_def)
  from wal_append_durable [OF this _ toy_serde_ok [of 3] _ _ a] show ?thesis
    using a by (simp add: wal_crypto_ok_def NONCE_BYTES_def encode_record_def toy_serde_def log_rec_def)
qed

text \<open>
  C26. A torn write hides what is acknowledged after it. When a crash left the header and part of the
  body of a frame at the end of the log, reading stops there, and compaction leaves the torn bytes in
  place when no record is dropped. The next append writes its frame after them and returns success;
  as long as the new frame does not reach the end the torn header announced, reading the log
  gives the old records only, so a crash before publication loses an acknowledged batch.
\<close>

theorem torn_tail_hides_append:
  assumes "log_of js crypto rs bs" and "wal_crypto_ok crypto" and "length torn < 2 ^ 32" and "8 \<le> n"
    and "wd_log d = bs @ take n (wal_frame torn)" and "\<forall>r \<in> set rs. f < wr_id r"
    and "append_record js crypto nonce rec d = (states, Inr ())"
    and "encode_record js crypto nonce rec = Inr json" and "n + length (wal_frame json) < length (wal_frame torn)"
  shows "compact_through js crypto nonces (Some f) d = (Inr 0, d) \<and> fst (read_all js crypto (last states)) = Inr rs
    \<and> compact_through js crypto nonces (Some f) (last states) = (Inr 0, last states)"
proof -
  have n: "n < length (wal_frame torn)" using assms(9) by simp
  have kept: "compact_through js crypto nonces (Some f) d' = (Inr 0, d')" if "fst (read_all js crypto d') = Inr rs" for d'
    using that assms(6) by (cases "read_all js crypto d'") (simp add: compact_through_def Let_def filter_True)
  have "take 4 (take n (wal_frame torn) @ wal_frame json) = take 4 (wal_frame torn)" using assms(4) n by simp
  then have "debris (take n (wal_frame torn) @ wal_frame json)"
    using assms(4,9) n frame_fields(1) [OF assms(3)] by (simp add: debris_def)
  moreover have "last states = d\<lparr>wd_next_id := wr_id rec + 1, wd_log := bs @ take n (wal_frame torn) @ wal_frame json\<rparr>"
    using assms(5,7,8) by (auto simp: append_record_def Let_def split: if_splits)
  ultimately have after: "fst (read_all js crypto (last states)) = Inr rs"
    using read_all_log [OF assms(1,2), of "take n (wal_frame torn) @ wal_frame json" "d\<lparr>wd_next_id := wr_id rec + 1\<rparr>"] by auto
  have "d = d\<lparr>wd_log := bs @ take n (wal_frame torn)\<rparr>" using assms(5) by simp
  then have "fst (read_all js crypto d) = Inr rs"
    using read_all_log [OF assms(1,2) debris_torn [OF assms(3) n], of d] by auto
  then show ?thesis using kept after by simp
qed

theorem torn_tail_hides_append_witness:
  "\<exists>states. append_record toy_serde None [] (log_rec 1) \<lparr>wd_log = take 10 (wal_frame (replicate 40 0)), wd_next_id = 0\<rparr> = (states, Inr ())
     \<and> fst (read_all toy_serde None (last states)) = Inr []"
proof -
  let ?d = "\<lparr>wd_log = take 10 (wal_frame (replicate 40 0)), wd_next_id = 0\<rparr>"
  obtain states where a: "append_record toy_serde None [] (log_rec 1) ?d = (states, Inr ())"
    by (simp add: append_record_def encode_record_def toy_serde_def log_rec_def Let_def)
  have e: "encode_record toy_serde None [] (log_rec 1) = Inr [1]" by (simp add: encode_record_def toy_serde_def log_rec_def)
  have "log_of toy_serde None [] []" by (simp add: log_of_def)
  from torn_tail_hides_append [OF this _ _ _ _ _ a e, of "replicate 40 0" 10] show ?thesis
    using a by (simp add: wal_crypto_ok_def)
qed

text \<open>
  C19. Compaction drops exactly what is published. Reading the compacted log gives the records
  above the floor in their order, the result counts the others, the allocator is left alone so
  that no id is used again, and the log is still a log of encoded records under the same keys: a sealed
  record is not rewritten in the clear.
\<close>

theorem compact_drops_applied:
  assumes "log_of js crypto rs (wd_log d)" and "wal_crypto_ok crypto" and "\<forall>i. length (nonce i) = NONCE_BYTES"
    and "\<forall>r \<in> set rs. \<forall>i json. encode_record js crypto (nonce i) r = Inr json \<longrightarrow> length json < 2 ^ 32"
    and "compact_through js crypto nonce (Some f) d = (Inr k, d')"
  shows "fst (read_all js crypto d') = Inr (filter (\<lambda>r. f < wr_id r) rs)
    \<and> log_of js crypto (filter (\<lambda>r. f < wr_id r) rs) (wd_log d')
    \<and> k + length (filter (\<lambda>r. f < wr_id r) rs) = length rs \<and> wd_next_id d' = wd_next_id d"
proof -
  let ?keep = "filter (\<lambda>r. f < wr_id r) rs"
  obtain c' where r: "read_all js crypto d = (Inr rs, c')" "same_keys c' crypto" using read_all_whole [OF assms(1,2)] by blast
  have "log_of js crypto ?keep (wd_log d') \<and> k + length ?keep = length rs \<and> wd_next_id d' = wd_next_id d"
  proof (cases "length ?keep = length rs")
    case True
    then have "?keep = rs" by (metis length_filter_less less_irrefl filter_True)
    then show ?thesis using assms(1,5) r by (simp add: compact_through_def Let_def)
  next
    case False
    then have lt: "length ?keep < length rs" using length_filter_le [of "\<lambda>r. f < wr_id r" rs] by linarith
    obtain buf where buf: "frames js c' nonce ?keep = Inr buf" "d' = d\<lparr>wd_log := buf\<rparr>" "k = length rs - length ?keep"
      using assms(5) r(1) lt by (auto simp: compact_through_def Let_def split: sum.splits)
    have "frames js c' nonce xs = frames js crypto nonce xs" for xs
      by (induction xs) (simp_all add: encode_same [OF r(2)])
    then have "log_of js crypto ?keep buf"
      using buf(1) assms(3,4) log_of_serde [OF assms(1)] by (intro frames_log [of js crypto nonce]) auto
    then show ?thesis using buf lt by simp
  qed
  then show ?thesis using read_all_whole [of js crypto ?keep d'] assms(2) by auto
qed

theorem compact_drops_applied_witness:
  "\<exists>d'. compact_through toy_serde None (\<lambda>_. replicate 24 0) (Some 1)
       \<lparr>wd_log = wal_frame [1] @ wal_frame [2], wd_next_id = 3\<rparr> = (Inr 1, d')
     \<and> fst (read_all toy_serde None d') = Inr [log_rec 2]"
proof -
  let ?d = "\<lparr>wd_log = wal_frame [1] @ wal_frame [2], wd_next_id = 3\<rparr>"
  have enc: "encode_record toy_serde None n (log_rec i) = Inr [of_nat i]" if "i \<noteq> 0" for n i
    using that by (simp add: encode_record_def toy_serde_def log_rec_def)
  have "encoded toy_serde None (log_rec 1) [1]" "encoded toy_serde None (log_rec 2) [2]"
    using toy_serde_ok [of 1] toy_serde_ok [of 2] enc [of 1] enc [of 2] Ex_list_of_length [of NONCE_BYTES] by (auto simp: encoded_def)
  then have log: "log_of toy_serde None [log_rec 1, log_rec 2] (wd_log ?d)"
    unfolding log_of_def by (intro exI [of _ "[[1], [2]]"]) simp
  obtain c' where "read_all toy_serde None ?d = (Inr [log_rec 1, log_rec 2], c')" "same_keys c' None"
    using read_all_whole [OF log] by (auto simp: wal_crypto_ok_def)
  moreover have "wr_id (log_rec i) = i" for i by (simp add: log_rec_def)
  ultimately obtain d' where c: "compact_through toy_serde None (\<lambda>_. replicate 24 0) (Some 1) ?d = (Inr 1, d')"
    using enc [of 2] by (auto simp: compact_through_def Let_def same_keys_def)
  from compact_drops_applied [OF log _ _ _ c] show ?thesis
    using c enc by (simp add: wal_crypto_ok_def NONCE_BYTES_def log_rec_def)
qed

text \<open>
  C20. Replicated ids are fresh and ordered by ownership. An id that is allocated inside an epoch carries that
  epoch in its high half, fits in 64 bits, and is greater than the id of every record in the
  replicated log and in the local one, so a new owner's records come after everything an
  earlier owner wrote.
\<close>

theorem next_record_id_fresh:
  assumes "next_record_id epoch (Inr remotes) locals = Inr i"
  shows "drop_bit 32 i = epoch \<and> 0 < epoch \<and> i < 2 ^ 64 \<and> (\<forall>r \<in> set (remotes @ locals). wr_id r < i)"
proof -
  obtain n where e: "0 < epoch" "epoch < 2 ^ 32" and n: "rfold (next_step epoch (push_bit 32 epoch)) (remotes @ locals) 0 = Inr n"
    and b: "n < 2 ^ 32" and i: "i = push_bit 32 epoch OR n"
    using assms by (auto simp: next_record_id_def Let_def res_simps REMOTE_RECORD_SEQUENCE_BITS_def REMOTE_RECORD_SEQUENCE_MASK_def split: if_splits)
  have i': "i = epoch * 2 ^ 32 + n" using push_or [OF b] i by simp
  have "wr_id r < i" if "r \<in> set (remotes @ locals)" for r
  proof -
    have eq: "drop_bit 32 (wr_id r) * 2 ^ 32 + take_bit 32 (wr_id r) = wr_id r"
      by (simp add: drop_bit_eq_div take_bit_eq_mod)
    have below: "if drop_bit 32 (wr_id r) = epoch then take_bit 32 (wr_id r) < n else wr_id r < epoch * 2 ^ 32"
      using rfold_next_step [OF n] that by (auto simp only: push_bit_eq_mult)
    show ?thesis
    proof (cases "drop_bit 32 (wr_id r) = epoch")
      case True
      then have "epoch * 2 ^ 32 + take_bit 32 (wr_id r) = wr_id r" using eq by simp
      moreover have "take_bit 32 (wr_id r) < n" using below True by simp
      ultimately show ?thesis unfolding i' by linarith
    next
      case False
      then have "wr_id r < epoch * 2 ^ 32" using below by simp
      then show ?thesis unfolding i' by linarith
    qed
  qed
  moreover have "i < 2 ^ 64" using i' b e by simp
  moreover have "drop_bit 32 i = epoch" using i' b by (simp add: drop_bit_eq_div)
  ultimately show ?thesis using e(1) by blast
qed

theorem next_record_id_fresh_witness:
  "\<exists>i. next_record_id 2 (Inr [log_rec 7]) [log_rec 8589934595] = Inr i \<and> 8589934595 < i"
proof -
  have "rfold (next_step 2 (push_bit 32 2)) [log_rec 7, log_rec 8589934595] 0 = Inr 4"
    by (simp add: next_step_def log_rec_def REMOTE_RECORD_SEQUENCE_BITS_def REMOTE_RECORD_SEQUENCE_MASK_def drop_bit_eq_div push_bit_eq_mult)
  then obtain i where i: "next_record_id 2 (Inr [log_rec 7]) [log_rec 8589934595] = Inr i"
    by (simp add: next_record_id_def Let_def REMOTE_RECORD_SEQUENCE_BITS_def REMOTE_RECORD_SEQUENCE_MASK_def)
  from next_record_id_fresh [OF this] show ?thesis using i by (simp add: log_rec_def)
qed

end
