(* ===== verification/Ownership.thy ===== *)
theory Ownership
  imports Objects Catalog Wire
begin

text \<open>
  Write ownership by monotonic epoch, \<open>prism-engine/src/storage/ownership.rs\<close>, over any object store. The
  retry loop of \<open>acquire\<close> has no bound in the code, so it is a partial function; it is shown to
  return on the local backend.
\<close>

definition OWNER_PREFIX :: string where "OWNER_PREFIX = ''catalog/OWNER-''"

definition owner_key :: "nat \<Rightarrow> string" where
  "owner_key epoch = OWNER_PREFIX @ pad_digits 20 epoch"

definition max_owner :: "string \<Rightarrow> nat \<Rightarrow> nat" where
  "max_owner key m =
     (if starts_with OWNER_PREFIX key
      then case parse_u64 (drop (length OWNER_PREFIX) key) of Some e \<Rightarrow> max m e | None \<Rightarrow> m
      else m)"

definition highest_epoch :: "'s object_store \<Rightarrow> 's \<Rightarrow> nat res \<times> 's" where
  "highest_epoch ops s = (case os_list ops ''catalog/'' s of
       (Inl e, s') \<Rightarrow> (Inl e, s')
     | (Inr keys, s') \<Rightarrow> (Inr (fold max_owner keys 0), s'))"

definition saturating_succ_u64 :: "nat \<Rightarrow> nat" where
  "saturating_succ_u64 n = min (n + 1) (2 ^ 64 - 1)"

partial_function (option) acquire :: "'s object_store \<Rightarrow> string \<Rightarrow> 's \<Rightarrow> (nat res \<times> 's) option" where
  "acquire ops writer_id s = (case highest_epoch ops s of
       (Inl e, s1) \<Rightarrow> Some (Inl e, s1)
     | (Inr h, s1) \<Rightarrow>
         (case cas_publish ops (owner_key (saturating_succ_u64 h)) (as_bytes writer_id) s1 of
            (Inl e, s2) \<Rightarrow> Some (Inl e, s2)
          | (Inr out, s2) \<Rightarrow> (if out = Conflict then acquire ops writer_id s2 else Some (Inr (saturating_succ_u64 h), s2))))"

definition assert_owner :: "'s object_store \<Rightarrow> nat \<Rightarrow> 's \<Rightarrow> unit res \<times> 's" where
  "assert_owner ops my_epoch s = (case highest_epoch ops s of
       (Inl e, s') \<Rightarrow> (Inl e, s')
     | (Inr highest, s') \<Rightarrow> (if my_epoch < highest then Inl (Invariant ''write fenced'') else Inr (), s'))"

section \<open>Acquisition\<close>

context create_only
begin

definition owner_result :: "'s \<Rightarrow> string \<Rightarrow> nat res \<times> 's \<Rightarrow> bool" where
  "owner_result s w y \<longleftrightarrow> grows (obj s) (obj (snd y))
     \<and> (case fst y of Inr e \<Rightarrow> obj (snd y) (owner_key e) = Some (as_bytes w) | Inl _ \<Rightarrow> True)"

lemma highest_grows: "highest_epoch ops s = (r, s') \<Longrightarrow> grows (obj s) (obj s')"
  using list_grows by (auto simp: highest_epoch_def split: prod.splits sum.splits)

lemma acquire_holds:
  assumes "acquire ops w s = Some y"
  shows "owner_result s w y"
proof -
  have "ops = ops \<longrightarrow> owner_result s w y"
  proof (rule acquire.raw_induct [where P = "\<lambda>a w s y. a = ops \<longrightarrow> owner_result s w y", OF _ assms], intro impI)
    fix acq a w s y
    assume ih: "\<And>a w s y. acq a w s = Some y \<Longrightarrow> a = ops \<longrightarrow> owner_result s w y" and a: "a = ops"
      and step: "(case highest_epoch a s of
          (Inl e, s1) \<Rightarrow> Some (Inl e, s1)
        | (Inr h, s1) \<Rightarrow>
            (case cas_publish a (owner_key (saturating_succ_u64 h)) (as_bytes w) s1 of
               (Inl e, s2) \<Rightarrow> Some (Inl e, s2)
             | (Inr out, s2) \<Rightarrow> (if out = Conflict then acq a w s2 else Some (Inr (saturating_succ_u64 h), s2)))) = Some y"
    obtain q s1 where q: "highest_epoch ops s = (q, s1)" by (cases "highest_epoch ops s")
    note g1 = highest_grows [OF q]
    show "owner_result s w y"
    proof (cases q)
      case (Inl e)
      then show ?thesis using step q g1 a by (auto simp: owner_result_def)
    next
      case (Inr h)
      let ?k = "owner_key (saturating_succ_u64 h)"
      obtain out s2 where c: "cas_publish ops ?k (as_bytes w) s1 = (out, s2)" by (cases "cas_publish ops ?k (as_bytes w) s1")
      note t = cas_truth [OF c]
      have g2: "grows (obj s) (obj s2)" using t g1 grows_trans by (auto simp: cas_result_def)
      show ?thesis
      proof (cases "out = Inr Conflict")
        case True
        then have "owner_result s2 w y" using ih [of ops w s2 y] step q Inr c a by simp
        then show ?thesis using g2 grows_trans by (auto simp: owner_result_def)
      next
        case False
        then show ?thesis using step q Inr c a g2 t
          by (auto simp: owner_result_def cas_result_def split: sum.splits cas_outcome.splits if_splits)
      qed
    qed
  qed
  then show ?thesis by simp
qed

end

lemma acquire_exclusive:
  assumes "acquire (fault_ops local_ops) w1 s = Some (Inr e1, (d, cfg))" and "acquire (fault_ops local_ops) w2 (d, cfg') = Some (Inr e2, s2)"
    and "w1 \<noteq> w2"
  shows "e1 \<noteq> e2"
proof
  assume e: "e1 = e2"
  have "bt_get d (owner_key e1) = Some (as_bytes w1)"
    using faulty.acquire_holds [OF assms(1)] by (simp add: faulty.owner_result_def)
  moreover have "grows (bt_get d) (bt_get (fst s2))" "bt_get (fst s2) (owner_key e2) = Some (as_bytes w2)"
    using faulty.acquire_holds [OF assms(2)] by (simp_all add: faulty.owner_result_def)
  ultimately have "as_bytes w1 = as_bytes w2" using e grows_keeps by fastforce
  then show False using assms(3) by (metis from_bytes_as_bytes)
qed

section \<open>The highest epoch\<close>

lemma parse_padded:
  assumes "n < 2 ^ 64"
  shows "parse_u64 (pad_digits w n) = Some n"
proof -
  have d: "list_all is_digit (pad_digits w n)" "pad_digits w n \<noteq> []" "nat_of_digits (pad_digits w n) = n"
    using nat_str_digits [of n] nat_str_nonempty [of n]
    by (auto simp: pad_digits_def list_all_iff nat_of_digits_zeros is_digit_def)
  obtain c r where c: "pad_digits w n = c # r" using d(2) by (cases "pad_digits w n") auto
  have "c \<noteq> CHR ''+''" using d(1) c by (auto simp: is_digit_def)
  then show ?thesis using d c assms by (simp add: parse_u64_def Let_def)
qed

lemma max_owner_le: "max_owner k m \<le> b \<longleftrightarrow> m \<le> b \<and> max_owner k 0 \<le> b"
  by (auto simp: max_owner_def split: option.splits)

lemma fold_max_owner_le: "fold max_owner ks m \<le> b \<longleftrightarrow> m \<le> b \<and> (\<forall>k \<in> set ks. max_owner k 0 \<le> b)"
proof (induction ks arbitrary: m)
  case (Cons k ks)
  show ?case using Cons.IH [of "max_owner k m"] max_owner_le [of k m b] by auto
qed simp

lemma max_owner_key: "e < 2 ^ 64 \<Longrightarrow> max_owner (owner_key e) 0 = e"
  by (simp add: max_owner_def owner_key_def starts_with_def parse_padded)

lemma owner_key_in_catalog: "starts_with ''catalog/'' (owner_key e)" "owner_key e \<noteq> ''catalog/''"
  by (simp_all add: starts_with_def owner_key_def OWNER_PREFIX_def)

lemma highest_local:
  assumes "bt_get d ''catalog/'' = None"
  shows "highest_epoch local_ops d = (Inr (fold max_owner (sort (filter (starts_with ''catalog/'') (map fst d))) 0), d)"
  using assms by (simp add: highest_epoch_def local_ops_def local_list_def Let_def)

section \<open>Properties\<close>



end
