(* ===== verification/Merge.thy ===== *)
theory Merge
  imports Catalog Events
begin

text \<open>
  Reconciliation of rows by a merge, \<open>prism-engine/src/merge.rs\<close>: the duplicate policy, the loop of the full
  merge over the rows of every part, the loop of one operation of the tiered merge, and which parts a
  tiered cycle keeps. A part enters as the generation of its manifest and the rows \<open>read_all\<close> returned;
  writing the merged parts is file work and not modelled.
\<close>

section \<open>Rows\<close>

record row_in =
  ri_event :: event
  ri_centroid :: u32
  ri_code :: "byte list"
  ri_vector :: "f32 list"

definition supersedes :: "event \<Rightarrow> event \<Rightarrow> bool" where
  "supersedes new old =
     (if event_time old < event_time new then True
      else if event_time new < event_time old then False
      else content_hash old < content_hash new)"

type_synonym row_bucket = "(string \<times> row_in) list"

text \<open>The \<open>match\<close> on the row already held under the event id; the number counts a reconciled duplicate.\<close>

definition reconcile :: "row_in \<Rightarrow> row_bucket \<Rightarrow> row_bucket \<times> nat" where
  "reconcile row b = (case bt_get b (event_id (ri_event row)) of
       Some existing \<Rightarrow> if \<not> supersedes (ri_event row) (ri_event existing) then (b, 1)
         else (bt_insert (event_id (ri_event row)) row b, 1)
     | None \<Rightarrow> (bt_insert (event_id (ri_event row)) row b, 0))"

definition partition_of :: "partition_scheme \<Rightarrow> string \<Rightarrow> event \<Rightarrow> partition_key" where
  "partition_of scheme generation e =
     \<lparr>pk_bucket = bucket_of scheme (tenant_id e), pk_window = window_of scheme (event_time e), pk_generation = generation\<rparr>"

type_synonym merge_state = "(key_order \<times> row_bucket) list \<times> nat"

definition merge_row :: "partition_scheme \<Rightarrow> snapshot \<Rightarrow> string \<Rightarrow> row_in \<Rightarrow> merge_state \<Rightarrow> merge_state" where
  "merge_row scheme snap generation row st = (case st of (m, dups) \<Rightarrow>
     if is_tombstoned snap (event_id (ri_event row)) then (m, dups)
     else let key = key_order (partition_of scheme generation (ri_event row));
              b = (case bt_get m key of Some b \<Rightarrow> b | None \<Rightarrow> []) in
          case reconcile row b of (b', d) \<Rightarrow> (bt_insert key b' m, dups + d))"

definition merge_rows :: "partition_scheme \<Rightarrow> snapshot \<Rightarrow> (string \<times> row_in list) list \<Rightarrow> merge_state" where
  "merge_rows scheme snap parts =
     fold (\<lambda>(generation, rows). fold (merge_row scheme snap generation) rows) parts ([], 0)"

text \<open>One operation of a tiered merge: all its parts go to one bucket, under the key of its first live row.\<close>

definition tiered_row :: "partition_scheme \<Rightarrow> snapshot \<Rightarrow> string \<Rightarrow> row_in \<Rightarrow> row_bucket \<times> partition_key option \<times> nat \<Rightarrow>
    row_bucket \<times> partition_key option \<times> nat" where
  "tiered_row scheme snap generation row st = (case st of (merged, key, dups) \<Rightarrow>
     if is_tombstoned snap (event_id (ri_event row)) then (merged, key, dups)
     else let key' = (case key of None \<Rightarrow> Some (partition_of scheme generation (ri_event row)) | Some k \<Rightarrow> Some k) in
          case reconcile row merged of (merged', d) \<Rightarrow> (merged', key', dups + d))"

definition tiered_op :: "partition_scheme \<Rightarrow> snapshot \<Rightarrow> (string \<times> row_in list) list \<Rightarrow>
    row_bucket \<times> partition_key option \<times> nat" where
  "tiered_op scheme snap parts =
     fold (\<lambda>(generation, rows). fold (tiered_row scheme snap generation) rows) parts ([], None, 0)"

definition consumed :: "merge_plan \<Rightarrow> string set" where
  "consumed plan = set (concat (map mo_part_ids (mp_ops plan)))"

definition kept_parts :: "snapshot \<Rightarrow> merge_plan \<Rightarrow> part_entry list" where
  "kept_parts snap plan = filter (\<lambda>e. case entry_located e of
       Some r \<Rightarrow> pr_part_id r \<notin> consumed plan | None \<Rightarrow> True) (sn_parts snap)"

section \<open>The survivor of a group\<close>

definition row_rank :: "row_in \<Rightarrow> i64 \<times> string" where
  "row_rank r = (event_time (ri_event r), content_hash (ri_event r))"

lemma supersedes_rank: "supersedes (ri_event a) (ri_event b) \<longleftrightarrow> row_rank b < row_rank a"
  by (auto simp: supersedes_def row_rank_def less_prod_def)

definition held_at :: "row_bucket \<Rightarrow> row_in list \<Rightarrow> string \<Rightarrow> bool" where
  "held_at b rows e \<longleftrightarrow> (case bt_get b e of
        None \<Rightarrow> \<forall>r \<in> set rows. event_id (ri_event r) \<noteq> e
      | Some r \<Rightarrow> r \<in> set rows \<and> event_id (ri_event r) = e
          \<and> (\<forall>r' \<in> set rows. event_id (ri_event r') = e \<longrightarrow> row_rank r' \<le> row_rank r))"

definition held :: "row_bucket \<Rightarrow> row_in list \<Rightarrow> bool" where
  "held b rows \<longleftrightarrow> bt_wf b \<and> (\<forall>e. held_at b rows e)"

lemma held_Nil: "held [] []"
  by (simp add: held_def held_at_def)

lemma held_at_insert:
  assumes wf: "bt_wf b" and h: "\<forall>e. held_at b rows e"
    and above: "\<And>x. bt_get b (event_id (ri_event row)) = Some x \<Longrightarrow> row_rank x \<le> row_rank row"
  shows "held_at (bt_insert (event_id (ri_event row)) row b) (rows @ [row]) e"
proof (cases "e = event_id (ri_event row)")
  case True
  have "row_rank r \<le> row_rank row" if "r \<in> set rows" "event_id (ri_event r) = e" for r
  proof (cases "bt_get b e")
    case None
    then show ?thesis using h [rule_format, of e] that by (auto simp: held_at_def)
  next
    case (Some x)
    then have "row_rank r \<le> row_rank x" using h [rule_format, of e] that by (auto simp: held_at_def)
    then show ?thesis using above Some True by fastforce
  qed
  then show ?thesis using True by (auto simp: held_at_def bt_get_insert)
next
  case False
  then have "bt_get (bt_insert (event_id (ri_event row)) row b) e = bt_get b e" by simp
  then show ?thesis using h [rule_format, of e] False by (cases "bt_get b e") (auto simp: held_at_def)
qed

lemma held_reconcile:
  assumes "held b rows" and "reconcile row b = (b', d)"
  shows "held b' (rows @ [row]) \<and> length b' + d = length b + 1"
proof -
  let ?i = "event_id (ri_event row)"
  have wf: "bt_wf b" and h: "\<forall>e. held_at b rows e" using assms(1) by (simp_all add: held_def)
  note len = length_bt_insert [OF wf, of ?i row]
  show ?thesis
  proof (cases "bt_get b ?i")
    case None
    then have b': "b' = bt_insert ?i row b" "d = 0" using assms(2) by (simp_all add: reconcile_def)
    have "held_at b' (rows @ [row]) e" for e unfolding b' by (rule held_at_insert [OF wf h]) (simp add: None)
    then show ?thesis using wf len None b' by (simp add: held_def)
  next
    case (Some x)
    show ?thesis
    proof (cases "row_rank x < row_rank row")
      case True
      then have b': "b' = bt_insert ?i row b" "d = 1"
        using assms(2) Some supersedes_rank [of row x] by (simp_all add: reconcile_def)
      have "held_at b' (rows @ [row]) e" for e unfolding b' by (rule held_at_insert [OF wf h]) (use Some True in simp)
      then show ?thesis using wf len Some b' by (simp add: held_def)
    next
      case False
      then have b': "b' = b" "d = 1" using assms(2) Some supersedes_rank [of row x] by (simp_all add: reconcile_def)
      have "held_at b (rows @ [row]) e" for e
        using h [rule_format, of e] Some False by (cases "bt_get b e") (auto simp: held_at_def not_less)
      then show ?thesis using wf b' by (simp add: held_def)
    qed
  qed
qed

section \<open>The whole merge\<close>

definition flat_rows :: "(string \<times> row_in list) list \<Rightarrow> (string \<times> row_in) list" where
  "flat_rows parts = concat (map (\<lambda>(g, rows). map (\<lambda>r. (g, r)) rows) parts)"

definition live :: "snapshot \<Rightarrow> (string \<times> row_in) list \<Rightarrow> (string \<times> row_in) list" where
  "live snap prs = filter (\<lambda>(_, r). \<not> is_tombstoned snap (event_id (ri_event r))) prs"

definition group_rows :: "partition_scheme \<Rightarrow> snapshot \<Rightarrow> (string \<times> row_in) list \<Rightarrow> key_order \<Rightarrow> row_in list" where
  "group_rows scheme snap prs x =
     map snd (filter (\<lambda>(g, r). key_order (partition_of scheme g (ri_event r)) = x) (live snap prs))"

lemma merge_rows_flat: "merge_rows scheme snap parts = fold (\<lambda>(g, r). merge_row scheme snap g r) (flat_rows parts) ([], 0)"
proof -
  have "fold (\<lambda>(g, rows). fold (merge_row scheme snap g) rows) parts st = fold (\<lambda>(g, r). merge_row scheme snap g r) (flat_rows parts) st"
    for st
    by (induction parts arbitrary: st) (auto simp: flat_rows_def fold_map o_def)
  then show ?thesis by (simp add: merge_rows_def)
qed

definition merge_inv :: "partition_scheme \<Rightarrow> snapshot \<Rightarrow> (string \<times> row_in) list \<Rightarrow> merge_state \<Rightarrow> bool" where
  "merge_inv scheme snap prs st \<longleftrightarrow> (case st of (m, dups) \<Rightarrow> bt_wf m
     \<and> (\<forall>x. held (case bt_get m x of Some b \<Rightarrow> b | None \<Rightarrow> []) (group_rows scheme snap prs x))
     \<and> length (concat (map snd m)) + dups = length (live snap prs))"

lemma length_concat_bt_insert:
  assumes "bt_wf m"
  shows "length (concat (map snd (bt_insert k v m))) + length (case bt_get m k of Some q \<Rightarrow> q | None \<Rightarrow> []) = length v + length (concat (map snd m))"
proof -
  have "size (mset (concat (map ((\<lambda>q. q) \<circ> snd) (bt_insert k v m))) + mset (case bt_get m k of Some q \<Rightarrow> q | None \<Rightarrow> []))
      = size (mset v + mset (concat (map ((\<lambda>q. q) \<circ> snd) m)))"
    using mset_bt_insert [OF assms, of "\<lambda>q. q" k v] by metis
  then show ?thesis by (simp only: size_union size_mset o_def)
qed

lemma merge_inv_step:
  assumes "merge_inv scheme snap prs st"
  shows "merge_inv scheme snap (prs @ [(g, r)]) (merge_row scheme snap g r st)"
proof (cases "is_tombstoned snap (event_id (ri_event r))")
  case True
  then show ?thesis using assms by (auto simp: merge_inv_def merge_row_def group_rows_def live_def)
next
  case False
  obtain m dups where st: "st = (m, dups)" by (cases st)
  let ?k = "key_order (partition_of scheme g (ri_event r))"
  let ?b = "case bt_get m ?k of Some b \<Rightarrow> b | None \<Rightarrow> []"
  obtain b' d where rc: "reconcile r ?b = (b', d)" by (cases "reconcile r ?b")
  have wf: "bt_wf m" and held: "\<And>x. held (case bt_get m x of Some b \<Rightarrow> b | None \<Rightarrow> []) (group_rows scheme snap prs x)"
    and len: "length (concat (map snd m)) + dups = length (live snap prs)"
    using assms st by (auto simp: merge_inv_def)
  have h: "held b' (group_rows scheme snap prs ?k @ [r])" "length b' + d = length ?b + 1"
    using held_reconcile [OF held rc] by auto
  have e: "merge_row scheme snap g r st = (bt_insert ?k b' m, dups + d)"
    using False rc by (simp add: merge_row_def st)
  have l: "live snap (prs @ [(g, r)]) = live snap prs @ [(g, r)]" using False by (simp add: live_def)
  have gr: "group_rows scheme snap (prs @ [(g, r)]) x = group_rows scheme snap prs x @ (if x = ?k then [r] else [])" for x
    unfolding group_rows_def l by auto
  have "held (case bt_get (bt_insert ?k b' m) x of Some b \<Rightarrow> b | None \<Rightarrow> []) (group_rows scheme snap (prs @ [(g, r)]) x)" for x
    using held [of x] h(1) by (cases "x = ?k") (simp_all add: gr)
  moreover have "length (concat (map snd (bt_insert ?k b' m))) + (dups + d) = length (live snap (prs @ [(g, r)]))"
    using length_concat_bt_insert [OF wf, of ?k b'] h(2) len by (simp add: l)
  ultimately show ?thesis using wf by (simp add: merge_inv_def e)
qed

lemma merge_inv_all: "merge_inv scheme snap (flat_rows parts) (merge_rows scheme snap parts)"
proof -
  have "merge_inv scheme snap (qs @ prs) (fold (\<lambda>(g, r). merge_row scheme snap g r) prs st)"
    if "merge_inv scheme snap qs st" for qs prs st
    using that
  proof (induction prs arbitrary: qs st)
    case (Cons p prs)
    obtain g r where p: "p = (g, r)" by (cases p)
    show ?case using Cons.IH [OF merge_inv_step [OF Cons.prems, of g r]] p by simp
  qed simp
  moreover have "merge_inv scheme snap [] ([], 0)" by (simp add: merge_inv_def held_Nil group_rows_def live_def)
  ultimately show ?thesis unfolding merge_rows_flat by (metis append_Nil)
qed

section \<open>Properties\<close>

definition same_event :: "partition_scheme \<Rightarrow> snapshot \<Rightarrow> (string \<times> row_in list) list \<Rightarrow> key_order \<Rightarrow> string \<Rightarrow> row_in list" where
  "same_event scheme snap parts x e =
     filter (\<lambda>r. event_id (ri_event r) = e) (group_rows scheme snap (flat_rows parts) x)"


text \<open>The state of a tiered operation and the state of a full merge over the same rows, all of one partition.\<close>

definition same_state :: "partition_key \<Rightarrow> merge_state \<Rightarrow> row_bucket \<times> partition_key option \<times> nat \<Rightarrow> bool" where
  "same_state k full tier \<longleftrightarrow> tier = ([], None, 0) \<and> full = ([], 0)
     \<or> (\<exists>b d. tier = (b, Some k, d) \<and> full = ([(key_order k, b)], d))"

lemma same_state_step:
  assumes "same_state k full tier"
    and "\<not> is_tombstoned snap (event_id (ri_event r)) \<Longrightarrow> partition_of scheme g (ri_event r) = k"
  shows "same_state k (merge_row scheme snap g r full) (tiered_row scheme snap g r tier)"
proof (cases "is_tombstoned snap (event_id (ri_event r))")
  case True
  then show ?thesis using assms(1) by (auto simp: same_state_def merge_row_def tiered_row_def)
next
  case False
  then have k: "partition_of scheme g (ri_event r) = k" by (rule assms(2))
  from assms(1) consider "tier = ([], None, 0)" "full = ([], 0)" | b d where "tier = (b, Some k, d)" "full = ([(key_order k, b)], d)"
    by (auto simp: same_state_def)
  then show ?thesis
  proof cases
    case 1
    then show ?thesis using False k
      by (cases "reconcile r []") (simp add: same_state_def merge_row_def tiered_row_def Let_def bt_get_def)
  next
    case (2 b d)
    then show ?thesis using False k
      by (cases "reconcile r b") (simp add: same_state_def merge_row_def tiered_row_def Let_def bt_get_def)
  qed
qed

lemma tiered_op_flat:
  "tiered_op scheme snap parts = fold (\<lambda>(g, r). tiered_row scheme snap g r) (flat_rows parts) ([], None, 0)"
proof -
  have "fold (\<lambda>(g, rows). fold (tiered_row scheme snap g) rows) parts st = fold (\<lambda>(g, r). tiered_row scheme snap g r) (flat_rows parts) st"
    for st
    by (induction parts arbitrary: st) (auto simp: flat_rows_def fold_map o_def)
  then show ?thesis by (simp add: tiered_op_def)
qed

text \<open>
  C17. One operation of the tiered merge does what the full merge does. When the live rows of its parts
  all belong to one partition, the operation and the full merge over the same parts hold the same rows,
  count the same duplicates and address the same partition, and the operation writes nothing exactly
  when the full merge has no partition to write.
\<close>

theorem tiered_is_full:
  assumes "\<forall>(g, r) \<in> set (live snap (flat_rows parts)). partition_of scheme g (ri_event r) = k"
  shows "(case tiered_op scheme snap parts of
       (b, None, d) \<Rightarrow> b = [] \<and> d = 0 \<and> merge_rows scheme snap parts = ([], 0)
     | (b, Some k', d) \<Rightarrow> k' = k \<and> merge_rows scheme snap parts = ([(key_order k, b)], d))"
proof -
  have "same_state k (fold (\<lambda>(g, r). merge_row scheme snap g r) prs full) (fold (\<lambda>(g, r). tiered_row scheme snap g r) prs tier)"
    if "same_state k full tier" and "\<forall>(g, r) \<in> set (live snap prs). partition_of scheme g (ri_event r) = k" for prs full tier
    using that
  proof (induction prs arbitrary: full tier)
    case (Cons p prs)
    obtain g r where p: "p = (g, r)" by (cases p)
    have "same_state k (merge_row scheme snap g r full) (tiered_row scheme snap g r tier)"
      using Cons.prems p by (intro same_state_step) (auto simp: live_def)
    moreover have "\<forall>(g, r) \<in> set (live snap prs). partition_of scheme g (ri_event r) = k"
      using Cons.prems(2) by (auto simp: live_def)
    ultimately show ?case using Cons.IH p by simp
  qed simp
  then have "same_state k (merge_rows scheme snap parts) (tiered_op scheme snap parts)"
    using assms by (simp add: merge_rows_flat tiered_op_flat same_state_def)
  then show ?thesis by (auto simp: same_state_def)
qed

text \<open>
  C27. The policy looks at the event id alone. Two rows of different tenants that hash to one bucket and
  fall in one window are duplicates of each other when they carry the same event id: the merged
  partition holds only the later one and the other tenant's event is gone.
\<close>

theorem merge_crosses_tenants:
  assumes "event_id (ri_event a) = event_id (ri_event b)"
    and "bucket_of scheme (tenant_id (ri_event a)) = bucket_of scheme (tenant_id (ri_event b))"
    and "window_of scheme (event_time (ri_event a)) = window_of scheme (event_time (ri_event b))"
    and "event_time (ri_event a) < event_time (ri_event b)" and "\<not> is_tombstoned snap (event_id (ri_event b))"
  shows "merge_rows scheme snap [(g, [a, b])] = merge_rows scheme snap [(g, [b, a])]
    \<and> map snd (concat (map snd (fst (merge_rows scheme snap [(g, [a, b])])))) = [b]"
  using assms by (simp add: merge_rows_def merge_row_def reconcile_def supersedes_def partition_of_def Let_def bt_get_def)

definition sample_row :: "string \<Rightarrow> i64 \<Rightarrow> row_in" where
  "sample_row t tm = \<lparr>ri_event = sample_event\<lparr>tenant_id := t, event_time := tm\<rparr>, ri_centroid = 0, ri_code = [], ri_vector = []\<rparr>"

definition one_bucket :: partition_scheme where
  "one_bucket = \<lparr>ps_buckets = 1, ps_time_window_ms = 1000, ps_dedicated = []\<rparr>"

theorem merge_crosses_tenants_witness:
  "map (tenant_id \<circ> ri_event \<circ> snd) (concat (map snd
     (fst (merge_rows one_bucket empty_snapshot [(''g'', [sample_row ''acme'' 5, sample_row ''other'' 6])])))) = [''other'']"
proof -
  have m: "(x :: u32) mod 1 = 0" for x by (simp add: word_uint_eq_iff uint_mod)
  have "\<not> is_tombstoned empty_snapshot i" for i by (simp add: is_tombstoned_def binary_search_def empty_snapshot_def)
  moreover have "bucket_of one_bucket t = Shared 0" for t by (simp add: bucket_of_def one_bucket_def m)
  ultimately have "map snd (concat (map snd (fst (merge_rows one_bucket empty_snapshot
      [(''g'', [sample_row ''acme'' 5, sample_row ''other'' 6])])))) = [sample_row ''other'' 6]"
    by (intro conjunct2 [OF merge_crosses_tenants]) (simp_all add: sample_row_def window_of_def one_bucket_def)
  then have "map (tenant_id \<circ> ri_event) (map snd (concat (map snd (fst (merge_rows one_bucket empty_snapshot
      [(''g'', [sample_row ''acme'' 5, sample_row ''other'' 6])]))))) = [tenant_id (ri_event (sample_row ''other'' 6))]" by simp
  then show ?thesis by (simp add: sample_row_def o_assoc)
qed

theorem tiered_is_full_witness:
  "case tiered_op one_bucket empty_snapshot [(''g'', [sample_row ''acme'' 5]), (''g'', [sample_row ''acme'' 6])] of
     (b, None, d) \<Rightarrow> False
   | (b, Some k', d) \<Rightarrow> merge_rows one_bucket empty_snapshot [(''g'', [sample_row ''acme'' 5]), (''g'', [sample_row ''acme'' 6])]
       = ([(key_order k', b)], d)"
proof -
  let ?parts = "[(''g'', [sample_row ''acme'' 5]), (''g'', [sample_row ''acme'' 6])]"
  have t: "\<not> is_tombstoned empty_snapshot i" for i by (simp add: is_tombstoned_def binary_search_def empty_snapshot_def)
  then have "tiered_op one_bucket empty_snapshot ?parts \<noteq> (b, None, d)" for b d
    by (auto simp: tiered_op_def tiered_row_def Let_def split: prod.splits)
  moreover have "\<forall>(g, r) \<in> set (live empty_snapshot (flat_rows ?parts)).
      partition_of one_bucket g (ri_event r) = partition_of one_bucket ''g'' (ri_event (sample_row ''acme'' 5))"
    by (simp add: live_def flat_rows_def partition_of_def sample_row_def window_of_def one_bucket_def)
  from tiered_is_full [OF this] show ?thesis
    using calculation by (auto split: prod.splits option.splits)
qed

text \<open>
  A tie is broken by position. Two rows that differ only in the arrival time have the same rank,
  and the merge keeps the one it reads first, so the arrival time a query sees after the merge
  depends on which part each copy was in.
\<close>

lemma merge_tie_by_position:
  assumes "\<not> is_tombstoned snap (event_id (ri_event a))"
  shows "map snd (concat (map snd (fst (merge_rows scheme snap [(g, [a]), (g, [a\<lparr>ri_event := (ri_event a)\<lparr>observed_time := t\<rparr>\<rparr>])])))) = [a]
    \<and> map snd (concat (map snd (fst (merge_rows scheme snap [(g, [a\<lparr>ri_event := (ri_event a)\<lparr>observed_time := t\<rparr>\<rparr>]), (g, [a])]))))
      = [a\<lparr>ri_event := (ri_event a)\<lparr>observed_time := t\<rparr>\<rparr>]"
proof -
  have "content_hash ((ri_event a)\<lparr>observed_time := t\<rparr>) = content_hash (ri_event a)"
    by (simp add: content_hash_def content_bytes_def)
  then show ?thesis
    using assms by (simp add: merge_rows_def merge_row_def reconcile_def supersedes_def partition_of_def Let_def bt_get_def)
qed

end
