(* ===== verification/RoundRobin.thy ===== *)
theory RoundRobin
  imports Prelude "HOL-Library.Multiset"
begin

text \<open>
  Round-robin service of a row of queues: one element of each non-empty queue per pass, until a pass
  finds every queue empty. Admission (\<open>interleave_by_tenant\<close>) and the merge scheduler
  (\<open>plan_merges\<close>) both run such a loop; here is the loop, its closed form as the concatenated
  transpose of the queues, and the bound on how long an element waits.
\<close>

section \<open>The loop\<close>

text \<open>One pass: pop the front of every queue. The result is the queues left and the elements popped.\<close>

fun rr_pass :: "'a list list \<Rightarrow> 'a list list \<times> 'a list" where
  "rr_pass [] = ([], [])"
| "rr_pass ([] # qs) = (case rr_pass qs of (qs', out) \<Rightarrow> ([] # qs', out))"
| "rr_pass ((x # q) # qs) = (case rr_pass qs of (qs', out) \<Rightarrow> (q # qs', x # out))"

definition queued :: "'a list list \<Rightarrow> nat" where
  "queued qs = sum_list (map length qs)"

lemma rr_pass_queued: "rr_pass qs = (qs', out) \<Longrightarrow> queued qs = queued qs' + length out"
  by (induction qs arbitrary: qs' out rule: rr_pass.induct) (auto simp: queued_def split: prod.splits)

lemma rr_pass_eq:
  "rr_pass qs = (map tl qs, map hd (filter (\<lambda>q. q \<noteq> []) qs))"
  by (induction qs rule: rr_pass.induct) auto

function rr_loop :: "'a list list \<Rightarrow> 'a list \<Rightarrow> 'a list" where
  "rr_loop qs acc = (case rr_pass qs of (qs', out) \<Rightarrow> if out = [] then acc else rr_loop qs' (acc @ out))"
  by pat_completeness auto

termination
  by (relation "measure (\<lambda>(qs, _). queued qs)") (auto dest!: rr_pass_queued [OF sym])

declare rr_loop.simps [simp del]

section \<open>The closed form\<close>

lemma transpose_step:
  "concat (transpose qs) =
     map hd (filter (\<lambda>q. q \<noteq> []) qs) @ concat (transpose (map tl (filter (\<lambda>q. q \<noteq> []) qs)))"
proof (induction qs rule: transpose.induct)
  case (3 x xs xss)
  have "concat (map (case_list [] (\<lambda>h t. [h])) xss) = map hd (filter (\<lambda>q. q \<noteq> []) xss)"
    by (induction xss) (auto split: list.splits)
  moreover have "concat (map (case_list [] (\<lambda>h t. [t])) xss) = map tl (filter (\<lambda>q. q \<noteq> []) xss)"
    by (induction xss) (auto split: list.splits)
  ultimately show ?case by simp
qed simp_all

lemma transpose_drop_empty: "transpose (filter (\<lambda>q. q \<noteq> []) qs) = transpose qs"
proof (induction qs rule: transpose.induct)
  case (3 x xs xss)
  have "concat (map (case_list [] (\<lambda>h t. [h])) (filter (\<lambda>q. q \<noteq> []) xss)) = concat (map (case_list [] (\<lambda>h t. [h])) xss)"
    "concat (map (case_list [] (\<lambda>h t. [t])) (filter (\<lambda>q. q \<noteq> []) xss)) = concat (map (case_list [] (\<lambda>h t. [t])) xss)"
    by (induction xss) (auto split: list.splits)
  then show ?case by simp
qed simp_all

lemma concat_transpose_step:
  "concat (transpose qs) = map hd (filter (\<lambda>q. q \<noteq> []) qs) @ concat (transpose (map tl qs))"
proof -
  have "filter (\<lambda>q. q \<noteq> []) (map tl qs) = filter (\<lambda>q. q \<noteq> []) (map tl (filter (\<lambda>q. q \<noteq> []) qs))"
    by (induction qs) auto
  then have "transpose (map tl qs) = transpose (map tl (filter (\<lambda>q. q \<noteq> []) qs))"
    by (metis transpose_drop_empty)
  then show ?thesis using transpose_step [of qs] by simp
qed

lemma rr_loop_transpose: "rr_loop qs acc = acc @ concat (transpose qs)"
proof (induction qs acc rule: rr_loop.induct)
  case (1 qs acc)
  show ?case
  proof (cases "map hd (filter (\<lambda>q. q \<noteq> []) qs) = []")
    case True
    then have "filter (\<lambda>q. q \<noteq> []) qs = []" by simp
    then have "transpose qs = []" by (metis transpose.simps(1) transpose_drop_empty)
    then show ?thesis using True by (subst rr_loop.simps) (simp add: rr_pass_eq)
  next
    case False
    then have "rr_loop qs acc = rr_loop (map tl qs) (acc @ map hd (filter (\<lambda>q. q \<noteq> []) qs))"
      by (subst rr_loop.simps) (simp add: rr_pass_eq)
    also have "\<dots> = acc @ map hd (filter (\<lambda>q. q \<noteq> []) qs) @ concat (transpose (map tl qs))"
      using 1 [OF rr_pass_eq [symmetric] False] by simp
    finally show ?thesis using concat_transpose_step [of qs] by simp
  qed
qed

section \<open>What the loop promises\<close>

lemma rr_loop_mset: "mset (rr_loop qs acc) = mset acc + mset (concat qs)"
proof (induction qs acc rule: rr_loop.induct)
  case (1 qs acc)
  have m: "mset (concat qs) = mset (map hd (filter (\<lambda>q. q \<noteq> []) qs)) + mset (concat (map tl qs))"
  proof (induction qs)
    case (Cons q qs)
    then show ?case by (cases q) simp_all
  qed simp
  show ?case
  proof (cases "map hd (filter (\<lambda>q. q \<noteq> []) qs) = []")
    case True
    then have "concat qs = []" by (auto simp: filter_empty_conv)
    then show ?thesis using True by (subst rr_loop.simps) (simp add: rr_pass_eq)
  next
    case False
    then show ?thesis
      using 1 [OF rr_pass_eq [symmetric] False] m by (subst rr_loop.simps) (simp add: rr_pass_eq)
  qed
qed

text \<open>The waiting bound: element \<open>i\<close> of any queue is served among the first \<open>(i + 1) * n\<close> elements,
  where \<open>n\<close> is the number of queues, however long the other queues are.\<close>

lemma concat_take_le:
  "(\<And>x. x \<in> set xs \<Longrightarrow> length x \<le> n) \<Longrightarrow> length (concat (take i xs)) \<le> i * n"
proof (induction xs arbitrary: i)
  case (Cons x xs)
  then show ?case by (cases i) (auto intro: add_mono)
qed simp

lemma transpose_row_length:
  assumes "r \<in> set (transpose qs)"
  shows "length r \<le> length qs"
  using assms by (auto simp: in_set_conv_nth nth_transpose)

lemma foldr_max_le: "q \<in> set qs \<Longrightarrow> length q \<le> foldr (\<lambda>xs. max (length xs)) qs 0"
  by (induction qs) (auto simp: max_def)

lemma rr_wait:
  assumes "q \<in> set qs" and "i < length q"
  shows "q ! i \<in> set (take ((i + 1) * length qs) (rr_loop qs []))"
proof -
  let ?t = "transpose qs"
  have i: "i < length ?t"
    using foldr_max_le [OF assms(1)] assms(2) by (simp add: length_transpose)
  have "q ! i \<in> set (?t ! i)" using assms i by (auto simp: nth_transpose)
  moreover have "set (?t ! i) \<subseteq> set (concat (take (i + 1) ?t))"
    using i by (auto simp: take_Suc_conv_app_nth)
  ultimately have mem: "q ! i \<in> set (concat (take (i + 1) ?t))" by blast
  have len: "length (concat (take (i + 1) ?t)) \<le> (i + 1) * length qs"
    by (rule concat_take_le) (rule transpose_row_length)
  have "concat ?t = concat (take (i + 1) ?t) @ concat (drop (i + 1) ?t)"
    by (metis append_take_drop_id concat_append)
  then have "concat (take (i + 1) ?t) = take (length (concat (take (i + 1) ?t))) (rr_loop qs [])"
    by (simp add: rr_loop_transpose)
  then have "q ! i \<in> set (take (length (concat (take (i + 1) ?t))) (rr_loop qs []))" using mem by argo
  then show ?thesis using set_take_subset_set_take [OF len, of "rr_loop qs []"] by (rule rev_subsetD)
qed

end
