(* ===== verification/Admission.thy ===== *)
theory Admission
  imports Events RoundRobin Grouping
begin

text \<open>
  The admission boundary, \<open>prism-engine/src/admission.rs\<close>: the bounded attribute key dictionary, the
  per-tenant quota window, the fair interleaving of a batch and the gauntlet \<open>admit\<close> that runs them.
  A \<open>None\<close> of \<open>admit\<close> is the panic of attribute validation; \<open>BTreeSet<String>\<close> is the ordered map with
  unit values.
\<close>

section \<open>The key dictionary\<close>

type_synonym key_dictionary = "(string \<times> unit) list"

definition dict_contains :: "key_dictionary \<Rightarrow> string \<Rightarrow> bool" where
  "dict_contains d k \<longleftrightarrow> bt_get d k \<noteq> None"

definition dict_check :: "key_dictionary \<Rightarrow> attributes \<Rightarrow> rejection + unit" where
  "dict_check d attrs =
     (let novel = filter (\<lambda>k. \<not> dict_contains d k) (map fst attrs) in
      if novel = [] then Inr ()
      else if MAX_ATTRIBUTE_KEY_CARDINALITY < length d + length novel
      then Inl (Reject AttributeKeyCardinalityExceeded ''new attribute keys'')
      else Inr ())"

definition insert_all :: "attributes \<Rightarrow> key_dictionary \<Rightarrow> key_dictionary" where
  "insert_all attrs d = fold (\<lambda>kv. bt_insert (fst kv) ()) attrs d"

section \<open>Quotas\<close>

record tenant_usage =
  window_start_ms :: i64
  u_events :: nat
  u_bytes :: nat

record quota_enforcer =
  per_tenant :: "(string \<times> tenant_usage) list"
  limits :: "(string \<times> quota) list"

definition WINDOW_MS :: i64 where "WINDOW_MS = 1000"

definition enforcer_new :: quota_enforcer where
  "enforcer_new = \<lparr>per_tenant = [], limits = []\<rparr>"

definition set_limit :: "string \<Rightarrow> quota \<Rightarrow> quota_enforcer \<Rightarrow> quota_enforcer" where
  "set_limit t q qe = qe\<lparr>limits := bt_insert t q (limits qe)\<rparr>"

definition limit_for :: "quota_enforcer \<Rightarrow> string \<Rightarrow> quota" where
  "limit_for qe t = (case bt_get (limits qe) t of Some q \<Rightarrow> q | None \<Rightarrow> quota_default)"

definition usage_at :: "quota_enforcer \<Rightarrow> string \<Rightarrow> i64 \<Rightarrow> tenant_usage" where
  "usage_at qe t now_ms =
     (let fresh = \<lparr>window_start_ms = now_ms, u_events = 0, u_bytes = 0\<rparr>;
          u = (case bt_get (per_tenant qe) t of Some u \<Rightarrow> u | None \<Rightarrow> fresh) in
      if WINDOW_MS \<le> wrap_i64 (now_ms - window_start_ms u) then fresh else u)"

definition put_usage :: "string \<Rightarrow> tenant_usage \<Rightarrow> quota_enforcer \<Rightarrow> quota_enforcer" where
  "put_usage t u qe = qe\<lparr>per_tenant := bt_insert t u (per_tenant qe)\<rparr>"

text \<open>The charge returns the enforcer in both cases: a refusal still opens or rolls the window.\<close>

definition charge :: "event \<Rightarrow> i64 \<Rightarrow> quota_enforcer \<Rightarrow> quota_enforcer \<times> (rejection + unit)" where
  "charge e now_ms qe =
     (let q = limit_for qe (tenant_id e);
          size = event_byte_size e;
          u = usage_at qe (tenant_id e) now_ms in
      if events_per_sec q < u_events u + 1
      then (put_usage (tenant_id e) u qe, Inl (Reject QuotaExceeded ''events/sec''))
      else if bytes_per_sec q < u_bytes u + size
      then (put_usage (tenant_id e) u qe, Inl (Reject QuotaExceeded ''bytes/sec''))
      else (put_usage (tenant_id e) (u\<lparr>u_events := u_events u + 1, u_bytes := u_bytes u + size\<rparr>) qe, Inr ()))"

section \<open>Fair interleaving\<close>

definition by_tenant :: "event list \<Rightarrow> (string \<times> event list) list" where
  "by_tenant events = group_with tenant_id (\<lambda>e. e) events"

definition interleave_by_tenant :: "event list \<Rightarrow> event list" where
  "interleave_by_tenant events = rr_loop (map snd (by_tenant events)) []"

section \<open>The gauntlet\<close>

record admitted =
  accepted :: "event list"
  rejected :: "dead_letter list"
  duplicates_suppressed :: nat

definition reject_event :: "event \<Rightarrow> reject_reason \<Rightarrow> string \<Rightarrow> dead_letter" where
  "reject_event e r d = \<lparr>dl_reason = reject_as_str r, dl_detail = d, dl_stage = ''admission'', dl_event = e\<rparr>"

text \<open>The checks on one event, in their order, with the enforcer the charge leaves behind.\<close>

definition run_checks :: "key_dictionary \<Rightarrow> quota_enforcer \<Rightarrow> i64 \<Rightarrow> event \<Rightarrow> quota_enforcer \<times> (rejection + unit)" where
  "run_checks d qe now_ms e =
     (case rbind (event_validate e) (\<lambda>_. rbind (check_skew e now_ms) (\<lambda>_. dict_check d (attributes e))) of
        Inl r \<Rightarrow> (qe, Inl r)
      | Inr _ \<Rightarrow> charge e now_ms qe)"

fun admit_loop :: "i64 \<Rightarrow> event list \<Rightarrow> key_dictionary \<Rightarrow> quota_enforcer \<Rightarrow> admitted \<Rightarrow>
    (admitted \<times> key_dictionary \<times> quota_enforcer) option" where
  "admit_loop now_ms [] d qe a = Some (a, d, qe)"
| "admit_loop now_ms (e0 # es) d qe a =
     (let e = e0\<lparr>observed_time := now_ms\<rparr> in
      case run_checks d qe now_ms e of
        (qe', Inl (Reject r m)) \<Rightarrow> admit_loop now_ms es d qe' (a\<lparr>rejected := rejected a @ [reject_event e r m]\<rparr>)
      | (qe', Inl Panicked) \<Rightarrow> None
      | (qe', Inr _) \<Rightarrow> admit_loop now_ms es (insert_all (attributes e) d) qe' (a\<lparr>accepted := accepted a @ [e]\<rparr>))"

definition admit :: "event list \<Rightarrow> key_dictionary \<Rightarrow> quota_enforcer \<Rightarrow> i64 \<Rightarrow>
    (admitted \<times> key_dictionary \<times> quota_enforcer) option" where
  "admit events d qe now_ms =
     admit_loop now_ms (interleave_by_tenant events) d qe \<lparr>accepted = [], rejected = [], duplicates_suppressed = 0\<rparr>"

section \<open>Interleaving\<close>

lemma interleave_mset: "mset (interleave_by_tenant es) = mset es"
  by (simp add: interleave_by_tenant_def rr_loop_mset by_tenant_def group_with_mset del: mset_concat)

section \<open>What admission keeps\<close>

definition dict_ok :: "key_dictionary \<Rightarrow> bool" where
  "dict_ok d \<longleftrightarrow> bt_wf d \<and> length d \<le> MAX_ATTRIBUTE_KEY_CARDINALITY"

definition keys_of :: "('k \<times> 'v) list \<Rightarrow> 'k set" where
  "keys_of m = fst ` set m"

lemma length_keys: "bt_wf d \<Longrightarrow> length d = card (keys_of d)"
  unfolding keys_of_def by (metis bt_wf_distinct distinct_card length_map set_map)

lemma insert_all_wf: "bt_wf d \<Longrightarrow> bt_wf (insert_all attrs d)"
  unfolding insert_all_def by (rule bt.wf_fold_put)

lemma insert_all_keys: "keys_of (insert_all attrs d) = keys_of d \<union> keys_of attrs"
proof (induction attrs arbitrary: d)
  case (Cons kv attrs)
  have "keys_of (bt_insert (fst kv) () d) = insert (fst kv) (keys_of d)"
    using bt_keys_insert [of "fst kv" "()" d] by (simp add: keys_of_def)
  then show ?case using Cons by (simp add: insert_all_def keys_of_def)
qed (simp add: insert_all_def keys_of_def)

lemma insert_all_dict_ok:
  assumes "dict_ok d" and "dict_check d attrs = Inr u"
  shows "dict_ok (insert_all attrs d)"
proof -
  let ?novel = "filter (\<lambda>k. \<not> dict_contains d k) (map fst attrs)"
  have wf: "bt_wf d" and le: "card (keys_of d) \<le> MAX_ATTRIBUTE_KEY_CARDINALITY"
    using assms(1) length_keys [of d] by (simp_all add: dict_ok_def)
  have un: "keys_of d \<union> keys_of attrs = keys_of d \<union> set ?novel"
    using bt_keys_get [of _ d] by (auto simp: keys_of_def dict_contains_def)
  have "card (keys_of d \<union> set ?novel) \<le> card (keys_of d) + length ?novel"
    using card_Un_le [of "keys_of d" "set ?novel"] card_length [of ?novel] by linarith
  moreover have "?novel = [] \<or> length d + length ?novel \<le> MAX_ATTRIBUTE_KEY_CARDINALITY"
    using assms(2) by (auto simp: dict_check_def Let_def split: if_splits)
  ultimately have "card (keys_of d \<union> keys_of attrs) \<le> MAX_ATTRIBUTE_KEY_CARDINALITY"
    using le un length_keys [OF wf] by (metis (no_types, lifting) list.set(1) sup_bot.right_neutral order.trans)
  then show ?thesis
    using insert_all_wf [OF wf] length_keys [OF insert_all_wf [OF wf]] by (simp add: dict_ok_def insert_all_keys)
qed

lemma limit_for_put [simp]: "limit_for (put_usage t u qe) t' = limit_for qe t'"
  by (simp add: limit_for_def put_usage_def)

lemma usage_at_fresh_window: "\<not> WINDOW_MS \<le> wrap_i64 (now - window_start_ms (usage_at qe t now))"
  by (simp add: usage_at_def Let_def WINDOW_MS_def i64_range_def)

lemma usage_at_put:
  assumes "window_start_ms u = window_start_ms (usage_at qe t now)"
  shows "usage_at (put_usage t u qe) t' now = (if t' = t then u else usage_at qe t' now)"
proof -
  have g: "bt_get (per_tenant (put_usage t u qe)) t' = (if t' = t then Some u else bt_get (per_tenant qe) t')"
    by (simp add: put_usage_def)
  show ?thesis
    using usage_at_fresh_window [of now qe t] assms
    unfolding usage_at_def [of "put_usage t u qe"] usage_at_def [of qe t'] g Let_def by simp
qed

lemma charge_cases:
  assumes "charge e now qe = (qe', r)"
  shows "limit_for qe' t = limit_for qe t \<and>
    (case r of
       Inl x \<Rightarrow> x = Reject QuotaExceeded ''events/sec'' \<or> x = Reject QuotaExceeded ''bytes/sec''
     | Inr _ \<Rightarrow> u_events (usage_at qe (tenant_id e) now) + 1 \<le> events_per_sec (limit_for qe (tenant_id e))
         \<and> u_bytes (usage_at qe (tenant_id e) now) + event_byte_size e \<le> bytes_per_sec (limit_for qe (tenant_id e)))
    \<and> u_events (usage_at qe' t now) = u_events (usage_at qe t now) + (if is_ok r \<and> t = tenant_id e then 1 else 0)
    \<and> u_bytes (usage_at qe' t now) = u_bytes (usage_at qe t now) + (if is_ok r \<and> t = tenant_id e then event_byte_size e else 0)"
  using assms by (auto simp: charge_def Let_def usage_at_put split: if_splits)

lemma run_checks_cases:
  assumes "run_checks d qe now e = (qe', r)"
  shows "limit_for qe' t = limit_for qe t
    \<and> u_events (usage_at qe' t now) = u_events (usage_at qe t now) + (if is_ok r \<and> t = tenant_id e then 1 else 0)
    \<and> u_bytes (usage_at qe' t now) = u_bytes (usage_at qe t now) + (if is_ok r \<and> t = tenant_id e then event_byte_size e else 0)
    \<and> (is_ok r \<longrightarrow> valid_event e \<and> check_skew e now = Inr () \<and> dict_check d (attributes e) = Inr ()
         \<and> u_events (usage_at qe (tenant_id e) now) + 1 \<le> events_per_sec (limit_for qe (tenant_id e))
         \<and> u_bytes (usage_at qe (tenant_id e) now) + event_byte_size e \<le> bytes_per_sec (limit_for qe (tenant_id e)))"
proof (cases "rbind (event_validate e) (\<lambda>_. rbind (check_skew e now) (\<lambda>_. dict_check d (attributes e)))")
  case (Inl x)
  then have "qe' = qe" "r = Inl x" using assms by (auto simp: run_checks_def)
  then show ?thesis by simp
next
  case (Inr u)
  then have c: "charge e now qe = (qe', r)" using assms by (simp add: run_checks_def)
  have "event_validate e = Inr ()" "check_skew e now = Inr ()" "dict_check d (attributes e) = Inr ()"
    using Inr by (auto simp: rbind_Inr_iff)
  then show ?thesis using charge_cases [OF c, of t] by (cases r) (auto simp: event_validate_ok)
qed

lemma run_checks_panic:
  "snd (run_checks d qe now e) = Inl Panicked \<longleftrightarrow> event_validate e = Inl Panicked"
proof -
  have 1: "check_skew e now \<noteq> Inl Panicked" by (simp add: check_skew_def Let_def)
  have 2: "dict_check d (attributes e) \<noteq> Inl Panicked" by (simp add: dict_check_def Let_def)
  have 3: "snd (charge e now qe) \<noteq> Inl Panicked" by (simp add: charge_def Let_def)
  show ?thesis
    using 1 2 3 by (cases "event_validate e"; cases "check_skew e now"; cases "dict_check d (attributes e)")
      (auto simp: run_checks_def)
qed

definition stamp :: "i64 \<Rightarrow> event \<Rightarrow> event" where
  "stamp now e = e\<lparr>observed_time := now\<rparr>"

definition of_tenant :: "string \<Rightarrow> event list \<Rightarrow> event list" where
  "of_tenant t es = filter (\<lambda>e. tenant_id e = t) es"

definition bytes_of :: "event list \<Rightarrow> nat" where
  "bytes_of es = sum_list (map event_byte_size es)"

text \<open>What holds of a batch in progress: \<open>d0\<close> and \<open>qe0\<close> are the dictionary and the enforcer the batch found.\<close>

definition batch_inv :: "i64 \<Rightarrow> key_dictionary \<Rightarrow> quota_enforcer \<Rightarrow> event list \<Rightarrow> key_dictionary \<Rightarrow> quota_enforcer \<Rightarrow> admitted \<Rightarrow> bool" where
  "batch_inv now d0 qe0 seen d qe a \<longleftrightarrow>
     mset (accepted a) + mset (map dl_event (rejected a)) = mset (map (stamp now) seen)
     \<and> dict_ok d \<and> keys_of d = keys_of d0 \<union> (\<Union>e \<in> set (accepted a). keys_of (attributes e))
     \<and> list_all (\<lambda>e. valid_event e \<and> check_skew e now = Inr ()) (accepted a)
     \<and> (\<forall>t. limit_for qe t = limit_for qe0 t
          \<and> u_events (usage_at qe t now) = u_events (usage_at qe0 t now) + length (of_tenant t (accepted a))
          \<and> u_bytes (usage_at qe t now) = u_bytes (usage_at qe0 t now) + bytes_of (of_tenant t (accepted a))
          \<and> (of_tenant t (accepted a) \<noteq> [] \<longrightarrow>
               u_events (usage_at qe t now) \<le> events_per_sec (limit_for qe0 t)
               \<and> u_bytes (usage_at qe t now) \<le> bytes_per_sec (limit_for qe0 t)))"

lemma batch_inv_reject:
  assumes "batch_inv now d0 qe0 seen d qe a" and "run_checks d qe now (stamp now e) = (qe', Inl x)"
  shows "batch_inv now d0 qe0 (seen @ [e]) d qe' (a\<lparr>rejected := rejected a @ [reject_event (stamp now e) r m]\<rparr>)"
  using assms run_checks_cases [OF assms(2)] by (auto simp: batch_inv_def reject_event_def)

lemma batch_inv_accept:
  assumes "batch_inv now d0 qe0 seen d qe a" and "run_checks d qe now (stamp now e) = (qe', Inr u)"
  shows "batch_inv now d0 qe0 (seen @ [e]) (insert_all (attributes (stamp now e)) d) qe'
    (a\<lparr>accepted := accepted a @ [stamp now e]\<rparr>)"
proof -
  note c = run_checks_cases [OF assms(2)]
  have "dict_ok (insert_all (attributes (stamp now e)) d)"
    using c assms(1) by (auto simp: batch_inv_def intro: insert_all_dict_ok)
  moreover have "u_events (usage_at qe' t now) \<le> events_per_sec (limit_for qe0 t)
      \<and> u_bytes (usage_at qe' t now) \<le> bytes_per_sec (limit_for qe0 t)"
    if "of_tenant t (accepted a @ [stamp now e]) \<noteq> []" for t
    using that c [of t] assms(1) by (cases "t = tenant_id (stamp now e)") (auto simp: batch_inv_def of_tenant_def)
  ultimately show ?thesis
    using c assms(1) by (auto simp: batch_inv_def insert_all_keys of_tenant_def bytes_of_def)
qed

lemma admit_loop_inv:
  assumes "\<forall>e \<in> set es. event_validate (stamp now e) \<noteq> Inl Panicked" and "batch_inv now d0 qe0 seen d qe a"
  shows "\<exists>a' d' qe'. admit_loop now es d qe a = Some (a', d', qe') \<and> batch_inv now d0 qe0 (seen @ es) d' qe' a'"
  using assms
proof (induction es arbitrary: seen d qe a)
  case (Cons e es)
  obtain qe' r where r: "run_checks d qe now (stamp now e) = (qe', r)" by force
  show ?case
  proof (cases r)
    case (Inr u)
    have "batch_inv now d0 qe0 (seen @ [e]) (insert_all (attributes (stamp now e)) d) qe' (a\<lparr>accepted := accepted a @ [stamp now e]\<rparr>)"
      using batch_inv_accept [OF Cons.prems(2)] r Inr by blast
    from Cons.IH [OF _ this] Cons.prems(1) show ?thesis using r Inr by (auto simp: stamp_def Let_def)
  next
    case (Inl x)
    have "x \<noteq> Panicked" using run_checks_panic [of d qe now "stamp now e"] r Inl Cons.prems(1) by auto
    then obtain c m where x: "x = Reject c m" by (cases x) auto
    have "batch_inv now d0 qe0 (seen @ [e]) d qe' (a\<lparr>rejected := rejected a @ [reject_event (stamp now e) c m]\<rparr>)"
      using batch_inv_reject [OF Cons.prems(2)] r Inl by blast
    from Cons.IH [OF _ this] Cons.prems(1) show ?thesis using r Inl x by (auto simp: stamp_def Let_def)
  qed
qed simp

lemma event_validate_stamp: "event_validate (stamp now e) = event_validate e"
  by (simp add: event_validate_def stamp_def)

section \<open>Properties\<close>

text \<open>
  C29. The interleaving of a batch is a reordering of it, and it is fair: event number \<open>i\<close> of any
  tenant, in arrival order, is among the first \<open>(i + 1) * n\<close> events served, where \<open>n\<close> is the number
  of tenants in the batch, however many events the other tenants sent.
\<close>

theorem interleave_fair:
  "mset (interleave_by_tenant es) = mset es \<and>
   (\<forall>t i. i < length (of_tenant t es) \<longrightarrow>
      of_tenant t es ! i \<in> set (take ((i + 1) * card (tenant_id ` set es)) (interleave_by_tenant es)))"
proof (intro conjI allI impI)
  fix t i assume i: "i < length (of_tenant t es)"
  then have "bt_get (by_tenant es) t = Some (of_tenant t es)"
    by (auto simp: by_tenant_def group_with_get of_tenant_def Let_def)
  then have "(t, of_tenant t es) \<in> set (by_tenant es)"
    unfolding by_tenant_def by (simp only: bt_get_Some_iff [OF group_with_wf])
  then have "of_tenant t es \<in> set (map snd (by_tenant es))" using image_iff by fastforce
  from rr_wait [OF this i] show
    "of_tenant t es ! i \<in> set (take ((i + 1) * card (tenant_id ` set es)) (interleave_by_tenant es))"
    by (simp add: interleave_by_tenant_def by_tenant_def length_group_with)
qed (rule interleave_mset)

definition sample_batch :: "event list" where
  "sample_batch = [sample_event, sample_event, sample_event, sample_event\<lparr>tenant_id := ''b''\<rparr>]"

theorem interleave_fair_witness:
  "of_tenant ''b'' sample_batch ! 0 \<in> set (take (1 * 2) (interleave_by_tenant sample_batch))"
proof -
  have "0 < length (of_tenant ''b'' sample_batch)" by (simp add: sample_batch_def of_tenant_def sample_event_def)
  moreover have "tenant_id ` set sample_batch = {''acme'', ''b''}"
    by (auto simp: sample_batch_def sample_event_def)
  then have "card (tenant_id ` set sample_batch) = 2" by simp
  ultimately show ?thesis using interleave_fair [of sample_batch] by fastforce
qed



end
