(* ===== verification/Idempotency.thy ===== *)
theory Idempotency
  imports Admission
begin

text \<open>
  The idempotency index, \<open>prism-engine/src/idempotency.rs\<close>: what has been accepted under a producer's
  key, the verdict on a new event, and the pruning that keeps the index bounded. Loading and saving
  go through JSON files and are not part of this theory.
\<close>

section \<open>The index\<close>

datatype verdict = New | Replay | Conflict string

record entry =
  en_content_hash :: string
  en_event_time :: i64

type_synonym idempotency_index = "(string \<times> entry) list"

definition unit_separator :: char where
  "unit_separator = CHR 0x1F"

definition ck :: "string \<Rightarrow> string \<Rightarrow> string" where
  "ck t k = t @ [unit_separator] @ k"

definition idem_check :: "idempotency_index \<Rightarrow> string \<Rightarrow> string \<Rightarrow> string \<Rightarrow> verdict" where
  "idem_check ix t k h = (case bt_get ix (ck t k) of
       None \<Rightarrow> New
     | Some e \<Rightarrow> if en_content_hash e = h then Replay else Conflict (en_content_hash e))"

definition idem_record :: "string \<Rightarrow> string \<Rightarrow> string \<Rightarrow> i64 \<Rightarrow> idempotency_index \<Rightarrow> idempotency_index" where
  "idem_record t k h tm ix = bt_insert (ck t k) \<lparr>en_content_hash = h, en_event_time = tm\<rparr> ix"

definition prune :: "i64 \<Rightarrow> idempotency_index \<Rightarrow> idempotency_index \<times> nat" where
  "prune now_ms ix =
     (let cutoff = wrap_i64 (now_ms - IDEMPOTENCY_WINDOW_MS);
          kept = filter (\<lambda>(_, e). cutoff \<le> en_event_time e) ix;
          by_time = sort_key snd (map (\<lambda>(k, e). (k, en_event_time e)) kept);
          out = (if IDEMPOTENCY_MAX_ENTRIES < length kept
                 then fold (\<lambda>(k, _). bt_remove k) (take (length kept - IDEMPOTENCY_MAX_ENTRIES) by_time) kept
                 else kept) in
      (out, length ix - length out))"

section \<open>Pruning\<close>

lemma fold_bt_remove: "fold (\<lambda>(k, _). bt_remove k) ks m = filter (\<lambda>p. fst p \<notin> fst ` set ks) m"
proof (induction ks arbitrary: m)
  case (Cons a ks)
  then show ?case by (auto simp: bt_remove_def split: prod.splits intro!: filter_cong)
qed simp

lemma length_filter_distinct_keys:
  assumes "distinct (map fst m)" and "distinct (map fst ks)" and "fst ` set ks \<subseteq> fst ` set m"
  shows "length (filter (\<lambda>p. fst p \<notin> fst ` set ks) m) = length m - length ks"
proof -
  have "map fst (filter (\<lambda>p. fst p \<in> fst ` set ks) m) = filter (\<lambda>k. k \<in> fst ` set ks) (map fst m)"
    by (simp add: filter_map o_def)
  moreover have "length (filter (\<lambda>k. k \<in> fst ` set ks) (map fst m)) = card (fst ` set ks)"
  proof -
    have "set (filter (\<lambda>k. k \<in> fst ` set ks) (map fst m)) = fst ` set ks" using assms(3) by auto
    then show ?thesis using distinct_card [OF distinct_filter [OF assms(1)]] by metis
  qed
  ultimately have "length (filter (\<lambda>p. fst p \<in> fst ` set ks) m) = length ks"
    using assms(2) by (metis distinct_card length_map list.set_map)
  then show ?thesis
    using sum_length_filter_compl [of "\<lambda>p. fst p \<in> fst ` set ks" m] by simp
qed

text \<open>What pruning leaves: \<open>kept\<close> is the part of the index inside the window.\<close>

definition in_idem_window :: "i64 \<Rightarrow> string \<times> entry \<Rightarrow> bool" where
  "in_idem_window now_ms p \<longleftrightarrow> wrap_i64 (now_ms - IDEMPOTENCY_WINDOW_MS) \<le> en_event_time (snd p)"

lemma sorted_take_le:
  assumes "sorted (map f xs)" and "x \<in> set (take n xs)" and "y \<in> set xs" and "y \<notin> set (take n xs)"
  shows "f x \<le> f y"
proof -
  have "map f xs = map f (take n xs) @ map f (drop n xs)" by (metis append_take_drop_id map_append)
  moreover have "y \<in> set (drop n xs)" using assms(3,4) by (metis Un_iff append_take_drop_id set_append)
  ultimately show ?thesis using assms(1,2) by (auto simp: sorted_append)
qed

lemma prune_spec:
  assumes "bt_wf ix" and "prune now_ms ix = (out, n)"
  shows "bt_wf out \<and> length out = min IDEMPOTENCY_MAX_ENTRIES (length (filter (in_idem_window now_ms) ix))
    \<and> set out \<subseteq> set (filter (in_idem_window now_ms) ix) \<and> n = length ix - length out
    \<and> (\<forall>p \<in> set (filter (in_idem_window now_ms) ix) - set out. \<forall>q \<in> set out.
         en_event_time (snd p) \<le> en_event_time (snd q))"
proof -
  let ?kept = "filter (in_idem_window now_ms) ix"
  let ?by = "sort_key snd (map (\<lambda>(k, e). (k, en_event_time e)) ?kept)"
  let ?ks = "take (length ?kept - IDEMPOTENCY_MAX_ENTRIES) ?by"
  have k: "filter (\<lambda>(_, e). wrap_i64 (now_ms - IDEMPOTENCY_WINDOW_MS) \<le> en_event_time e) ix = ?kept"
    by (rule filter_cong) (auto simp: in_idem_window_def)
  have wf: "bt_wf ?kept" using assms(1) by simp
  have "map fst (map (\<lambda>(k, e). (k, en_event_time e)) ?kept) = map fst ?kept" by (simp add: case_prod_beta o_def)
  then have "image_mset fst (mset (map (\<lambda>(k, e). (k, en_event_time e)) ?kept)) = mset (map fst ?kept)"
    by (simp only: mset_map [symmetric])
  then have "mset (map fst ?by) = mset (map fst ?kept)" by (simp only: mset_map mset_sort)
  then have d: "distinct (map fst ?by)" and fst_by: "set (map fst ?by) = set (map fst ?kept)"
    using bt_wf_distinct [OF wf] by (metis mset_eq_imp_distinct_iff, metis set_mset_mset)
  have out: "out = filter (\<lambda>p. fst p \<notin> fst ` set ?ks) ?kept" and n: "n = length ix - length out"
    using assms(2) unfolding prune_def Let_def k fold_bt_remove by (simp_all split: if_splits) auto
  have dk: "distinct (map fst ?ks)" "fst ` set ?ks \<subseteq> fst ` set ?kept"
    using distinct_take [OF d, of "length ?kept - IDEMPOTENCY_MAX_ENTRIES"] image_mono [OF set_take_subset, of fst _ ?by] fst_by
    by (simp_all only: take_map set_map)
  have len: "length out = length ?kept - length ?ks"
    unfolding out by (rule length_filter_distinct_keys [OF bt_wf_distinct [OF wf] dk])
  have old: "en_event_time (snd p) \<le> en_event_time (snd q)"
    if p: "p \<in> set ?kept" "p \<notin> set out" and q: "q \<in> set out" for p q
  proof -
    let ?f = "\<lambda>(k, e). (k, en_event_time e)"
    have m: "?f r \<in> set ?by" if "r \<in> set ?kept" for r using that by auto
    have u: "?f r = x" if h: "r \<in> set ?kept" "x \<in> set ?by" "fst x = fst r" for r x
    proof -
      have "x \<in> ?f ` set ?kept" using h(2) by (simp only: set_sort set_map)
      then obtain e where e: "(fst r, e) \<in> set ?kept" "snd x = en_event_time e" using h(3) by auto
      have "e = snd r"
        using eq_key_imp_eq_value [OF bt_wf_distinct [OF wf] e(1), of "snd r"] h(1) by (simp only: prod.collapse)
      then show ?thesis using e(2) h(3) by (simp add: case_prod_beta prod_eq_iff)
    qed
    obtain x where x: "x \<in> set ?ks" "fst x = fst p" using p out by auto
    have "?f p = x" using u [OF p(1) _ x(2)] x(1) by (auto dest: in_set_takeD)
    then have 1: "?f p \<in> set ?ks" using x(1) by simp
    have "fst q \<notin> fst ` set ?ks" using q out by simp
    then have 2: "?f q \<notin> set ?ks" using image_eqI [of "fst q" fst "?f q" "set ?ks"] by (auto simp: case_prod_beta)
    have 3: "?f q \<in> set ?by" using m q out by auto
    have "snd (?f p) \<le> snd (?f q)" by (rule sorted_take_le [OF sorted_sort_key 1 3 2])
    then show ?thesis by (simp add: case_prod_beta)
  qed
  have "length ?ks = length ?kept - IDEMPOTENCY_MAX_ENTRIES" by simp
  then have l: "length out = min IDEMPOTENCY_MAX_ENTRIES (length ?kept)" using len by simp
  have "bt_wf out" "set out \<subseteq> set ?kept" unfolding out by (rule bt_wf_filter [OF wf], rule filter_is_subset)
  then show ?thesis using old l n by blast
qed

section \<open>Properties\<close>

lemma ck_inj:
  assumes "unit_separator \<notin> set t" and "unit_separator \<notin> set t'"
  shows "ck t k = ck t' k' \<longleftrightarrow> t = t' \<and> k = k'"
proof
  assume e: "ck t k = ck t' k'"
  have "takeWhile (\<lambda>c. c \<noteq> unit_separator) (ck t k) = t" "takeWhile (\<lambda>c. c \<noteq> unit_separator) (ck t' k') = t'"
    using assms by (auto simp: ck_def takeWhile_tail takeWhile_eq_all_conv)
  then have "t = t'" using e by simp
  then show "t = t' \<and> k = k'" using e by (simp add: ck_def)
qed simp

lemma sample_event_valid: "event_validate (sample_event\<lparr>tenant_id := t, idempotency_key := Some k\<rparr>) = Inr ()"
  if "t \<noteq> []" "k \<noteq> []" "length t \<le> 128" "length k \<le> 256"
proof -
  have "utf8_chars ''timeout'' = [116, 105, 109, 101, 111, 117, 116]" by simp
  then have "\<exists>c \<in> set (utf8_chars (body sample_event)). \<not> is_whitespace c"
    by (simp add: sample_event_def is_whitespace_def)
  moreover have "f64_is_finite (cost sample_event) \<and> 0 \<le> f64_key (cost sample_event)"
    by (simp add: sample_event_def f64_is_finite_def f64_key_def f64_neg_def f64_mag_def f64_inf_mag_def)
  ultimately show ?thesis
    using that by (simp add: event_validate_ok valid_event_def length_pos) (simp add: sample_event_def attrs_byte_size_def)
qed

text \<open>
  C33. The verdicts. After an acceptance is recorded, the same composite key is a replay when the content
  hash is the same and a conflict that names the stored hash when it is not, and every other
  composite key is judged as before. Composite keys are as good as pairs of tenant and key when no
  tenant id contains the unit separator; validation does not enforce that, and two valid events of
  different tenants can share a composite key.
\<close>

theorem idem_verdicts:
  "idem_check (idem_record t k h tm ix) t' k' h' =
     (if ck t' k' = ck t k then (if h' = h then Replay else Conflict h) else idem_check ix t' k' h')
   \<and> (unit_separator \<notin> set t \<and> unit_separator \<notin> set t' \<longrightarrow> (ck t' k' = ck t k \<longleftrightarrow> t' = t \<and> k' = k))
   \<and> (\<exists>e e'. event_validate e = Inr () \<and> event_validate e' = Inr () \<and> tenant_id e \<noteq> tenant_id e'
        \<and> ck (fst (dedup_key e)) (snd (dedup_key e)) = ck (fst (dedup_key e')) (snd (dedup_key e')))"
proof (intro conjI)
  show "\<exists>e e'. event_validate e = Inr () \<and> event_validate e' = Inr () \<and> tenant_id e \<noteq> tenant_id e'
      \<and> ck (fst (dedup_key e)) (snd (dedup_key e)) = ck (fst (dedup_key e')) (snd (dedup_key e'))"
    by (rule exI [of _ "sample_event\<lparr>tenant_id := ''a'' @ [unit_separator] @ ''b'', idempotency_key := Some ''c''\<rparr>"],
        rule exI [of _ "sample_event\<lparr>tenant_id := ''a'', idempotency_key := Some (''b'' @ [unit_separator] @ ''c'')\<rparr>"])
      (simp add: sample_event_valid dedup_key_def ck_def)
qed (auto simp: idem_check_def idem_record_def ck_inj)

theorem idem_verdicts_witness:
  "idem_check (idem_record ''a'' ''k'' ''h'' 5 []) ''b'' ''k'' ''h'' = New \<and>
   idem_check (idem_record ''a'' ''k'' ''h'' 5 []) ''a'' ''k'' ''h'' = Replay"
  using idem_verdicts [of "''a''" "''k''" "''h''" 5 "[]" "''b''" "''k''" "''h''"]
    idem_verdicts [of "''a''" "''k''" "''h''" 5 "[]" "''a''" "''k''" "''h''"]
  by (simp add: unit_separator_def idem_check_def)

text \<open>
  Pruning bounds the index. It keeps only entries inside the window and at most a million of them,
  never fewer than the bound forces, evicts an in-window entry only when every entry it keeps is at
  least as recent, and reports exactly the number of entries dropped.
\<close>

lemma prune_bounded:
  assumes "bt_wf ix" and "prune now_ms ix = (out, n)"
  shows "bt_wf out \<and> length out = min IDEMPOTENCY_MAX_ENTRIES (length (filter (in_idem_window now_ms) ix))
    \<and> set out \<subseteq> set (filter (in_idem_window now_ms) ix) \<and> n = length ix - length out
    \<and> (\<forall>p \<in> set (filter (in_idem_window now_ms) ix) - set out. \<forall>q \<in> set out.
         en_event_time (snd p) \<le> en_event_time (snd q))"
  using assms by (rule prune_spec)

end
