(* ===== verification/Ingest.thy ===== *)
theory Ingest
  imports Wal Ownership Merge Idempotency
begin

text \<open>
  Publication of a batch, \<open>prism-engine/src/ingest.rs\<close>: admission and model preflight, embedding, one part per
  partition, the fence and the catalog commit. A node is everything durable on one machine. An
  operation is an \<open>io\<close>: it returns the durable states it goes through, a result and the state it
  ends in, so that a crash leaves the state before it or one of the trace. Floating-point work and
  what leaves the machine enter through a \<open>plane\<close>: policy decisions, embeddings, the fitting of the
  bootstrap codebooks, the quantizer, the bytes of a part, and the uploads. The crash logic at the end is what
  the proofs about recovery use.
\<close>

section \<open>Nodes and operations\<close>

record generation =
  g_id :: string
  g_assign :: "f32 list \<Rightarrow> u32"
  g_encode :: "f32 list \<Rightarrow> byte list res"

record plane =
  pl_preflight :: "(string \<times> string) list \<Rightarrow> unit res list"
  pl_verify :: "generation \<Rightarrow> unit res"
  pl_embedder :: "generation \<Rightarrow> ((string \<times> string) list \<Rightarrow> f32 list res list) res"
  pl_default_embedder :: "((string \<times> string) list \<Rightarrow> f32 list res list) res"
  pl_fit :: "string \<Rightarrow> event list \<Rightarrow> f32 list list \<Rightarrow> generation res"
  pl_write :: "nat \<Rightarrow> generation \<Rightarrow> partition_key \<Rightarrow> row_in list \<Rightarrow> i64 \<Rightarrow> part_ref res"
  pl_cold :: "string \<Rightarrow> unit res"
  pl_mirror :: "snapshot \<Rightarrow> unit res"

record node =
  nd_wal :: wal_disk
  nd_remote :: "local_store fault_store"
  nd_store :: store
  nd_rows :: "(string \<times> row_in list) list"
  nd_generations :: "(string \<times> generation) list"
  nd_idem :: idempotency_index
  nd_offsets :: "(string \<times> nat) list"
  nd_dead :: "dead_letter list"
  nd_dict :: key_dictionary

record config =
  cf_scheme :: partition_scheme
  cf_plane :: plane
  cf_epoch :: nat
  cf_remote :: "nat option"
  cf_js :: serde
  cf_crypto :: "wal_crypto option"

type_synonym 'a io = "node \<Rightarrow> node list \<times> 'a res \<times> node"

definition io_ret :: "'a \<Rightarrow> 'a io" where
  "io_ret x n = ([], Inr x, n)"

definition io_lift :: "'a res \<Rightarrow> 'a io" where
  "io_lift r n = ([], r, n)"

definition io_read :: "(node \<Rightarrow> 'a res) \<Rightarrow> 'a io" where
  "io_read f n = ([], f n, n)"

definition io_step :: "(node \<Rightarrow> node) \<Rightarrow> unit io" where
  "io_step f n = ([f n], Inr (), f n)"

definition io_bind :: "'a io \<Rightarrow> ('a \<Rightarrow> 'b io) \<Rightarrow> 'b io" where
  "io_bind m f n = (case m n of (t, r, n') \<Rightarrow> (case r of
       Inl e \<Rightarrow> (t, Inl e, n')
     | Inr x \<Rightarrow> (case f x n' of (t', r', n'') \<Rightarrow> (t @ t', r', n''))))"

definition get_generation :: "plane \<Rightarrow> node \<Rightarrow> string \<Rightarrow> generation res" where
  "get_generation pl n i = (case bt_get (nd_generations n) i of
       None \<Rightarrow> Inl (NotFound ''generation'')
     | Some gen \<Rightarrow> rbind (pl_verify pl gen) (\<lambda>_. Inr gen))"

definition put_generation :: "plane \<Rightarrow> generation \<Rightarrow> unit io" where
  "put_generation pl gen = io_bind (io_lift (pl_verify pl gen)) (\<lambda>_.
     io_step (\<lambda>n. if bt_get (nd_generations n) (g_id gen) \<noteq> None then n
                   else n\<lparr>nd_generations := bt_insert (g_id gen) gen (nd_generations n)\<rparr>))"

section \<open>Admission of a batch\<close>

definition inputs_of :: "event list \<Rightarrow> (string \<times> string) list" where
  "inputs_of events = map (\<lambda>e. (tenant_id e, body e)) events"

definition dead_for :: "reject_reason \<Rightarrow> string \<Rightarrow> event \<Rightarrow> dead_letter" where
  "dead_for reason stage e = \<lparr>dl_reason = reject_as_str reason, dl_detail = [], dl_stage = stage, dl_event = e\<rparr>"

primrec split_decisions :: "(event \<times> unit res) list \<Rightarrow> (event list \<times> dead_letter list) res" where
  "split_decisions [] = Inr ([], [])"
| "split_decisions (p # ps) = (case p of (e, decision) \<Rightarrow> (case decision of
       Inr _ \<Rightarrow> rbind (split_decisions ps) (\<lambda>(a, d). Inr (e # a, d))
     | Inl err \<Rightarrow> (case err of
           Policy _ \<Rightarrow> rbind (split_decisions ps) (\<lambda>(a, d). Inr (a, dead_for ModelPolicyDenied ''model_policy'' e # d))
         | _ \<Rightarrow> Inl err)))"

definition model_preflight :: "plane \<Rightarrow> node \<Rightarrow> snapshot \<Rightarrow> event list \<Rightarrow> (event list \<times> dead_letter list) res" where
  "model_preflight pl n snap events =
     (if events = [] then Inr ([], [])
      else rbind (case sn_active_generation snap of Some g \<Rightarrow> rbind (get_generation pl n g) (\<lambda>_. Inr ()) | None \<Rightarrow> rbind (pl_default_embedder pl) (\<lambda>_. Inr ())) (\<lambda>_.
        let decisions = pl_preflight pl (inputs_of events) in
        if length decisions \<noteq> length events then Inl (Invariant ''model policy returned another number of decisions'')
        else split_decisions (zip events decisions)))"

definition embed_all :: "((string \<times> string) list \<Rightarrow> f32 list res list) \<Rightarrow> event list \<Rightarrow> (event list \<times> f32 list list) \<times> dead_letter list" where
  "embed_all embedder events =
     (let results = embedder (inputs_of events) in
      if length results \<noteq> length events then (([], []), map (dead_for EmbeddingFailed ''embedding'') events)
      else let ps = zip events results; kept = filter (\<lambda>(_, r). is_ok r) ps in
        ((map fst kept, map (\<lambda>(_, r). case r of Inr v \<Rightarrow> v | Inl _ \<Rightarrow> []) kept),
         map (\<lambda>(e, r). dead_for (case r of Inl (Policy _) \<Rightarrow> ModelPolicyDenied | _ \<Rightarrow> EmbeddingFailed) ''embedding'' e)
           (filter (\<lambda>(_, r). \<not> is_ok r) ps)))"

text \<open>The bootstrap generation: \<open>pl_fit\<close> stands for sampling and for the training of the codebooks.\<close>

definition train_generation :: "plane \<Rightarrow> string \<Rightarrow> event list \<Rightarrow>
    ((generation \<times> event list \<times> f32 list list) option \<times> dead_letter list) res" where
  "train_generation pl sid admitted = rbind (pl_default_embedder pl) (\<lambda>embedder.
     case embed_all embedder admitted of ((events, vectors), dead) \<Rightarrow>
       if vectors = [] then Inr (None, dead)
       else rbind (pl_fit pl sid events vectors) (\<lambda>gen. Inr (Some (gen, events, vectors), dead)))"

text \<open>The validation of the batch: what passes and the dead letters; a panic of the validator ends the operation.\<close>

primrec validate_batch :: "event list \<Rightarrow> (event list \<times> dead_letter list) res" where
  "validate_batch [] = Inr ([], [])"
| "validate_batch (e # es) = (case event_validate e of
       Inr _ \<Rightarrow> rbind (validate_batch es) (\<lambda>(a, d). Inr (e # a, d))
     | Inl (Reject reason detail) \<Rightarrow> rbind (validate_batch es) (\<lambda>(a, d).
         Inr (a, \<lparr>dl_reason = reject_as_str reason, dl_detail = detail, dl_stage = ''admission'', dl_event = e\<rparr> # d))
     | Inl Panicked \<Rightarrow> Inl (Invariant ''panicked''))"

section \<open>Durable steps\<close>

primrec write_dead_letters :: "dead_letter list \<Rightarrow> unit io" where
  "write_dead_letters [] = io_ret ()"
| "write_dead_letters (d # ds) = io_bind (io_step (\<lambda>n. n\<lparr>nd_dead := nd_dead n @ [d]\<rparr>)) (\<lambda>_. write_dead_letters ds)"

text \<open>\<open>PartWriter::write\<close>: the directory is renamed into place, or left alone when it exists.\<close>

definition place_part :: "string \<Rightarrow> row_in list \<Rightarrow> node \<Rightarrow> node" where
  "place_part part_id rows n =
     (if bt_get (nd_rows n) part_id \<noteq> None then n
      else n\<lparr>nd_rows := bt_insert part_id rows (nd_rows n),
             nd_store := (nd_store n)\<lparr>st_parts := st_parts (nd_store n) @ [part_id]\<rparr>\<rparr>)"

primrec write_parts :: "config \<Rightarrow> generation \<Rightarrow> i64 \<Rightarrow> (key_order \<times> row_in list) list \<Rightarrow> nat \<Rightarrow> (part_ref list \<times> nat) io" where
  "write_parts cfg gen now_ms [] seq = io_ret ([], seq)"
| "write_parts cfg gen now_ms (g # gs) seq =
     (let rows = snd g; key = partition_of (cf_scheme cfg) (g_id gen) (ri_event (hd rows)) in
      io_bind (io_lift (pl_write (cf_plane cfg) seq gen key rows now_ms)) (\<lambda>ref.
      io_bind (io_step (place_part (pr_part_id ref) rows)) (\<lambda>_.
      io_bind (write_parts cfg gen now_ms gs (seq + 1)) (\<lambda>(refs, seq').
        io_ret (ref # refs, seq')))))"

definition assert_write_owner :: "config \<Rightarrow> unit io" where
  "assert_write_owner cfg n =
     (if cf_epoch cfg = 0 then ([], Inr (), n)
      else case assert_owner (fault_ops local_ops) (cf_epoch cfg) (nd_remote n) of
        (r, s) \<Rightarrow> ([], r, n\<lparr>nd_remote := s\<rparr>))"

definition has_part :: "node \<Rightarrow> string \<Rightarrow> bool" where
  "has_part n p \<longleftrightarrow> bt_get (nd_rows n) p \<noteq> None"

definition commit_io :: "snapshot \<Rightarrow> part_entry list \<Rightarrow> nat \<Rightarrow> string option \<Rightarrow> snapshot_meta \<Rightarrow> i64 \<Rightarrow> snapshot io" where
  "commit_io parent parts seq active meta now_ms n =
     (case commit_meta (has_part n) (nd_store n) parent parts seq active meta now_ms of
        Inl e \<Rightarrow> ([], Inl e, n)
      | Inr (snap, trace) \<Rightarrow> (map (\<lambda>st. n\<lparr>nd_store := st\<rparr>) trace, Inr snap, n\<lparr>nd_store := last trace\<rparr>))"

section \<open>Publication\<close>

record ingest_report =
  ig_admitted :: nat
  ig_dead_lettered :: nat
  ig_part_id :: "string option"
  ig_snapshot_id :: string
  ig_generation_id :: string
  ig_trained :: bool

primrec make_rows :: "generation \<Rightarrow> (event \<times> f32 list) list \<Rightarrow> row_in list res" where
  "make_rows gen [] = Inr []"
| "make_rows gen (p # ps) = (case p of (e, v) \<Rightarrow> rbind (g_encode gen v) (\<lambda>code. rbind (make_rows gen ps) (\<lambda>rows.
     Inr (\<lparr>ri_event = e, ri_centroid = g_assign gen v, ri_code = code, ri_vector = v\<rparr> # rows))))"

definition rows_by_partition :: "partition_scheme \<Rightarrow> string \<Rightarrow> row_in list \<Rightarrow> (key_order \<times> row_in list) list" where
  "rows_by_partition scheme generation rows =
     group_with (\<lambda>r. key_order (partition_of scheme generation (ri_event r))) (\<lambda>r. r) rows"

text \<open>From the written parts to the live snapshot: upload, fence, mirror of the parent, commit, mirror.\<close>

definition publish_parts :: "config \<Rightarrow> snapshot \<Rightarrow> string \<Rightarrow> part_ref list \<Rightarrow> nat \<Rightarrow> i64 \<Rightarrow> nat option \<Rightarrow> snapshot io" where
  "publish_parts cfg snap generation refs seq now_ms applied =
     io_bind (io_lift (check_all (pl_cold (cf_plane cfg)) (map pr_part_id refs))) (\<lambda>_.
     io_bind (assert_write_owner cfg) (\<lambda>_.
     io_bind (io_lift (pl_mirror (cf_plane cfg) snap)) (\<lambda>_.
     io_bind (commit_io snap (sn_parts snap @ map Located refs) seq (Some generation)
         ((meta_of snap)\<lparr>me_applied_wal_record := (case applied of Some i \<Rightarrow> Some i | None \<Rightarrow> sn_applied_wal_record snap)\<rparr>) now_ms) (\<lambda>new_snap.
     io_bind (io_lift (pl_mirror (cf_plane cfg) new_snap)) (\<lambda>_. io_ret new_snap)))))"

definition publish_rows :: "config \<Rightarrow> snapshot \<Rightarrow> generation \<Rightarrow> row_in list \<Rightarrow> nat \<Rightarrow> bool \<Rightarrow> i64 \<Rightarrow> nat option \<Rightarrow> ingest_report io" where
  "publish_rows cfg snap gen rows dead trained now_ms applied =
     io_bind (write_parts cfg gen now_ms (rows_by_partition (cf_scheme cfg) (g_id gen) rows) (sn_next_seq snap)) (\<lambda>(refs, seq).
     io_bind (publish_parts cfg snap (g_id gen) refs seq now_ms applied) (\<lambda>new_snap.
       io_ret \<lparr>ig_admitted = length rows, ig_dead_lettered = dead, ig_part_id = (case refs of [] \<Rightarrow> None | r # _ \<Rightarrow> Some (pr_part_id r)),
         ig_snapshot_id = snapshot_id new_snap, ig_generation_id = g_id gen, ig_trained = trained\<rparr>))"

definition write_and_commit :: "config \<Rightarrow> snapshot \<Rightarrow> generation \<Rightarrow> event list \<Rightarrow> f32 list list \<Rightarrow> dead_letter list \<Rightarrow> bool \<Rightarrow>
    i64 \<Rightarrow> nat option \<Rightarrow> ingest_report io" where
  "write_and_commit cfg snap gen events vectors dead trained now_ms applied =
     io_bind (write_dead_letters dead) (\<lambda>_.
     if events = [] then io_ret \<lparr>ig_admitted = 0, ig_dead_lettered = length dead, ig_part_id = None,
       ig_snapshot_id = snapshot_id snap, ig_generation_id = g_id gen, ig_trained = trained\<rparr>
     else io_bind (io_lift (make_rows gen (zip events vectors))) (\<lambda>rows.
       publish_rows cfg snap gen rows (length dead) trained now_ms applied))"

definition finish_empty :: "snapshot \<Rightarrow> dead_letter list \<Rightarrow> ingest_report io" where
  "finish_empty snap dead = io_bind (write_dead_letters dead) (\<lambda>_.
     io_ret \<lparr>ig_admitted = 0, ig_dead_lettered = length dead, ig_part_id = None, ig_snapshot_id = snapshot_id snap,
       ig_generation_id = (case sn_active_generation snap of Some g \<Rightarrow> g | None \<Rightarrow> []), ig_trained = False\<rparr>)"

definition embed_and_commit :: "config \<Rightarrow> snapshot \<Rightarrow> event list \<Rightarrow> dead_letter list \<Rightarrow> i64 \<Rightarrow> nat option \<Rightarrow> ingest_report io" where
  "embed_and_commit cfg snap admitted dead now_ms applied =
     (let pl = cf_plane cfg in
      case sn_active_generation snap of
        Some g \<Rightarrow> io_bind (io_read (\<lambda>n. get_generation pl n g)) (\<lambda>gen.
          io_bind (io_lift (pl_embedder pl gen)) (\<lambda>embedder.
          case embed_all embedder admitted of (kept, failed) \<Rightarrow>
            write_and_commit cfg snap gen (fst kept) (snd kept) (dead @ failed) False now_ms applied))
      | None \<Rightarrow> io_bind (io_lift (train_generation pl (snapshot_id snap) admitted)) (\<lambda>(trained, failed).
          case trained of
            None \<Rightarrow> finish_empty snap (dead @ failed)
          | Some (gen, events, vectors) \<Rightarrow> io_bind (put_generation pl gen) (\<lambda>_.
              write_and_commit cfg snap gen events vectors (dead @ failed) True now_ms applied)))"

definition ingest_inner :: "config \<Rightarrow> event list \<Rightarrow> i64 \<Rightarrow> nat option \<Rightarrow> bool \<Rightarrow> ingest_report io" where
  "ingest_inner cfg events now_ms applied preflight =
     io_bind (io_read (\<lambda>n. current (nd_store n))) (\<lambda>snap.
     io_bind (io_lift (validate_batch events)) (\<lambda>(admitted, dead).
     if preflight then
       io_bind (io_read (\<lambda>n. model_preflight (cf_plane cfg) n snap admitted)) (\<lambda>(allowed, denied).
         if allowed = [] then finish_empty snap (dead @ denied)
         else embed_and_commit cfg snap allowed (dead @ denied) now_ms applied)
     else embed_and_commit cfg snap admitted dead now_ms applied))"

definition engine_ingest :: "config \<Rightarrow> event list \<Rightarrow> i64 \<Rightarrow> ingest_report io" where
  "engine_ingest cfg events now_ms = ingest_inner cfg events now_ms None True"

definition ingest_wal :: "config \<Rightarrow> event list \<Rightarrow> i64 \<Rightarrow> nat \<Rightarrow> ingest_report io" where
  "ingest_wal cfg events now_ms record_id = ingest_inner cfg events now_ms (Some record_id) False"

section \<open>A logic of crashes\<close>

text \<open>
  \<open>triple C P m Q\<close>: from a node in \<open>P\<close>, the operation \<open>m\<close> goes only through nodes in \<open>C\<close>, ends in \<open>Q\<close> when it succeeds and
  in \<open>C\<close> when it fails. \<open>C\<close> is what a crash can leave.
\<close>

definition triple :: "(node \<Rightarrow> bool) \<Rightarrow> (node \<Rightarrow> bool) \<Rightarrow> 'a io \<Rightarrow> ('a \<Rightarrow> node \<Rightarrow> bool) \<Rightarrow> bool" where
  "triple C P m Q \<longleftrightarrow> (\<forall>n. P n \<longrightarrow> (case m n of (t, r, n') \<Rightarrow>
     list_all C t \<and> (case r of Inr x \<Rightarrow> Q x n' | Inl _ \<Rightarrow> C n')))"

named_theorems triple_rules \<open>how an operation meets a triple\<close>

lemma tripleI:
  assumes "\<And>n t r n'. P n \<Longrightarrow> m n = (t, r, n') \<Longrightarrow> list_all C t \<and> (case r of Inr x \<Rightarrow> Q x n' | Inl _ \<Rightarrow> C n')"
  shows "triple C P m Q"
  unfolding triple_def
proof (intro allI impI)
  fix n assume "P n"
  from assms [OF this] show "case m n of (t, r, n') \<Rightarrow> list_all C t \<and> (case r of Inr x \<Rightarrow> Q x n' | Inl _ \<Rightarrow> C n')"
    by (cases "m n") fast
qed

lemma tripleD:
  assumes "triple C P m Q" and "P n" and "m n = (t, r, n')"
  shows "list_all C t \<and> (case r of Inr x \<Rightarrow> Q x n' | Inl _ \<Rightarrow> C n')"
  using assms(1) [unfolded triple_def, rule_format, OF assms(2)] unfolding assms(3) by simp

lemma triple_ret [triple_rules]: "(\<And>n. P n \<Longrightarrow> Q x n) \<Longrightarrow> triple C P (io_ret x) Q"
  by (rule tripleI) (auto simp: io_ret_def)

lemma triple_lift [triple_rules]:
  "(\<And>n. P n \<Longrightarrow> C n) \<Longrightarrow> (\<And>n x. P n \<Longrightarrow> r = Inr x \<Longrightarrow> Q x n) \<Longrightarrow> triple C P (io_lift r) Q"
  by (rule tripleI) (auto simp: io_lift_def split: sum.splits)

lemma triple_read [triple_rules]:
  "(\<And>n. P n \<Longrightarrow> C n) \<Longrightarrow> (\<And>n x. P n \<Longrightarrow> f n = Inr x \<Longrightarrow> Q x n) \<Longrightarrow> triple C P (io_read f) Q"
  by (rule tripleI) (auto simp: io_read_def split: sum.splits)

lemma triple_step [triple_rules]:
  "(\<And>n. P n \<Longrightarrow> C (f n)) \<Longrightarrow> (\<And>n. P n \<Longrightarrow> Q () (f n)) \<Longrightarrow> triple C P (io_step f) Q"
  by (rule tripleI) (auto simp: io_step_def)

lemma triple_bind:
  assumes "triple C P m R" and "\<And>x. triple C (R x) (f x) Q"
  shows "triple C P (io_bind m f) Q"
proof (rule tripleI)
  fix n t r n'
  assume p: "P n" and b: "io_bind m f n = (t, r, n')"
  obtain t1 r1 n1 where m: "m n = (t1, r1, n1)" by (metis prod_cases3)
  note d = tripleD [OF assms(1) p m]
  show "list_all C t \<and> (case r of Inr x \<Rightarrow> Q x n' | Inl _ \<Rightarrow> C n')"
  proof (cases r1)
    case (Inl e)
    then show ?thesis using d b m by (auto simp: io_bind_def)
  next
    case (Inr x)
    obtain t2 r2 n2 where f: "f x n1 = (t2, r2, n2)" by (metis prod_cases3)
    have "R x n1" using d Inr by simp
    from tripleD [OF assms(2) this f] show ?thesis using d b m Inr f by (auto simp: io_bind_def)
  qed
qed

lemma triple_pre:
  assumes "triple C P m Q" and "\<And>n. P' n \<Longrightarrow> P n"
  shows "triple C P' m Q"
  by (rule tripleI) (rule tripleD [OF assms(1) assms(2)])

lemma triple_post:
  assumes "triple C P m R" and "\<And>x n. R x n \<Longrightarrow> Q x n"
  shows "triple C P m Q"
proof (rule tripleI)
  fix n t r n' assume "P n" "m n = (t, r, n')"
  from tripleD [OF assms(1) this] show "list_all C t \<and> (case r of Inr x \<Rightarrow> Q x n' | Inl _ \<Rightarrow> C n')"
    using assms(2) by (cases r) simp_all
qed

lemma triple_conj:
  assumes "F \<Longrightarrow> triple C P m Q"
  shows "triple C (\<lambda>n. P n \<and> F) m Q"
proof (rule tripleI)
  fix n t r n' assume p: "P n \<and> F" and m: "m n = (t, r, n')"
  then have "triple C P m Q" using assms by simp
  from tripleD [OF this conjunct1 [OF p] m] show "list_all C t \<and> (case r of Inr x \<Rightarrow> Q x n' | Inl _ \<Rightarrow> C n')" .
qed

lemma write_dead_letters_triple [triple_rules]:
  assumes "\<And>n d. P n \<Longrightarrow> P (n\<lparr>nd_dead := d\<rparr>)" and "\<And>n. P n \<Longrightarrow> C n"
  shows "triple C P (write_dead_letters ds) (\<lambda>_. P)"
proof (induction ds)
  case Nil
  then show ?case by (auto intro: triple_rules)
next
  case (Cons d ds)
  show ?case
    unfolding write_dead_letters.simps
    by (rule triple_bind [where R = "\<lambda>_. P"]) (use Cons assms in \<open>auto intro!: triple_step\<close>)
qed

section \<open>Every event is accounted for\<close>

definition accounts :: "event list \<Rightarrow> dead_letter list \<Rightarrow> event list \<Rightarrow> bool" where
  "accounts kept dead events \<longleftrightarrow> mset kept + mset (map dl_event dead) = mset events"

lemma accounts_append:
  assumes "accounts b d2 a" and "accounts a d1 events"
  shows "accounts b (d1 @ d2) events"
proof -
  have "mset events = mset b + mset (map dl_event d2) + mset (map dl_event d1)" using assms by (simp add: accounts_def)
  then show ?thesis by (simp add: accounts_def)
qed

lemma validate_batch_accounts: "validate_batch es = Inr (a, d) \<Longrightarrow> accounts a d es"
proof (induction es arbitrary: a d)
  case Nil
  then show ?case by (simp add: accounts_def)
next
  case (Cons e es)
  show ?case
  proof (cases "event_validate e")
    case (Inr u)
    then show ?thesis using Cons by (auto simp: accounts_def res_simps)
  next
    case (Inl x)
    then show ?thesis using Cons by (cases x) (auto simp: accounts_def res_simps)
  qed
qed

lemma dl_event_dead_for [simp]: "dl_event (dead_for r st e) = e"
  by (simp add: dead_for_def)

lemma mset_filter_split: "mset (filter P xs) + mset (filter (\<lambda>x. \<not> P x) xs) = mset xs"
  by (induction xs) auto

lemma embed_all_accounts:
  assumes "embed_all embedder events = ((kept, vs), dead)"
  shows "accounts kept dead events \<and> length vs = length kept"
proof (cases "length (embedder (inputs_of events)) = length events")
  case False
  then have e: "kept = []" "vs = []" "dead = map (dead_for EmbeddingFailed ''embedding'') events"
    using assms by (simp_all add: embed_all_def Let_def)
  have "map dl_event dead = events" unfolding e(3) by (simp add: o_def)
  then show ?thesis using e(1,2) by (simp add: accounts_def del: mset_map)
next
  case True
  let ?ps = "zip events (embedder (inputs_of events))"
  have k: "kept = map fst (filter (\<lambda>p. is_ok (snd p)) ?ps)" and v: "length vs = length kept"
    and d: "map dl_event dead = map fst (filter (\<lambda>p. \<not> is_ok (snd p)) ?ps)"
    using assms True by (auto simp: embed_all_def Let_def case_prod_unfold o_def)
  have "mset (map fst (filter (\<lambda>p. is_ok (snd p)) ?ps)) + mset (map fst (filter (\<lambda>p. \<not> is_ok (snd p)) ?ps)) = mset (map fst ?ps)"
    by (simp only: mset_map image_mset_union [symmetric] mset_filter_split)
  moreover have "map fst ?ps = events" using True by simp
  ultimately show ?thesis using v by (simp only: accounts_def k d)
qed

lemma train_accounts:
  assumes "train_generation pl sid a = Inr (tr, dead)"
  shows "case tr of None \<Rightarrow> accounts [] dead a | Some (g, ev, vs) \<Rightarrow> accounts ev dead a \<and> length vs = length ev"
proof -
  obtain embedder where em: "pl_default_embedder pl = Inr embedder" using assms by (auto simp: train_generation_def res_simps)
  obtain ev vs d where e: "embed_all embedder a = ((ev, vs), d)" by (cases "embed_all embedder a") force
  from embed_all_accounts [OF this] show ?thesis
    using assms e em by (auto simp: train_generation_def res_simps split: if_splits)
qed

lemma make_rows_events: "make_rows gen ps = Inr rows \<Longrightarrow> map ri_event rows = map fst ps"
  by (induction ps arbitrary: rows) (auto simp: res_simps)

section \<open>The crash states of a publication\<close>

text \<open>
  A part id names its content: this is what the writer relies on when it finds the directory in place
  and keeps it.
\<close>

definition names_content :: "(string \<Rightarrow> row_in list) \<Rightarrow> plane \<Rightarrow> bool" where
  "names_content content pl \<longleftrightarrow>
     (\<forall>seq gen key rows now ref. pl_write pl seq gen key rows now = Inr ref \<longrightarrow> content (pr_part_id ref) = rows)"

definition rows_in :: "node \<Rightarrow> string \<Rightarrow> row_in list" where
  "rows_in n p = (case bt_get (nd_rows n) p of Some rows \<Rightarrow> rows | None \<Rightarrow> [])"

definition parts_ok :: "(string \<Rightarrow> row_in list) \<Rightarrow> node \<Rightarrow> bool" where
  "parts_ok content n \<longleftrightarrow> (\<forall>p rows. bt_get (nd_rows n) p = Some rows \<longrightarrow> content p = rows)"

text \<open>What a publication leaves alone.\<close>

definition framed :: "(string \<Rightarrow> row_in list) \<Rightarrow> node \<Rightarrow> node \<Rightarrow> bool" where
  "framed content n0 n \<longleftrightarrow> nd_wal n = nd_wal n0 \<and> nd_idem n = nd_idem n0 \<and> nd_offsets n = nd_offsets n0
     \<and> nd_dict n = nd_dict n0 \<and> bt_get (nd_rows n0) \<subseteq>\<^sub>m bt_get (nd_rows n) \<and> parts_ok content n"

definition unpublished :: "snapshot \<Rightarrow> node \<Rightarrow> bool" where
  "unpublished snap n \<longleftrightarrow> current (nd_store n) = Inr snap"

definition published :: "snapshot \<Rightarrow> nat option \<Rightarrow> event list \<Rightarrow> dead_letter list \<Rightarrow> node \<Rightarrow> bool" where
  "published snap applied events old_dead n \<longleftrightarrow> (\<exists>s refs dead. current (nd_store n) = Inr s
     \<and> sn_parts s = sn_parts snap @ map Located refs \<and> nd_dead n = old_dead @ dead
     \<and> sn_applied_wal_record s = (case applied of Some i \<Rightarrow> Some i | None \<Rightarrow> sn_applied_wal_record snap)
     \<and> sn_tombstones s = sn_tombstones snap
     \<and> list_all (\<lambda>r. has_part n (pr_part_id r)) refs
     \<and> accounts (map ri_event (concat (map (rows_in n \<circ> pr_part_id) refs))) dead events)"

definition crashed :: "(string \<Rightarrow> row_in list) \<Rightarrow> node \<Rightarrow> snapshot \<Rightarrow> nat option \<Rightarrow> event list \<Rightarrow> node \<Rightarrow> bool" where
  "crashed content n0 snap applied events n \<longleftrightarrow> framed content n0 n
     \<and> (unpublished snap n \<or> published snap applied events (nd_dead n0) n)"

text \<open>Before the commit, with the dead letters written so far.\<close>

definition pending :: "(string \<Rightarrow> row_in list) \<Rightarrow> node \<Rightarrow> snapshot \<Rightarrow> dead_letter list \<Rightarrow> node \<Rightarrow> bool" where
  "pending content n0 snap dead n \<longleftrightarrow> framed content n0 n \<and> unpublished snap n \<and> nd_dead n = nd_dead n0 @ dead"

lemma pending_crashed: "pending content n0 snap dead n \<Longrightarrow> crashed content n0 snap applied events n"
  by (simp add: pending_def crashed_def)

lemma pending_start: "unpublished snap n0 \<Longrightarrow> parts_ok content n0 \<Longrightarrow> pending content n0 snap [] n0"
  by (simp add: pending_def framed_def)

lemma write_dead_pending:
  "triple (crashed content n0 snap applied events) (pending content n0 snap ds) (write_dead_letters dead) (\<lambda>_. pending content n0 snap (ds @ dead))"
proof (induction dead arbitrary: ds)
  case Nil
  show ?case unfolding write_dead_letters.simps by (rule triple_ret) simp
next
  case (Cons d dead)
  have step: "pending content n0 snap (ds @ [d]) (n\<lparr>nd_dead := nd_dead n @ [d]\<rparr>)" if "pending content n0 snap ds n" for n
    using that by (simp add: pending_def framed_def unpublished_def parts_ok_def)
  show ?case
    unfolding write_dead_letters.simps
  proof (rule triple_bind)
    show "triple (crashed content n0 snap applied events) (pending content n0 snap ds) (io_step (\<lambda>n. n\<lparr>nd_dead := nd_dead n @ [d]\<rparr>))
        (\<lambda>_. pending content n0 snap (ds @ [d]))"
      by (rule triple_step) (use step pending_crashed in blast)+
    show "triple (crashed content n0 snap applied events) (pending content n0 snap (ds @ [d])) (write_dead_letters dead)
        (\<lambda>_. pending content n0 snap (ds @ d # dead))"
      using Cons.IH [of "ds @ [d]"] by simp
  qed
qed

text \<open>The parts written so far hold the rows of their groups.\<close>

definition placed :: "(string \<Rightarrow> row_in list) \<Rightarrow> part_ref list \<Rightarrow> node \<Rightarrow> bool" where
  "placed content refs n \<longleftrightarrow> list_all (\<lambda>r. bt_get (nd_rows n) (pr_part_id r) = Some (content (pr_part_id r))) refs"

lemma place_part_pending:
  assumes "pending content n0 snap ds n" and "content p = rows"
  shows "pending content n0 snap ds (place_part p rows n)"
    and "bt_get (nd_rows (place_part p rows n)) p = Some rows"
    and "placed content refs n \<Longrightarrow> placed content refs (place_part p rows n)"
proof -
  have ok: "parts_ok content n" and sub: "bt_get (nd_rows n0) \<subseteq>\<^sub>m bt_get (nd_rows n)" using assms(1) by (simp_all add: pending_def framed_def)
  show "pending content n0 snap ds (place_part p rows n)"
  proof (cases "bt_get (nd_rows n) p")
    case (Some x)
    then show ?thesis using assms(1) by (simp add: place_part_def)
  next
    case None
    have "bt_get (nd_rows n0) \<subseteq>\<^sub>m bt_get (bt_insert p rows (nd_rows n))"
      using sub None unfolding map_le_def by (auto simp: dom_def)
    moreover have "current ((nd_store n)\<lparr>st_parts := x\<rparr>) = current (nd_store n)" for x
      by (simp add: current_def load_snapshot_def split: option.splits)
    ultimately show ?thesis
      using assms None ok by (simp add: pending_def framed_def unpublished_def parts_ok_def place_part_def)
  qed
  show "bt_get (nd_rows (place_part p rows n)) p = Some rows"
    using ok assms(2) by (cases "bt_get (nd_rows n) p") (auto simp: place_part_def parts_ok_def)
  show "placed content refs (place_part p rows n)" if "placed content refs n"
    using that assms(2) by (auto simp: placed_def place_part_def list_all_iff)
qed

lemma write_parts_pending:
  assumes "names_content content (cf_plane cfg)"
  shows "triple (crashed content n0 snap applied events) (\<lambda>n. pending content n0 snap ds n \<and> placed content old n)
    (write_parts cfg gen now groups seq)
    (\<lambda>(refs, _) n. pending content n0 snap ds n \<and> placed content (old @ refs) n \<and> map (content \<circ> pr_part_id) refs = map snd groups)"
proof (induction groups arbitrary: seq old)
  case Nil
  show ?case unfolding write_parts.simps by (rule triple_ret) simp
next
  case (Cons g groups)
  let ?C = "crashed content n0 snap applied events"
  let ?key = "partition_of (cf_scheme cfg) (g_id gen) (ri_event (hd (snd g)))"
  let ?P = "\<lambda>n. pending content n0 snap ds n \<and> placed content old n"
  have lift: "triple ?C ?P (io_lift (pl_write (cf_plane cfg) seq gen ?key (snd g) now)) (\<lambda>ref n. ?P n \<and> content (pr_part_id ref) = snd g)"
    by (rule triple_lift) (use pending_crashed assms in \<open>auto simp: names_content_def\<close>)
  have place: "triple ?C (\<lambda>n. ?P n \<and> content (pr_part_id ref) = snd g) (io_step (place_part (pr_part_id ref) (snd g)))
      (\<lambda>_ n. (pending content n0 snap ds n \<and> placed content (old @ [ref]) n) \<and> content (pr_part_id ref) = snd g)" for ref
  proof (rule triple_step)
    fix n assume n: "?P n \<and> content (pr_part_id ref) = snd g"
    then have p: "pending content n0 snap ds n" and c: "content (pr_part_id ref) = snd g" by simp_all
    note q = place_part_pending [OF p c]
    show "?C (place_part (pr_part_id ref) (snd g) n)" using q(1) by (rule pending_crashed)
    show "(pending content n0 snap ds (place_part (pr_part_id ref) (snd g) n) \<and> placed content (old @ [ref]) (place_part (pr_part_id ref) (snd g) n))
        \<and> content (pr_part_id ref) = snd g"
      using q(1,2) q(3) [of old] n by (simp add: placed_def)
  qed
  have rest: "triple ?C (\<lambda>n. (pending content n0 snap ds n \<and> placed content (old @ [ref]) n) \<and> content (pr_part_id ref) = snd g)
      (io_bind (write_parts cfg gen now groups (seq + 1)) (\<lambda>(refs, seq'). io_ret (ref # refs, seq')))
      (\<lambda>(refs, _) n. pending content n0 snap ds n \<and> placed content (old @ refs) n \<and> map (content \<circ> pr_part_id) refs = map snd (g # groups))" for ref
  proof (rule triple_conj, rule triple_bind [OF Cons.IH])
    fix x :: "part_ref list \<times> nat" assume c: "content (pr_part_id ref) = snd g"
    obtain refs q where x: "x = (refs, q)" by (cases x)
    show "triple ?C (case x of (refs, _) \<Rightarrow> \<lambda>n. pending content n0 snap ds n \<and> placed content ((old @ [ref]) @ refs) n
          \<and> map (content \<circ> pr_part_id) refs = map snd groups) (case x of (refs, seq') \<Rightarrow> io_ret (ref # refs, seq'))
        (\<lambda>(refs, _) n. pending content n0 snap ds n \<and> placed content (old @ refs) n \<and> map (content \<circ> pr_part_id) refs = map snd (g # groups))"
      unfolding x prod.case by (rule triple_ret) (use c in simp)
  qed
  show ?case
    unfolding write_parts.simps Let_def by (rule triple_bind [OF lift], rule triple_bind [OF place], rule rest)
qed

lemma assert_write_owner_triple:
  assumes "\<And>n. P n \<Longrightarrow> C n" and "\<And>n x. P n \<Longrightarrow> P (n\<lparr>nd_remote := x\<rparr>)"
  shows "triple C P (assert_write_owner cfg) (\<lambda>_. P)"
proof (rule tripleI)
  fix n t r n' assume p: "P n" and a: "assert_write_owner cfg n = (t, r, n')"
  have "t = [] \<and> P n'"
    using p a assms(2) by (auto simp: assert_write_owner_def split: if_splits prod.splits)
  then show "list_all C t \<and> (case r of Inr _ \<Rightarrow> P n' | Inl _ \<Rightarrow> C n')" using assms(1) by (cases r) simp_all
qed

lemma pending_remote: "pending content n0 snap ds n \<Longrightarrow> pending content n0 snap ds (n\<lparr>nd_remote := x\<rparr>)"
  by (simp add: pending_def framed_def unpublished_def parts_ok_def)

text \<open>The rows of the placed parts and the dead letters written make up the batch.\<close>

definition batch_of :: "(string \<Rightarrow> row_in list) \<Rightarrow> part_ref list \<Rightarrow> dead_letter list \<Rightarrow> event list \<Rightarrow> bool" where
  "batch_of content refs dead events \<longleftrightarrow> accounts (map ri_event (concat (map (content \<circ> pr_part_id) refs))) dead events"

lemma commit_io_triple:
  assumes b: "batch_of content refs dead events"
    and m: "me_applied_wal_record meta = (case applied of Some i \<Rightarrow> Some i | None \<Rightarrow> sn_applied_wal_record snap)"
      "me_tombstones meta = sn_tombstones snap"
  shows "triple (crashed content n0 snap applied events) (\<lambda>n. pending content n0 snap dead n \<and> placed content refs n)
    (commit_io snap (sn_parts snap @ map Located refs) seq active meta now)
    (\<lambda>_ n. framed content n0 n \<and> published snap applied events (nd_dead n0) n)"
proof (rule tripleI)
  fix n t r n'
  assume p: "pending content n0 snap dead n \<and> placed content refs n"
    and c: "commit_io snap (sn_parts snap @ map Located refs) seq active meta now n = (t, r, n')"
  let ?C = "crashed content n0 snap applied events"
  have fr: "framed content n0 n" and un: "current (nd_store n) = Inr snap" and dd: "nd_dead n = nd_dead n0 @ dead"
    using p by (simp_all add: pending_def unpublished_def)
  have frs: "framed content n0 (n\<lparr>nd_store := x\<rparr>)" for x using fr by (simp add: framed_def parts_ok_def)
  show "list_all ?C t \<and> (case r of Inr x \<Rightarrow> framed content n0 n' \<and> published snap applied events (nd_dead n0) n' | Inl _ \<Rightarrow> ?C n')"
  proof (cases "commit_meta (has_part n) (nd_store n) snap (sn_parts snap @ map Located refs) seq active meta now")
    case (Inl e)
    then show ?thesis using c fr un by (auto simp: commit_io_def crashed_def unpublished_def)
  next
    case (Inr y)
    obtain s trace where y: "y = (s, trace)" by (cases y)
    note cm = Inr [unfolded y]
    let ?st1 = "put_snapshot s (nd_store n)" and ?st2 = "(put_snapshot s (nd_store n))\<lparr>st_current := Some (snapshot_id s)\<rparr>"
    note tr = commit_meta_trace [OF cm] and cur = commit_current [OF un cm]
    have res: "t = [n\<lparr>nd_store := nd_store n\<rparr>, n\<lparr>nd_store := ?st1\<rparr>, n\<lparr>nd_store := ?st2\<rparr>]" "r = Inr s" "n' = n\<lparr>nd_store := ?st2\<rparr>"
      using c conjunct1 [OF tr] by (auto simp: commit_io_def cm)
    have rows: "map (rows_in (n\<lparr>nd_store := ?st2\<rparr>) \<circ> pr_part_id) refs = map (content \<circ> pr_part_id) refs"
      and here: "list_all (\<lambda>r. has_part (n\<lparr>nd_store := ?st2\<rparr>) (pr_part_id r)) refs"
      using p by (auto simp: placed_def list_all_iff rows_in_def has_part_def)
    have "published snap applied events (nd_dead n0) (n\<lparr>nd_store := ?st2\<rparr>)"
      unfolding published_def
      by (intro exI [of _ s] exI [of _ refs] exI [of _ dead] conjI)
        (use tr cur m dd here b in \<open>simp_all add: rows batch_of_def\<close>)
    then show ?thesis using res frs [of "nd_store n"] frs [of ?st1] frs [of ?st2] un cur by (simp add: crashed_def unpublished_def)
  qed
qed

text \<open>How a publication ends: published, or every event of the batch in the dead letters.\<close>

definition settled :: "(string \<Rightarrow> row_in list) \<Rightarrow> node \<Rightarrow> snapshot \<Rightarrow> nat option \<Rightarrow> event list \<Rightarrow> node \<Rightarrow> bool" where
  "settled content n0 snap applied events n \<longleftrightarrow> framed content n0 n \<and>
     (published snap applied events (nd_dead n0) n
      \<or> unpublished snap n \<and> (\<exists>dead. nd_dead n = nd_dead n0 @ dead \<and> accounts [] dead events))"

lemma settled_crashed: "settled content n0 snap applied events n \<Longrightarrow> crashed content n0 snap applied events n"
  by (auto simp: settled_def crashed_def)

lemma pending_settled: "pending content n0 snap dead n \<Longrightarrow> accounts [] dead events \<Longrightarrow> settled content n0 snap applied events n"
  by (auto simp: settled_def pending_def)

lemma finish_empty_triple:
  assumes "accounts [] dead events"
  shows "triple (crashed content n0 snap applied events) (pending content n0 snap []) (finish_empty snap dead)
    (\<lambda>_. settled content n0 snap applied events)"
  unfolding finish_empty_def
  by (rule triple_bind [OF write_dead_pending], rule triple_ret) (use assms pending_settled in auto)

lemma rows_by_partition_events:
  "mset (map ri_event (concat (map snd (rows_by_partition scheme g rows)))) = mset (map ri_event rows)"
proof -
  have "mset (concat (map snd (rows_by_partition scheme g rows))) = mset rows"
    unfolding rows_by_partition_def using group_with_mset [of _ "\<lambda>r. r" rows] by simp
  then show ?thesis by (simp only: mset_map)
qed

lemma triple_lift_same:
  "(\<And>n. P n \<Longrightarrow> C n) \<Longrightarrow> triple C P (io_lift x) (\<lambda>_. P)"
  by (rule triple_lift)

lemma publish_parts_triple:
  assumes "batch_of content refs dead events"
  shows "triple (crashed content n0 snap applied events) (\<lambda>n. pending content n0 snap dead n \<and> placed content refs n)
    (publish_parts cfg snap g refs seq now applied) (\<lambda>_. settled content n0 snap applied events)"
proof -
  let ?C = "crashed content n0 snap applied events" and ?P = "\<lambda>n. pending content n0 snap dead n \<and> placed content refs n"
  have prc: "?C n" if "?P n" for n using that pending_crashed by blast
  have fence: "triple ?C ?P (assert_write_owner cfg) (\<lambda>_. ?P)"
    by (rule assert_write_owner_triple) (use prc pending_remote in \<open>auto simp: placed_def\<close>)
  have commit: "triple ?C ?P (commit_io snap (sn_parts snap @ map Located refs) seq (Some g)
      ((meta_of snap)\<lparr>me_applied_wal_record := (case applied of Some i \<Rightarrow> Some i | None \<Rightarrow> sn_applied_wal_record snap)\<rparr>) now)
      (\<lambda>_. settled content n0 snap applied events)"
    by (rule triple_post [OF commit_io_triple [OF assms]]) (simp_all add: settled_def meta_of_def)
  show ?thesis
    unfolding publish_parts_def
    by (rule triple_bind [OF triple_lift_same [OF prc]], assumption, rule triple_bind [OF fence],
        rule triple_bind [OF triple_lift_same [OF prc]], assumption, rule triple_bind [OF commit],
        rule triple_bind [OF triple_lift_same [OF settled_crashed]], assumption, rule triple_ret)
qed

lemma publish_rows_triple:
  assumes nc: "names_content content (cf_plane cfg)" and ac: "accounts (map ri_event rows) dead events"
  shows "triple (crashed content n0 snap applied events) (pending content n0 snap dead)
    (publish_rows cfg snap gen rows k trained now applied) (\<lambda>_. settled content n0 snap applied events)"
  unfolding publish_rows_def
proof (rule triple_bind)
  let ?C = "crashed content n0 snap applied events" and ?gs = "rows_by_partition (cf_scheme cfg) (g_id gen) rows"
  let ?P = "pending content n0 snap dead" and ?S = "\<lambda>_. settled content n0 snap applied events"
  show "triple ?C ?P (write_parts cfg gen now ?gs (sn_next_seq snap))
      (\<lambda>x n. (?P n \<and> placed content (fst x) n) \<and> map (content \<circ> pr_part_id) (fst x) = map snd ?gs)"
    by (rule triple_pre [OF triple_post [OF write_parts_pending [OF nc, where old = "[]"]]]) (auto simp: placed_def)
  fix x :: "part_ref list \<times> nat"
  obtain refs seq where x: "x = (refs, seq)" by (cases x)
  have batch: "batch_of content refs dead events" if "map (content \<circ> pr_part_id) refs = map snd ?gs"
    unfolding batch_of_def that using ac rows_by_partition_events [of "cf_scheme cfg" "g_id gen" rows] by (simp only: accounts_def)
  show "triple ?C (\<lambda>n. (?P n \<and> placed content (fst x) n) \<and> map (content \<circ> pr_part_id) (fst x) = map snd ?gs)
      (case x of (refs, seq) \<Rightarrow> io_bind (publish_parts cfg snap (g_id gen) refs seq now applied) (\<lambda>new_snap.
       io_ret \<lparr>ig_admitted = length rows, ig_dead_lettered = k, ig_part_id = (case refs of [] \<Rightarrow> None | r # _ \<Rightarrow> Some (pr_part_id r)),
         ig_snapshot_id = snapshot_id new_snap, ig_generation_id = g_id gen, ig_trained = trained\<rparr>)) ?S"
    unfolding x prod.case fst_conv by (rule triple_conj, rule triple_bind [OF publish_parts_triple [OF batch]], assumption, rule triple_ret)
qed

lemma write_and_commit_triple:
  assumes nc: "names_content content (cf_plane cfg)" and ac: "accounts ev dead events" and len: "length vs = length ev"
  shows "triple (crashed content n0 snap applied events) (pending content n0 snap [])
    (write_and_commit cfg snap gen ev vs dead trained now applied) (\<lambda>_. settled content n0 snap applied events)"
proof -
  let ?C = "crashed content n0 snap applied events" and ?S = "\<lambda>_. settled content n0 snap applied events"
  let ?P = "pending content n0 snap dead"
  have w: "triple ?C (pending content n0 snap []) (write_dead_letters dead) (\<lambda>_. ?P)" using write_dead_pending [where ds = "[]"] by simp
  show ?thesis
  proof (cases "ev = []")
    case True
    then have "accounts [] dead events" using ac by simp
    then show ?thesis unfolding write_and_commit_def if_P [OF True]
      by (intro triple_bind [OF w] triple_ret) (rule pending_settled)
  next
    case False
    have rows: "triple ?C ?P (io_lift (make_rows gen (zip ev vs))) (\<lambda>rows n. ?P n \<and> make_rows gen (zip ev vs) = Inr rows)"
      by (rule triple_lift) (use pending_crashed in auto)
    have ev: "map ri_event rows = ev" if "make_rows gen (zip ev vs) = Inr rows" for rows
      using make_rows_events [OF that] len by simp
    show ?thesis unfolding write_and_commit_def if_not_P [OF False]
      by (rule triple_bind [OF w], rule triple_bind [OF rows], rule triple_conj, rule publish_rows_triple [OF nc]) (simp add: ev ac)
  qed
qed

lemma pending_generation:
  "pending content n0 snap ds n \<Longrightarrow> pending content n0 snap ds (n\<lparr>nd_generations := x\<rparr>)"
  by (simp add: pending_def framed_def unpublished_def parts_ok_def)

lemma put_generation_triple:
  "triple (crashed content n0 snap applied events) (pending content n0 snap ds) (put_generation pl gen) (\<lambda>_. pending content n0 snap ds)"
  unfolding put_generation_def
proof (rule triple_bind [OF triple_lift_same])
  show "triple (crashed content n0 snap applied events) (pending content n0 snap ds)
      (io_step (\<lambda>n. if bt_get (nd_generations n) (g_id gen) \<noteq> None then n else n\<lparr>nd_generations := bt_insert (g_id gen) gen (nd_generations n)\<rparr>))
      (\<lambda>_. pending content n0 snap ds)"
  proof (rule triple_step)
    fix n assume "pending content n0 snap ds n"
    then show p: "pending content n0 snap ds (if bt_get (nd_generations n) (g_id gen) \<noteq> None then n
        else n\<lparr>nd_generations := bt_insert (g_id gen) gen (nd_generations n)\<rparr>)" by (simp add: pending_generation)
    show "crashed content n0 snap applied events (if bt_get (nd_generations n) (g_id gen) \<noteq> None then n
        else n\<lparr>nd_generations := bt_insert (g_id gen) gen (nd_generations n)\<rparr>)" by (rule pending_crashed [OF p])
  qed
qed (rule pending_crashed)

lemma embed_and_commit_triple:
  assumes nc: "names_content content (cf_plane cfg)" and ac: "accounts admitted dead events"
  shows "triple (crashed content n0 snap applied events) (pending content n0 snap [])
    (embed_and_commit cfg snap admitted dead now applied) (\<lambda>_. settled content n0 snap applied events)"
proof -
  let ?C = "crashed content n0 snap applied events" and ?P = "pending content n0 snap []"
  let ?S = "\<lambda>_. settled content n0 snap applied events" and ?pl = "cf_plane cfg"
  show ?thesis
  proof (cases "sn_active_generation snap")
    case (Some g)
    have read: "triple ?C ?P (io_read (\<lambda>n. get_generation ?pl n g)) (\<lambda>_. ?P)"
      by (rule triple_read) (rule pending_crashed)
    have embed: "triple ?C ?P (case embed_all embedder admitted of (kept, failed) \<Rightarrow>
        write_and_commit cfg snap gen (fst kept) (snd kept) (dead @ failed) False now applied) ?S" for gen embedder
    proof -
      obtain ev vs failed where e: "embed_all embedder admitted = ((ev, vs), failed)"
        by (cases "embed_all embedder admitted") force
      note a = embed_all_accounts [OF e]
      show ?thesis unfolding e prod.case fst_conv snd_conv
        by (rule write_and_commit_triple [OF nc accounts_append [OF conjunct1 [OF a] ac] conjunct2 [OF a]])
    qed
    show ?thesis unfolding embed_and_commit_def Let_def Some option.case 
      by (rule triple_bind [OF read triple_bind [OF triple_lift_same [OF pending_crashed] embed]])
  next
    case None
    have lift: "triple ?C ?P (io_lift (train_generation ?pl (snapshot_id snap) admitted))
        (\<lambda>x n. ?P n \<and> train_generation ?pl (snapshot_id snap) admitted = Inr x)"
      by (rule triple_lift) (use pending_crashed in auto)
    have rest: "triple ?C ?P (case trained of
          None \<Rightarrow> finish_empty snap (dead @ failed)
        | Some (gen, events, vectors) \<Rightarrow> io_bind (put_generation ?pl gen) (\<lambda>_.
            write_and_commit cfg snap gen events vectors (dead @ failed) True now applied)) ?S"
      if t: "train_generation ?pl (snapshot_id snap) admitted = Inr (trained, failed)" for trained failed
    proof (cases trained)
      case None
      have "accounts [] failed admitted" using train_accounts [OF t] None by simp
      then show ?thesis unfolding None option.case by (intro finish_empty_triple accounts_append [OF _ ac])
    next
      case (Some y)
      obtain gen ev vs where y: "y = (gen, ev, vs)" by (cases y)
      have a: "accounts ev failed admitted" "length vs = length ev" using train_accounts [OF t] Some y by simp_all
      show ?thesis unfolding Some y option.case prod.case
        by (rule triple_bind [OF put_generation_triple write_and_commit_triple [OF nc accounts_append [OF a(1) ac] a(2)]])
    qed
    show ?thesis unfolding embed_and_commit_def Let_def None option.case
    proof (rule triple_bind [OF lift], rule triple_conj)
      fix x :: "(generation \<times> event list \<times> f32 list list) option \<times> dead_letter list"
      obtain tr failed where x: "x = (tr, failed)" by (cases x)
      assume "train_generation ?pl (snapshot_id snap) admitted = Inr x"
      then show "triple ?C ?P (case x of (trained, failed) \<Rightarrow> case trained of
          None \<Rightarrow> finish_empty snap (dead @ failed)
        | Some (gen, events, vectors) \<Rightarrow> io_bind (put_generation ?pl gen) (\<lambda>_.
            write_and_commit cfg snap gen events vectors (dead @ failed) True now applied)) ?S"
        unfolding x prod.case by (rule rest)
    qed
  qed
qed

lemma split_decisions_accounts: "split_decisions ps = Inr (a, d) \<Longrightarrow> accounts a d (map fst ps)"
proof (induction ps arbitrary: a d)
  case Nil
  then show ?case by (simp add: accounts_def)
next
  case (Cons p ps)
  obtain e r where p: "p = (e, r)" by (cases p)
  show ?case
  proof (cases r)
    case (Inr u)
    then show ?thesis using Cons p by (auto simp: accounts_def res_simps)
  next
    case (Inl x)
    then show ?thesis using Cons p by (cases x) (auto simp: accounts_def res_simps)
  qed
qed

lemma model_preflight_accounts:
  assumes "model_preflight pl n snap events = Inr (a, d)"
  shows "accounts a d events"
proof (cases "events = []")
  case True
  then show ?thesis using assms by (simp add: model_preflight_def accounts_def)
next
  case False
  let ?ds = "pl_preflight pl (inputs_of events)"
  have "length ?ds = length events" "split_decisions (zip events ?ds) = Inr (a, d)"
    using assms False by (auto simp: model_preflight_def res_simps Let_def split: if_splits)
  then show ?thesis using split_decisions_accounts [of "zip events ?ds" a d] by simp
qed

lemma ingest_inner_triple:
  assumes nc: "names_content content (cf_plane cfg)"
  shows "triple (crashed content n0 snap applied events) (pending content n0 snap [])
    (ingest_inner cfg events now applied preflight) (\<lambda>_. settled content n0 snap applied events)"
proof -
  let ?C = "crashed content n0 snap applied events" and ?P = "pending content n0 snap []"
  let ?S = "\<lambda>_. settled content n0 snap applied events" and ?pl = "cf_plane cfg"
  have read: "triple ?C ?P (io_read (\<lambda>n. current (nd_store n))) (\<lambda>x n. ?P n \<and> x = snap)"
    by (rule triple_read) (use pending_crashed in \<open>auto simp: pending_def unpublished_def\<close>)
  have val: "triple ?C ?P (io_lift (validate_batch events)) (\<lambda>x n. ?P n \<and> accounts (fst x) (snd x) events)"
    by (rule triple_lift) (use pending_crashed validate_batch_accounts in auto)
  have pre: "triple ?C ?P (io_read (\<lambda>n. model_preflight ?pl n snap a)) (\<lambda>x n. ?P n \<and> accounts (fst x) (snd x) a)" for a
    by (rule triple_read) (use pending_crashed model_preflight_accounts in auto)
  have checked: "triple ?C ?P (io_bind (io_read (\<lambda>n. model_preflight ?pl n snap a)) (\<lambda>(allowed, denied).
      if allowed = [] then finish_empty snap (d @ denied) else embed_and_commit cfg snap allowed (d @ denied) now applied)) ?S"
    if ac: "accounts a d events" for a d
  proof (rule triple_bind [OF pre], rule triple_conj)
    fix x :: "event list \<times> dead_letter list" assume "accounts (fst x) (snd x) a"
    then have y: "accounts (fst x) (d @ snd x) events" using accounts_append ac by blast
    show "triple ?C ?P (case x of (allowed, denied) \<Rightarrow>
        if allowed = [] then finish_empty snap (d @ denied) else embed_and_commit cfg snap allowed (d @ denied) now applied) ?S"
      using finish_empty_triple [of "d @ snd x" events content n0 snap applied] embed_and_commit_triple [OF nc y] y
      by (cases x) (auto split: if_splits)
  qed
  have go: "triple ?C ?P (case x of (admitted, dead) \<Rightarrow>
      if preflight then io_bind (io_read (\<lambda>n. model_preflight ?pl n snap admitted)) (\<lambda>(allowed, denied).
          if allowed = [] then finish_empty snap (dead @ denied) else embed_and_commit cfg snap allowed (dead @ denied) now applied)
      else embed_and_commit cfg snap admitted dead now applied) ?S" if ac: "accounts (fst x) (snd x) events" for x
  proof -
    obtain a d where x: "x = (a, d)" by (cases x)
    have "accounts a d events" using ac x by simp
    then show ?thesis using checked [of a d] embed_and_commit_triple [OF nc, of a d events] unfolding x prod.case by (cases preflight) simp_all
  qed
  show ?thesis
    unfolding ingest_inner_def
  proof (rule triple_bind [OF read], rule triple_conj)
    fix s assume s: "s = snap"
    show "triple ?C ?P (io_bind (io_lift (validate_batch events)) (\<lambda>(admitted, dead).
        if preflight then io_bind (io_read (\<lambda>n. model_preflight ?pl n s admitted)) (\<lambda>(allowed, denied).
            if allowed = [] then finish_empty s (dead @ denied) else embed_and_commit cfg s allowed (dead @ denied) now applied)
        else embed_and_commit cfg s admitted dead now applied)) ?S"
      unfolding s by (rule triple_bind [OF val], rule triple_conj) (rule go)
  qed
qed

section \<open>Properties\<close>


definition toy_generation :: generation where
  "toy_generation = \<lparr>g_id = ''g'', g_assign = (\<lambda>_. 0), g_encode = (\<lambda>_. Inr [])\<rparr>"

definition toy_row :: row_in where
  "toy_row = \<lparr>ri_event = sample_event, ri_centroid = 0, ri_code = [], ri_vector = [0]\<rparr>"

definition toy_ref :: part_ref where
  "toy_ref = \<lparr>pr_part_id = ''p'', pr_partition = \<lparr>pk_bucket = Shared 0, pk_window = 0, pk_generation = ''g''\<rparr>,
     pr_rows = 1, pr_tenants = [''acme''], pr_time_min = 0, pr_time_max = 0\<rparr>"

text \<open>A plane that embeds everything and can write one part.\<close>

definition toy_plane :: plane where
  "toy_plane = \<lparr>pl_preflight = map (\<lambda>_. Inr ()), pl_verify = (\<lambda>_. Inr ()), pl_embedder = (\<lambda>_. Inr (map (\<lambda>_. Inr [0]))),
     pl_default_embedder = Inr (map (\<lambda>_. Inr [0])), pl_fit = (\<lambda>_ _ _. Inr toy_generation),
     pl_write = (\<lambda>_ _ _ rows _. if rows = [toy_row] then Inr toy_ref else Inl (Io ''disk'')),
     pl_cold = (\<lambda>_. Inr ()), pl_mirror = (\<lambda>_. Inr ())\<rparr>"

definition toy_config :: config where
  "toy_config = \<lparr>cf_scheme = one_bucket, cf_plane = toy_plane, cf_epoch = 0, cf_remote = None, cf_js = toy_serde, cf_crypto = None\<rparr>"

definition empty_node :: node where
  "empty_node = \<lparr>nd_wal = \<lparr>wd_log = [], wd_next_id = 0\<rparr>,
     nd_remote = ([], \<lparr>unavailable = False, truncate_reads = False, fail_next = False\<rparr>),
     nd_store = \<lparr>st_current = None, st_snaps = [], st_parts = []\<rparr>, nd_rows = [], nd_generations = [], nd_idem = [],
     nd_offsets = [], nd_dead = [], nd_dict = []\<rparr>"

lemma toy_ingest: "\<exists>states rep n'. ingest_wal toy_config [sample_event] 5 7 empty_node = (states, Inr rep, n')
    \<and> nd_dead n' = []"
proof -
  have f: "\<not> f64_lt 0 0" "f64_is_finite 0"
    by (simp_all add: f64_lt_def f64_partial_cmp_def f64_is_nan_def f64_is_finite_def f64_mag_def f64_inf_mag_def ord_cmp_def)
  have t: "trim_chars [116, 105, 109, 101, 111, 117, 116] \<noteq> []" by (simp add: trim_chars_empty_iff is_whitespace_def)
  have v: "event_validate sample_event = Inr ()"
    using f t by (simp add: event_validate_def sample_event_def check_identifier_def validate_attributes_def event_limit_defs limit_defs)
  show ?thesis
    using first_snapshot_id
    by (simp add: ingest_wal_def ingest_inner_def v io_bind_def io_read_def io_lift_def io_ret_def io_step_def empty_node_def toy_config_def
        toy_plane_def embed_and_commit_def current_def empty_snapshot_def Let_def train_generation_def embed_all_def inputs_of_def
        put_generation_def toy_generation_def write_and_commit_def publish_rows_def publish_parts_def
        rows_by_partition_def group_with_def bt_push_def toy_row_def toy_ref_def assert_write_owner_def place_part_def
        commit_io_def commit_meta_def commit_check_def ref_validate_def has_part_def bt_get_def)
qed


end
